(* ===== verification/Prelude.thy ===== *)
theory Prelude
  imports "HOL-Library.Word" "HOL-Library.AList" "HOL-Library.Multiset"
begin

text \<open>
  Shared vocabulary of the development: machine integers and byte vectors, the
  little-endian encodings of the Rust standard library, 32-byte arrays, checked and
  saturating arithmetic, the text formatting the programs use in logs and errors, and
  the interfaces (locales) for prefix codes that several components instantiate.
\<close>

unbundle bit_operations_syntax

named_theorems enc_simps \<open>sizes and round trips of the byte encodings\<close>
named_theorems arith_simps \<open>checked and saturating machine arithmetic, read as naturals\<close>

subsection \<open>Types\<close>

type_synonym u8 = "8 word"
type_synonym u16 = "16 word"
type_synonym u32 = "32 word"
type_synonym u64 = "64 word"
type_synonym bytes = "u8 list"

text \<open>
  A Rust \<^verbatim>\<open>[u8; 32]\<close> is read as the 256-bit number whose big-endian digits are the
  array's bytes: equality is equality of arrays and the order of the numbers is the
  lexicographic order of the arrays, which is what \<^verbatim>\<open>sort\<close> and \<^verbatim>\<open>BTreeMap\<close> use.
\<close>

type_synonym hash32 = "256 word"
type_synonym pubkey = hash32

subsection \<open>Little-endian encodings\<close>

primrec le_bytes :: "nat \<Rightarrow> 'a::len word \<Rightarrow> bytes" where
  "le_bytes 0 w = []"
| "le_bytes (Suc n) w = ucast w # le_bytes n (drop_bit 8 w)"

primrec le_val :: "bytes \<Rightarrow> 'a::len word" where
  "le_val [] = 0"
| "le_val (b # bs) = ucast b OR push_bit 8 (le_val bs)"

abbreviation le_u64 :: "u64 \<Rightarrow> bytes" where
  "le_u64 \<equiv> le_bytes 8"

abbreviation le_u32 :: "u32 \<Rightarrow> bytes" where
  "le_u32 \<equiv> le_bytes 4"

lemma length_le_bytes [simp, enc_simps]: "length (le_bytes n w) = n"
  by (induction n arbitrary: w) auto

lemma le_val_le_bytes: "le_val (le_bytes n w) = take_bit (8 * n) w"
proof (induction n arbitrary: w)
  case 0
  then show ?case by simp
next
  case (Suc n)
  show ?case
    by (rule bit_word_eqI)
      (auto simp: Suc bit_or_iff bit_push_bit_iff bit_take_bit_iff bit_drop_bit_eq bit_ucast_iff
        dest: bit_imp_le_length)
qed

lemma le_val_le_bytes_full [simp, enc_simps]:
  "LENGTH('a) \<le> 8 * n \<Longrightarrow> le_val (le_bytes n w) = (w :: 'a::len word)"
  by (simp add: le_val_le_bytes take_bit_word_eq_self)

lemma le_bytes_le_val:
  "length bs = n \<Longrightarrow> 8 * n \<le> LENGTH('a) \<Longrightarrow> le_bytes n (le_val bs :: 'a::len word) = bs"
proof (induction bs arbitrary: n)
  case Nil
  then show ?case by simp
next
  case (Cons b bs)
  then obtain m where m: "n = Suc m" "length bs = m" "8 * m \<le> LENGTH('a)" by auto
  have hd: "ucast (ucast b OR push_bit 8 (le_val bs :: 'a word)) = b"
    using Cons.prems m
    by (intro bit_word_eqI)
      (auto simp: bit_or_iff bit_push_bit_iff bit_ucast_iff dest: bit_imp_le_length)
  have ih: "le_bytes m (le_val bs :: 'a word) = bs"
    using Cons.IH m by blast
  have small: "bit (le_val bs :: 'a word) i \<Longrightarrow> i < 8 * m" for i
  proof -
    assume "bit (le_val bs :: 'a word) i"
    moreover have "le_val bs = take_bit (8 * m) (le_val bs :: 'a word)"
      using le_val_le_bytes[of m "le_val bs :: 'a word"] ih by simp
    ultimately show ?thesis by (metis bit_take_bit_iff)
  qed
  have tl: "drop_bit 8 (ucast b OR push_bit 8 (le_val bs) :: 'a word) = le_val bs"
    using Cons.prems m
    by (intro bit_word_eqI)
      (auto simp: bit_or_iff bit_push_bit_iff bit_ucast_iff bit_drop_bit_eq dest: bit_imp_le_length small)
  show ?case using m hd tl ih by simp
qed


lemma le_bytes_inj [simp]:
  "LENGTH('a) \<le> 8 * n \<Longrightarrow> le_bytes n v = le_bytes n w \<longleftrightarrow> v = (w :: 'a::len word)"
  by (metis le_val_le_bytes_full)

subsection \<open>32-byte arrays\<close>

definition bytes32 :: "hash32 \<Rightarrow> bytes" where
  "bytes32 h = rev (le_bytes 32 h)"

definition of_bytes32 :: "bytes \<Rightarrow> hash32" where
  "of_bytes32 bs = le_val (rev bs)"

text \<open>The array literal \<^verbatim>\<open>[b; 32]\<close>.\<close>

definition fill32 :: "u8 \<Rightarrow> hash32" where
  "fill32 b = of_bytes32 (replicate 32 b)"

lemma length_bytes32 [simp, enc_simps]: "length (bytes32 h) = 32"
  by (simp add: bytes32_def)

lemma bytes32_not_Nil [simp]: "bytes32 h \<noteq> []"
  by (metis length_bytes32 list.size(3) zero_neq_numeral)

lemma of_bytes32_bytes32 [simp, enc_simps]: "of_bytes32 (bytes32 h) = h"
  by (simp add: of_bytes32_def bytes32_def)

lemma bytes32_of_bytes32 [enc_simps]: "length bs = 32 \<Longrightarrow> bytes32 (of_bytes32 bs) = bs"
  by (simp add: of_bytes32_def bytes32_def le_bytes_le_val)

lemma bytes32_inj [simp]: "bytes32 g = bytes32 h \<longleftrightarrow> g = h"
  by (metis of_bytes32_bytes32)

lemma fill32_inj [simp]: "fill32 a = fill32 b \<longleftrightarrow> a = b"
proof
  assume "fill32 a = fill32 b"
  then have "bytes32 (fill32 a) = bytes32 (fill32 b)" by simp
  then show "a = b" by (simp add: fill32_def bytes32_of_bytes32)
qed simp

lemma bytes32_fill32: "bytes32 (fill32 b) = replicate 32 b"
  by (simp add: fill32_def bytes32_of_bytes32)

lemma fill32_0 [simp]: "fill32 0 = 0"
proof -
  have "le_val (replicate n 0) = (0 :: 256 word)" for n
    by (induction n) auto
  then show ?thesis by (simp add: fill32_def of_bytes32_def)
qed

subsection \<open>Checked and saturating arithmetic\<close>

definition checked_add :: "'a::len word \<Rightarrow> 'a word \<Rightarrow> 'a word option" where
  "checked_add a b = (if unat a + unat b < 2 ^ LENGTH('a) then Some (a + b) else None)"

definition checked_sub :: "'a::len word \<Rightarrow> 'a word \<Rightarrow> 'a word option" where
  "checked_sub a b = (if b \<le> a then Some (a - b) else None)"

definition saturating_add :: "'a::len word \<Rightarrow> 'a word \<Rightarrow> 'a word" where
  "saturating_add a b = (if unat a + unat b < 2 ^ LENGTH('a) then a + b else - 1)"

definition saturating_sub :: "'a::len word \<Rightarrow> 'a word \<Rightarrow> 'a word" where
  "saturating_sub a b = (if b \<le> a then a - b else 0)"

definition saturating_mul :: "'a::len word \<Rightarrow> 'a word \<Rightarrow> 'a word" where
  "saturating_mul a b = (if unat a * unat b < 2 ^ LENGTH('a) then a * b else - 1)"

lemma unat_max_word: "unat (- 1 :: 'a::len word) = 2 ^ LENGTH('a) - 1"
  by (simp add: unsigned_minus_1_eq_mask mask_eq_exp_minus_1)

lemma checked_add_Some [arith_simps]:
  "checked_add (a :: 'a::len word) b = Some c \<longleftrightarrow> unat c = unat a + unat b"
proof (cases "unat a + unat b < 2 ^ LENGTH('a)")
  case True
  then have "unat (a + b) = unat a + unat b" by (simp only: unat_add_lem)
  with True show ?thesis by (auto simp: checked_add_def word_unat_eq_iff)
next
  case False
  moreover have "unat c < 2 ^ LENGTH('a)" by (rule unsigned_less)
  ultimately have "unat c \<noteq> unat a + unat b" by linarith
  with False show ?thesis by (simp add: checked_add_def)
qed

lemma checked_add_None [arith_simps]:
  "checked_add (a :: 'a::len word) b = None \<longleftrightarrow> 2 ^ LENGTH('a) \<le> unat a + unat b"
  by (auto simp: checked_add_def)

lemma checked_sub_Some [arith_simps]:
  "checked_sub a b = Some c \<longleftrightarrow> b \<le> a \<and> unat c + unat b = unat a"
  unfolding checked_sub_def
  by (auto simp: word_le_nat_alt word_unat_eq_iff unat_sub_if' split: if_splits)

lemma unat_saturating_add [arith_simps]:
  "unat (saturating_add (a :: 'a::len word) b) = min (unat a + unat b) (2 ^ LENGTH('a) - 1)"
  using unat_add_lem[of a b] by (auto simp: saturating_add_def unat_max_word)

lemma unat_saturating_sub [arith_simps]:
  "unat (saturating_sub a b) = unat a - unat b"
  by (auto simp: saturating_sub_def unat_sub word_le_nat_alt)

lemma unat_saturating_mul [arith_simps]:
  "unat (saturating_mul (a :: 'a::len word) b) = min (unat a * unat b) (2 ^ LENGTH('a) - 1)"
  using unat_mult_lem[of a b] by (auto simp: saturating_mul_def unat_max_word)

subsection \<open>Formatting\<close>

text \<open>
  The parts of Rust's formatting that reach logs and error messages: decimal integers,
  lower-case hexadecimal of a byte slice, and the quoted form a derived \<^verbatim>\<open>Debug\<close>
  prints for a string.
\<close>

fun show_nat :: "nat \<Rightarrow> string" where
  "show_nat n = (if n < 10 then [char_of (48 + n)]
                 else show_nat (n div 10) @ [char_of (48 + n mod 10)])"

declare show_nat.simps [simp del]

definition show_word :: "'a::len word \<Rightarrow> string" where
  "show_word w = show_nat (unat w)"

definition hex_digit :: "nat \<Rightarrow> char" where
  "hex_digit n = (if n < 10 then char_of (48 + n) else char_of (87 + n))"

definition hex_encode :: "bytes \<Rightarrow> string" where
  "hex_encode bs = concat (map (\<lambda>b. [hex_digit (unat b div 16), hex_digit (unat b mod 16)]) bs)"

definition hex_prefix :: "nat \<Rightarrow> hash32 \<Rightarrow> string" where
  "hex_prefix n h = hex_encode (take n (bytes32 h))"

definition debug_char :: "char \<Rightarrow> string" where
  "debug_char c =
     (if c = CHR 0x22 then [CHR 0x5C, CHR 0x22]
      else if c = CHR 0x5C then [CHR 0x5C, CHR 0x5C]
      else if c = CHR 0x0A then [CHR 0x5C, CHR ''n'']
      else if c = CHR 0x0D then [CHR 0x5C, CHR ''r'']
      else if c = CHR 0x09 then [CHR 0x5C, CHR ''t''] else [c])"

definition debug_str :: "string \<Rightarrow> string" where
  "debug_str s = [CHR 0x22] @ concat (map debug_char s) @ [CHR 0x22]"

fun join_strings :: "string \<Rightarrow> string list \<Rightarrow> string" where
  "join_strings sep [] = []"
| "join_strings sep [x] = x"
| "join_strings sep (x # y # xs) = x @ sep @ join_strings sep (y # xs)"

definition debug_key :: "pubkey \<Rightarrow> string" where
  "debug_key k = ''['' @ join_strings '', '' (map show_word (bytes32 k)) @ '']''"

definition ascii :: "string \<Rightarrow> bytes" where
  "ascii s = map of_char s"

lemma length_ascii [simp, enc_simps]: "length (ascii s) = length s"
  by (simp add: ascii_def)

subsection \<open>Options as results\<close>

text \<open>The outcome of a call that may panic.\<close>

datatype 'a outcome = Panicked | Returned 'a

definition ok_or :: "'a option \<Rightarrow> 'e \<Rightarrow> 'e + 'a" where
  "ok_or x e = (case x of Some a \<Rightarrow> Inr a | None \<Rightarrow> Inl e)"

lemma ok_or_simps [simp]:
  "ok_or (Some a) e = Inr a" "ok_or None e = Inl e"
  "ok_or x e = Inr a \<longleftrightarrow> x = Some a" "ok_or x e = Inl d \<longleftrightarrow> x = None \<and> d = e"
  by (auto simp: ok_or_def split: option.splits)

definition list_get :: "'a list \<Rightarrow> nat \<Rightarrow> 'a option" where
  "list_get xs i = (if i < length xs then Some (xs ! i) else None)"

lemma list_get_Some: "list_get xs i = Some x \<longleftrightarrow> i < length xs \<and> x = xs ! i"
  by (auto simp: list_get_def)

lemma list_get_None: "list_get xs i = None \<longleftrightarrow> length xs \<le> i"
  by (auto simp: list_get_def)

lemma list_get_in_set: "list_get xs i = Some x \<Longrightarrow> x \<in> set xs"
  by (auto simp: list_get_Some)

subsection \<open>Prefix codes\<close>

text \<open>
  The interface of an encoding whose end can be told from its start: two encoded values
  followed by anything agree only if the values and what follows agree. Everything the
  node signs or hashes is built from such pieces, so each message is proved injective by
  composing instances of this interface.
\<close>

locale prefix_code =
  fixes enc :: "'a \<Rightarrow> 'b list" and ok :: "'a \<Rightarrow> bool"
  assumes prefix_free: "ok a \<Longrightarrow> ok b \<Longrightarrow> enc a @ r = enc b @ s \<Longrightarrow> a = b \<and> r = s"
begin

lemma enc_inj: "ok a \<Longrightarrow> ok b \<Longrightarrow> enc a = enc b \<Longrightarrow> a = b"
  using prefix_free[of a b "[]" "[]"] by simp

lemma counted_list_prefix_free:
  "length xs = length ys \<Longrightarrow> list_all ok xs \<Longrightarrow> list_all ok ys \<Longrightarrow>
   concat (map enc xs) @ r = concat (map enc ys) @ s \<Longrightarrow> xs = ys \<and> r = s"
proof (induction xs ys rule: list_induct2)
  case Nil
  then show ?case by simp
next
  case (Cons x xs y ys)
  then have "x = y \<and> concat (map enc xs) @ r = concat (map enc ys) @ s"
    using prefix_free[of x y] by simp
  with Cons show ?case by simp
qed

lemma stream_inj:
  assumes nonempty: "\<And>a. ok a \<Longrightarrow> enc a \<noteq> []"
  shows "list_all ok xs \<Longrightarrow> list_all ok ys \<Longrightarrow>
    concat (map enc xs) = concat (map enc ys) \<Longrightarrow> xs = ys"
proof (induction xs arbitrary: ys)
  case Nil
  then show ?case using nonempty by (cases ys) auto
next
  case (Cons x xs)
  then obtain y ys' where ys: "ys = y # ys'"
    using nonempty by (cases ys) auto
  with Cons.prems have "x = y \<and> concat (map enc xs) = concat (map enc ys')"
    using prefix_free[of x y] by simp
  with Cons ys show ?case by simp
qed

end

text \<open>A fixed-width code is a prefix code as soon as it is injective.\<close>

locale fixed_width_code =
  fixes enc :: "'a \<Rightarrow> 'b list" and ok :: "'a \<Rightarrow> bool" and width :: nat
  assumes width: "ok a \<Longrightarrow> length (enc a) = width"
    and inj: "ok a \<Longrightarrow> ok b \<Longrightarrow> enc a = enc b \<Longrightarrow> a = b"

sublocale fixed_width_code \<subseteq> prefix_code enc ok
proof
  fix a b r s
  assume "ok a" "ok b" "enc a @ r = enc b @ s"
  then show "a = b \<and> r = s" using width inj by (metis append_eq_append_conv)
qed

interpretation u64_code: fixed_width_code "le_bytes 8 :: u64 \<Rightarrow> bytes" "\<lambda>_. True" 8
  by unfold_locales auto

interpretation u32_code: fixed_width_code "le_bytes 4 :: u32 \<Rightarrow> bytes" "\<lambda>_. True" 4
  by unfold_locales auto

interpretation hash_code: fixed_width_code bytes32 "\<lambda>_. True" 32
  by unfold_locales auto

lemmas append_splits = u64_code.prefix_free u32_code.prefix_free hash_code.prefix_free

text \<open>
  A length written as \<^verbatim>\<open>len as u32\<close> and then the elements: a prefix code on the lists
  short enough for the cast to be exact.
\<close>

definition len_u32 :: "'a list \<Rightarrow> bytes" where
  "len_u32 xs = le_u32 (of_nat (length xs))"

lemma length_len_u32 [simp, enc_simps]: "length (len_u32 xs) = 4"
  by (simp add: len_u32_def)

lemma len_u32_eq_iff:
  "length xs < 2 ^ 32 \<Longrightarrow> length ys < 2 ^ 32 \<Longrightarrow> len_u32 xs = len_u32 ys \<longleftrightarrow> length xs = length ys"
  by (auto simp: len_u32_def word_unat_eq_iff unat_of_nat)

lemma len_u32_split:
  assumes "length xs < 2 ^ 32" "length ys < 2 ^ 32" "len_u32 xs @ r = len_u32 ys @ s"
  shows "length xs = length ys \<and> r = s"
  using assms len_u32_eq_iff[OF assms(1,2)] by (metis append_eq_append_conv length_len_u32)

subsection \<open>Sums over finite maps\<close>

definition msum :: "('v \<Rightarrow> nat) \<Rightarrow> ('k \<Rightarrow> 'v option) \<Rightarrow> nat" where
  "msum f m = (\<Sum>k\<in>dom m. f (the (m k)))"

definition mval :: "('v \<Rightarrow> nat) \<Rightarrow> ('k \<Rightarrow> 'v option) \<Rightarrow> 'k \<Rightarrow> nat" where
  "mval f m k = (case m k of Some v \<Rightarrow> f v | None \<Rightarrow> 0)"

lemma mval_simps [simp]:
  "m k = Some v \<Longrightarrow> mval f m k = f v" "m k = None \<Longrightarrow> mval f m k = 0"
  by (auto simp: mval_def)

lemma msum_remove:
  assumes "finite (dom m)"
  shows "msum f m = msum f (m(k := None)) + mval f m k"
proof (cases "m k")
  case None
  then have "m(k := None) = m" by auto
  with None show ?thesis by simp
next
  case (Some v)
  then have "dom m = insert k (dom m - {k})" by auto
  then have "msum f m = f v + (\<Sum>j\<in>dom m - {k}. f (the (m j)))"
    using assms Some unfolding msum_def
    by (metis (mono_tags, lifting) finite_Diff insert_Diff_single insertCI insert_absorb
        option.sel sum.remove)
  moreover have "(\<Sum>j\<in>dom m - {k}. f (the (m j))) = msum f (m(k := None))"
    unfolding msum_def by (rule sum.cong) auto
  ultimately show ?thesis using Some by simp
qed

lemma msum_upd:
  assumes "finite (dom m)"
  shows "msum f (m(k \<mapsto> v)) + mval f m k = msum f m + f v"
proof -
  have "msum f (m(k \<mapsto> v)) = msum f (m(k := None)) + f v"
    using msum_remove[of "m(k \<mapsto> v)" f k] assms by simp
  with msum_remove[OF assms, of f k] show ?thesis by simp
qed

lemma msum_upd_new: "finite (dom m) \<Longrightarrow> m k = None \<Longrightarrow> msum f (m(k \<mapsto> v)) = msum f m + f v"
  using msum_upd[of m f k v] by simp

lemma msum_ge: "finite (dom m) \<Longrightarrow> m k = Some v \<Longrightarrow> f v \<le> msum f m"
  using msum_remove[of m f k] by simp

lemma msum_mval_cong:
  assumes "finite (dom m)" "finite (dom m')" "\<And>k. mval f m k = mval f m' k"
  shows "msum f m = msum f m'"
proof -
  have ext: "msum f n = (\<Sum>k\<in>dom m \<union> dom m'. mval f n k)" if "n = m \<or> n = m'" for n
  proof -
    have "msum f n = (\<Sum>k\<in>dom n. mval f n k)"
      unfolding msum_def by (rule sum.cong) (auto simp: mval_def)
    also have "\<dots> = (\<Sum>k\<in>dom m \<union> dom m'. mval f n k)"
      by (rule sum.mono_neutral_left) (use assms(1,2) that in \<open>auto simp: mval_def split: option.splits\<close>)
    finally show ?thesis .
  qed
  show ?thesis using ext[of m] ext[of m'] assms(3) by simp
qed

subsection \<open>Lists and words\<close>

lemma less_plus_1: "(x :: 'a::len word) + 1 \<noteq> 0 \<Longrightarrow> x < x + 1"
  using unatSuc[of x] by (simp add: word_less_nat_alt add.commute)

lemma alist_update_nonmem: "k \<notin> fst ` set al \<Longrightarrow> AList.update k v al = al @ [(k, v)]"
  by (induction al) auto

lemma sort_key_map: "sort_key f (map g xs) = map g (sort_key (\<lambda>x. f (g x)) xs)"
proof -
  have "insort_key f (g x) (map g ys) = map g (insort_key (\<lambda>x. f (g x)) x ys)" for x ys
    by (induction ys) auto
  then show ?thesis by (induction xs) simp_all
qed

end
