(* ===== verification/Crypto.thy ===== *)
theory Crypto
  imports Prelude
begin

text \<open>
  The cryptographic crates the node links (\<^verbatim>\<open>sha2\<close> and \<^verbatim>\<open>ed25519-dalek\<close>) are
  parameters of the model: one record of functions that every definition using them takes
  as its argument. What the code relies on is stated as named predicates on that record.
\<close>

record crypto =
  sha256 :: "bytes \<Rightarrow> hash32"
  vk_from_bytes :: "pubkey \<Rightarrow> bool"
  sig_from_slice :: "bytes \<Rightarrow> bool"
  verify_strict :: "pubkey \<Rightarrow> bytes \<Rightarrow> bytes \<Rightarrow> bool"
  verifying_key :: "hash32 \<Rightarrow> pubkey"
  ed_sign :: "hash32 \<Rightarrow> bytes \<Rightarrow> bytes"

text \<open>
  The check every signed object of the node performs: the claimed key decodes, the
  signature bytes decode, and \<^verbatim>\<open>verify_strict\<close> accepts the message.
\<close>

definition signature_ok :: "('z) crypto_scheme \<Rightarrow> pubkey \<Rightarrow> bytes \<Rightarrow> bytes \<Rightarrow> bool" where
  "signature_ok cx pk msg sig =
     (if \<not> vk_from_bytes cx pk then False
      else if \<not> sig_from_slice cx sig then False
      else verify_strict cx pk msg sig)"

lemma signature_ok_iff:
  "signature_ok cx pk msg sig \<longleftrightarrow>
     vk_from_bytes cx pk \<and> sig_from_slice cx sig \<and> verify_strict cx pk msg sig"
  by (simp add: signature_ok_def)

text \<open>Documented behaviour of Ed25519: a signature made with a key verifies under it.\<close>

definition ed25519_correct :: "('z) crypto_scheme \<Rightarrow> bool" where
  "ed25519_correct cx \<longleftrightarrow>
     (\<forall>k m. signature_ok cx (verifying_key cx k) m (ed_sign cx k m))"

text \<open>
  Collision resistance, stated for the finitely many inputs a property talks about: no
  two different inputs of the given set have the same digest.
\<close>

definition collision_free :: "('z) crypto_scheme \<Rightarrow> bytes set \<Rightarrow> bool" where
  "collision_free cx A \<longleftrightarrow> inj_on (sha256 cx) A"

lemma collision_freeD:
  "collision_free cx A \<Longrightarrow> x \<in> A \<Longrightarrow> y \<in> A \<Longrightarrow> sha256 cx x = sha256 cx y \<Longrightarrow> x = y"
  by (auto simp: collision_free_def dest: inj_onD)

lemma collision_free_mono: "collision_free cx B \<Longrightarrow> A \<subseteq> B \<Longrightarrow> collision_free cx A"
  by (auto simp: collision_free_def intro: inj_on_subset)

text \<open>
  A concrete instance, for witnesses: the digest is the message's little-endian value
  (injective on messages of one length up to 32 bytes), a key is its own public key and a
  signature is the key followed by the message.
\<close>

definition demo_crypto :: crypto where
  "demo_crypto = \<lparr>
     sha256 = le_val,
     vk_from_bytes = (\<lambda>_. True),
     sig_from_slice = (\<lambda>s. s \<noteq> []),
     verify_strict = (\<lambda>pk m s. s = bytes32 pk @ m),
     verifying_key = (\<lambda>k. k),
     ed_sign = (\<lambda>k m. bytes32 k @ m)\<rparr>"

lemma demo_crypto_correct: "ed25519_correct demo_crypto"
  by (auto simp: ed25519_correct_def signature_ok_def demo_crypto_def)

end
