(* ===== verification/Account.thy ===== *)
theory Account
  imports Crypto
begin

text \<open>
  Accounts (\<^verbatim>\<open>crates/accounts/src/account.rs\<close>): the record every program reads and
  writes, its constructors, its Merkle leaf hash and its size.
\<close>

definition MINIMUM_RENT_EXEMPT_BALANCE :: u64 where
  "MINIMUM_RENT_EXEMPT_BALANCE = 890880"

datatype account_data =
    System
  | Program bytes
  | Token (token_mint: pubkey) (token_authority: pubkey) (token_amount: u64)
  | Mint (mint_authority: pubkey) (mint_supply: u64)
  | Data bytes

record account =
  lamports :: u64
  owner :: pubkey
  executable :: bool
  rent_epoch :: u64
  acc_data :: account_data

definition system_program_id :: pubkey where
  "system_program_id = fill32 1"

definition token_program_id :: pubkey where
  "token_program_id = fill32 2"

lemma program_ids_differ [simp]:
  "system_program_id \<noteq> token_program_id" "token_program_id \<noteq> system_program_id"
  by (auto simp: system_program_id_def token_program_id_def)

definition new_system_account :: "pubkey \<Rightarrow> u64 \<Rightarrow> account" where
  "new_system_account pk l =
     \<lparr>lamports = l, owner = system_program_id, executable = False, rent_epoch = 0,
      acc_data = System\<rparr>"

definition new_program_account :: "pubkey \<Rightarrow> pubkey \<Rightarrow> bytes \<Rightarrow> account" where
  "new_program_account pk own code =
     \<lparr>lamports = 0, owner = own, executable = True, rent_epoch = 0, acc_data = Program code\<rparr>"

definition new_token_account :: "pubkey \<Rightarrow> pubkey \<Rightarrow> pubkey \<Rightarrow> u64 \<Rightarrow> account" where
  "new_token_account pk mint authority amount =
     \<lparr>lamports = 0, owner = token_program_id, executable = False, rent_epoch = 0,
      acc_data = Token mint authority amount\<rparr>"

definition new_mint :: "pubkey \<Rightarrow> pubkey \<Rightarrow> account" where
  "new_mint pk authority =
     \<lparr>lamports = MINIMUM_RENT_EXEMPT_BALANCE, owner = token_program_id, executable = False,
      rent_epoch = 0, acc_data = Mint authority 0\<rparr>"

subsection \<open>The Merkle leaf\<close>

definition bool_byte :: "bool \<Rightarrow> u8" where
  "bool_byte b = (if b then 1 else 0)"

lemma bool_byte_inj [simp]: "bool_byte a = bool_byte b \<longleftrightarrow> a = b"
  by (auto simp: bool_byte_def)

text \<open>The bytes fed to the hasher, in order.\<close>

fun account_data_input :: "account_data \<Rightarrow> bytes" where
  "account_data_input System = ascii ''system''"
| "account_data_input (Program code) = ascii ''program'' @ code"
| "account_data_input (Token mint authority amount) =
     ascii ''token'' @ bytes32 mint @ bytes32 authority @ le_u64 amount"
| "account_data_input (Mint authority supply) =
     ascii ''mint'' @ bytes32 authority @ le_u64 supply"
| "account_data_input (Data d) = ascii ''data'' @ d"

definition account_hash_input :: "account \<Rightarrow> bytes" where
  "account_hash_input a =
     le_u64 (lamports a) @ bytes32 (owner a) @ [bool_byte (executable a)]
     @ le_u64 (rent_epoch a) @ account_data_input (acc_data a)"

definition account_hash :: "('z) crypto_scheme \<Rightarrow> account \<Rightarrow> hash32" where
  "account_hash cx a = sha256 cx (account_hash_input a)"

fun account_data_size :: "account_data \<Rightarrow> nat" where
  "account_data_size System = 0"
| "account_data_size (Program code) = length code"
| "account_data_size (Token mint authority amount) = 32 + 32 + 8"
| "account_data_size (Mint authority supply) = 32 + 8"
| "account_data_size (Data d) = length d"

definition account_size :: "account \<Rightarrow> nat" where
  "account_size a = 8 + 32 + 1 + 8 + account_data_size (acc_data a)"

text \<open>
  A decoder for the hashed bytes. It is not part of the code: it witnesses that the
  encoding loses nothing, since the variants' tags start with five different letters.
\<close>

definition decode_data_input :: "bytes \<Rightarrow> account_data" where
  "decode_data_input bs =
     (if bs = ascii ''system'' then System
      else if take 7 bs = ascii ''program'' then Program (drop 7 bs)
      else if take 5 bs = ascii ''token'' then
        Token (of_bytes32 (take 32 (drop 5 bs))) (of_bytes32 (take 32 (drop 37 bs)))
          (le_val (take 8 (drop 69 bs)))
      else if take 4 bs = ascii ''mint'' then
        Mint (of_bytes32 (take 32 (drop 4 bs))) (le_val (take 8 (drop 36 bs)))
      else Data (drop 4 bs))"

definition decode_account_input :: "bytes \<Rightarrow> account" where
  "decode_account_input bs =
     \<lparr>lamports = le_val (take 8 bs), owner = of_bytes32 (take 32 (drop 8 bs)),
      executable = (bs ! 40 = 1), rent_epoch = le_val (take 8 (drop 41 bs)),
      acc_data = decode_data_input (drop 49 bs)\<rparr>"

lemma decode_data_input: "decode_data_input (account_data_input d) = d"
  by (cases d) (auto simp: decode_data_input_def ascii_def take_Cons' drop_Cons')

lemma decode_account_input: "decode_account_input (account_hash_input a) = a"
  by (cases a) (simp add: decode_account_input_def account_hash_input_def decode_data_input
      nth_append bool_byte_def)

lemma account_hash_input_inj: "account_hash_input a = account_hash_input b \<Longrightarrow> a = b"
  by (metis decode_account_input)

end
