(* ===== verification/Merkle.thy ===== *)
theory Merkle
  imports Crypto
begin

text \<open>
  The Merkle tree behind the state root (\<^verbatim>\<open>crates/accounts/src/merkle.rs\<close>): the
  bottom-up root computation, proof generation and proof verification.
\<close>

definition merkle_node :: "('z) crypto_scheme \<Rightarrow> hash32 \<Rightarrow> hash32 \<Rightarrow> hash32" where
  "merkle_node cx l r = sha256 cx (bytes32 l @ bytes32 r)"

text \<open>One level: pairs are hashed, an odd last element is promoted.\<close>

fun merkle_level :: "('z) crypto_scheme \<Rightarrow> hash32 list \<Rightarrow> hash32 list" where
  "merkle_level cx [] = []"
| "merkle_level cx [x] = [x]"
| "merkle_level cx (a # b # xs) = merkle_node cx a b # merkle_level cx xs"

lemma length_merkle_level [simp]: "length (merkle_level cx xs) = (length xs + 1) div 2"
  by (induction cx xs rule: merkle_level.induct) auto

function merkle_loop :: "('z) crypto_scheme \<Rightarrow> hash32 list \<Rightarrow> hash32 list" where
  "merkle_loop cx level = (if 1 < length level then merkle_loop cx (merkle_level cx level) else level)"
  by pat_completeness auto
termination
  by (relation "measure (\<lambda>(cx, level). length level)") auto

declare merkle_loop.simps [simp del]

definition state_root_compute :: "('z) crypto_scheme \<Rightarrow> hash32 list \<Rightarrow> hash32" where
  "state_root_compute cx hashes =
     (if hashes = [] then fill32 0
      else if length hashes = 1 then hashes ! 0
      else merkle_loop cx hashes ! 0)"

subsection \<open>Proofs\<close>

record merkle_proof =
  leaf :: hash32
  siblings :: "(hash32 \<times> bool) list"
  leaf_index :: nat

text \<open>
  The inner loop of \<^verbatim>\<open>prove\<close> over the enumerated pairs of a level: the next level and
  the sibling of the pair that holds the target.
\<close>

fun prove_level :: "('z) crypto_scheme \<Rightarrow> nat \<Rightarrow> nat \<Rightarrow> hash32 list \<Rightarrow>
    hash32 list \<times> (hash32 \<times> bool) list" where
  "prove_level cx i current_index [] = ([], [])"
| "prove_level cx i current_index [x] = ([x], [])"
| "prove_level cx i current_index (a # b # xs) =
     (let chunk = [a, b];
          sibling_idx = (if even current_index then 1 else 0);
          found = (if i = current_index div 2 \<and> sibling_idx < length chunk
                   then [(chunk ! sibling_idx, \<not> even current_index)] else []);
          (next_level, more) = prove_level cx (Suc i) current_index xs
      in (merkle_node cx a b # next_level, found @ more))"

lemma fst_prove_level [simp]: "fst (prove_level cx i j xs) = merkle_level cx xs"
  by (induction cx i j xs rule: prove_level.induct) (auto simp: Let_def split: prod.splits)

function prove_loop :: "('z) crypto_scheme \<Rightarrow> nat \<Rightarrow> hash32 list \<Rightarrow> (hash32 \<times> bool) list \<Rightarrow>
    (hash32 \<times> bool) list" where
  "prove_loop cx current_index level sibs =
     (if 1 < length level then
        prove_loop cx (current_index div 2) (fst (prove_level cx 0 current_index level))
          (sibs @ snd (prove_level cx 0 current_index level))
      else sibs)"
  by pat_completeness auto
termination
  by (relation "measure (\<lambda>(cx, i, level, sibs). length level)") auto

declare prove_loop.simps [simp del]

definition prove :: "('z) crypto_scheme \<Rightarrow> hash32 list \<Rightarrow> nat \<Rightarrow> merkle_proof" where
  "prove cx hashes index =
     (if hashes = [] \<or> length hashes \<le> index
      then \<lparr>leaf = fill32 0, siblings = [], leaf_index = index\<rparr>
      else \<lparr>leaf = hashes ! index, siblings = prove_loop cx index hashes [], leaf_index = index\<rparr>)"

definition verify_step :: "('z) crypto_scheme \<Rightarrow> hash32 \<Rightarrow> hash32 \<times> bool \<Rightarrow> hash32" where
  "verify_step cx current s =
     (case s of (sibling, is_left) \<Rightarrow>
        if is_left then merkle_node cx sibling current else merkle_node cx current sibling)"

definition verify_proof :: "('z) crypto_scheme \<Rightarrow> merkle_proof \<Rightarrow> hash32 \<Rightarrow> bool" where
  "verify_proof cx p root \<longleftrightarrow> foldl (verify_step cx) (leaf p) (siblings p) = root"

subsection \<open>Every generated proof verifies\<close>

lemma prove_level_past: "j div 2 < i \<Longrightarrow> snd (prove_level cx i j xs) = []"
  by (induction cx i j xs rule: prove_level.induct) (auto simp: Let_def split: prod.splits)

lemma prove_level_step:
  "i \<le> j div 2 \<Longrightarrow> j - 2 * i < length xs \<Longrightarrow>
   foldl (verify_step cx) (xs ! (j - 2 * i)) (snd (prove_level cx i j xs))
     = merkle_level cx xs ! (j div 2 - i)"
proof (induction cx i j xs rule: prove_level.induct)
  case (1 cx i j)
  then show ?case by simp
next
  case (2 cx i j x)
  then have "j - 2 * i = 0" "j div 2 - i = 0" by auto
  then show ?case by simp
next
  case (3 cx i j a b xs)
  show ?case
  proof (cases "i = j div 2")
    case True
    then have past: "snd (prove_level cx (Suc i) j xs) = []"
      by (simp add: prove_level_past)
    show ?thesis
    proof (cases "even j")
      case True
      with \<open>i = j div 2\<close> have "j - 2 * i = 0" by auto
      with True \<open>i = j div 2\<close> past show ?thesis
        by (auto simp: Let_def verify_step_def split: prod.splits)
    next
      case False
      with \<open>i = j div 2\<close> have "j - 2 * i = 1" by presburger
      with False \<open>i = j div 2\<close> past show ?thesis
        by (auto simp: Let_def verify_step_def split: prod.splits)
    qed
  next
    case False
    with "3.prems" have le: "Suc i \<le> j div 2" by simp
    with "3.prems" have lt: "j - 2 * Suc i < length xs" and at: "j - 2 * i = Suc (Suc (j - 2 * Suc i))"
      by auto
    have at': "j div 2 - i = Suc (j div 2 - Suc i)" using le by simp
    have ih: "foldl (verify_step cx) (xs ! (j - 2 * Suc i)) (snd (prove_level cx (Suc i) j xs))
        = merkle_level cx xs ! (j div 2 - Suc i)"
      by (rule "3.IH"[OF refl refl refl le lt])
    show ?thesis
      using False ih unfolding at at' by (auto simp: Let_def split: prod.splits)
  qed
qed

lemma prove_loop_acc: "prove_loop cx i level acc = acc @ prove_loop cx i level []"
proof (induction "length level" arbitrary: i level acc rule: less_induct)
  case less
  let ?found = "snd (prove_level cx 0 i level)" and ?next = "fst (prove_level cx 0 i level)"
  show ?case
  proof (cases "1 < length level")
    case True
    then have "length ?next < length level" by simp
    note less[OF this, of "i div 2" "acc @ ?found"] less[OF this, of "i div 2" ?found]
    with True show ?thesis
      by (simp add: prove_loop.simps[of cx i level acc] prove_loop.simps[of cx i level "[]"])
  next
    case False
    then show ?thesis
      by (simp add: prove_loop.simps[of cx i level acc] prove_loop.simps[of cx i level "[]"])
  qed
qed

lemma prove_loop_reaches_root:
  "i < length level \<Longrightarrow>
   foldl (verify_step cx) (level ! i) (prove_loop cx i level []) = merkle_loop cx level ! 0"
proof (induction "length level" arbitrary: i level rule: less_induct)
  case less
  show ?case
  proof (cases "1 < length level")
    case True
    let ?found = "snd (prove_level cx 0 i level)"
    have one: "foldl (verify_step cx) (level ! i) ?found = merkle_level cx level ! (i div 2)"
      using prove_level_step[of 0 i level cx] less.prems by simp
    have "length (merkle_level cx level) < length level" "i div 2 < length (merkle_level cx level)"
      using True less.prems by auto
    from less.hyps[OF this] one show ?thesis
      using True
      by (simp add: prove_loop.simps[of cx i level "[]"] prove_loop_acc[of cx "i div 2" _ ?found]
          merkle_loop.simps[of cx level])
  next
    case False
    with less.prems have "i = 0" by simp
    with False show ?thesis
      by (simp add: prove_loop.simps[of cx 0 level] merkle_loop.simps[of cx level])
  qed
qed

lemma state_root_compute_loop:
  "hashes \<noteq> [] \<Longrightarrow> state_root_compute cx hashes = merkle_loop cx hashes ! 0"
  by (auto simp: state_root_compute_def merkle_loop.simps)

text \<open>
  C19 Completeness of Merkle proofs: for every leaf position of every list of hashes, the
  proof generated for it carries that leaf and is accepted against the root computed from
  the same list, whatever the hash function and however many odd levels are promoted.
\<close>

theorem merkle_proof_complete:
  assumes "i < length hashes"
  shows "leaf (prove cx hashes i) = hashes ! i \<and>
    verify_proof cx (prove cx hashes i) (state_root_compute cx hashes)"
  using assms prove_loop_reaches_root[of i hashes cx]
  by (auto simp: verify_proof_def prove_def state_root_compute_loop)

theorem merkle_proof_complete_witness:
  "(2::nat) < length [5, 6, 7 :: hash32] \<and>
   verify_proof demo_crypto (prove demo_crypto [5, 6, 7] 2) (state_root_compute demo_crypto [5, 6, 7])"
  using merkle_proof_complete[of 2 "[5, 6, 7]" demo_crypto] by simp

subsection \<open>Proofs bind their leaf\<close>

text \<open>The inputs hashed while a proof is checked.\<close>

fun path_inputs :: "('z) crypto_scheme \<Rightarrow> hash32 \<Rightarrow> (hash32 \<times> bool) list \<Rightarrow> bytes set" where
  "path_inputs cx current [] = {}"
| "path_inputs cx current (s # ss) =
     insert (if snd s then bytes32 (fst s) @ bytes32 current else bytes32 current @ bytes32 (fst s))
       (path_inputs cx (verify_step cx current s) ss)"

lemma path_inputs_snoc:
  "path_inputs cx c (ss @ [s]) =
     insert (let d = foldl (verify_step cx) c ss in
       if snd s then bytes32 (fst s) @ bytes32 d else bytes32 d @ bytes32 (fst s))
       (path_inputs cx c ss)"
  by (induction ss arbitrary: c) (auto simp: Let_def)

lemma verify_step_eq:
  assumes "snd s = snd t" "verify_step cx c s = verify_step cx d t"
    and "collision_free cx A"
    and "(if snd s then bytes32 (fst s) @ bytes32 c else bytes32 c @ bytes32 (fst s)) \<in> A"
    and "(if snd t then bytes32 (fst t) @ bytes32 d else bytes32 d @ bytes32 (fst t)) \<in> A"
  shows "c = d \<and> s = t"
  using assms collision_freeD[OF assms(3) assms(4,5)]
  by (cases s; cases t) (auto simp: verify_step_def merkle_node_def split: if_splits)

lemma path_binds:
  "map snd ss = map snd ts \<Longrightarrow> collision_free cx (path_inputs cx c ss \<union> path_inputs cx d ts) \<Longrightarrow>
   foldl (verify_step cx) c ss = foldl (verify_step cx) d ts \<Longrightarrow> c = d \<and> ss = ts"
proof (induction ss arbitrary: ts rule: rev_induct)
  case Nil
  then show ?case by simp
next
  case (snoc s ss)
  then obtain ts' t where ts: "ts = ts' @ [t]" by (cases ts rule: rev_cases) auto
  let ?c = "foldl (verify_step cx) c ss" and ?d = "foldl (verify_step cx) d ts'"
  have same: "?c = ?d \<and> s = t"
    using snoc.prems unfolding ts
    by (intro verify_step_eq[where A = "path_inputs cx c (ss @ [s]) \<union> path_inputs cx d (ts' @ [t])"])
      (auto simp: path_inputs_snoc Let_def)
  have "collision_free cx (path_inputs cx c ss \<union> path_inputs cx d ts')"
    using snoc.prems(2) unfolding ts
    by (rule collision_free_mono) (auto simp: path_inputs_snoc)
  with snoc same show ?case by (simp add: ts)
qed

text \<open>
  C5 Soundness of Merkle proofs: a proof accepted against the root of a list, with the
  same left/right directions as the proof for position \<open>i\<close>, can only carry the
  leaf at position \<open>i\<close>, unless two of the inputs hashed while checking the two proofs collide.
\<close>

theorem merkle_proof_binding:
  assumes "i < length hashes"
    and "verify_proof cx p (state_root_compute cx hashes)"
    and "map snd (siblings p) = map snd (siblings (prove cx hashes i))"
    and "collision_free cx (path_inputs cx (leaf p) (siblings p)
           \<union> path_inputs cx (hashes ! i) (siblings (prove cx hashes i)))"
  shows "leaf p = hashes ! i \<and> siblings p = siblings (prove cx hashes i)"
proof (rule path_binds[OF assms(3,4)])
  show "foldl (verify_step cx) (leaf p) (siblings p) =
      foldl (verify_step cx) (hashes ! i) (siblings (prove cx hashes i))"
    using assms(1,2) prove_loop_reaches_root[OF assms(1), of cx]
    by (auto simp: verify_proof_def prove_def state_root_compute_loop)
qed

theorem merkle_proof_binding_witness:
  "leaf (prove demo_crypto [5, 6] 0) = [5, 6 :: hash32] ! 0"
proof -
  let ?p = "prove demo_crypto [5, 6] 0"
  have sibs: "siblings ?p = [(6, False)]" and lf: "leaf ?p = 5"
    by (simp_all add: prove_def prove_loop.simps)
  have "verify_proof demo_crypto ?p (state_root_compute demo_crypto [5, 6])"
    by (simp add: verify_proof_def sibs lf verify_step_def state_root_compute_def merkle_loop.simps)
  then show ?thesis
    using merkle_proof_binding[of 0 "[5, 6]" demo_crypto ?p] by (simp add: sibs lf collision_free_def)
qed

end
