(* ===== verification/KV_Store.thy ===== *)
theory KV_Store
  imports Prelude
begin

text \<open>
  The interface the transaction layers use of the accounts database: a finite map with
  insertion and removal. The lemmas proved here for every such store are the ones the
  executor's rollback, the batch writes and the supply arguments rest on.
\<close>

subsection \<open>Local actions\<close>

text \<open>
  An action on a store is local to a read set and a write set if it changes nothing outside
  the write set and if its result and its writes depend on nothing outside both. Local
  actions whose sets do not interfere can be run in any order.
\<close>

definition kv_local ::
    "('s \<Rightarrow> 'k \<Rightarrow> 'v option) \<Rightarrow> ('s \<Rightarrow> bool) \<Rightarrow> 'k set \<Rightarrow> 'k set \<Rightarrow> ('s \<Rightarrow> 'r \<times> 's) \<Rightarrow> bool" where
  "kv_local lookup invar R W act \<longleftrightarrow>
     (\<forall>s. invar s \<longrightarrow> invar (snd (act s)) \<and> (\<forall>k. k \<notin> W \<longrightarrow> lookup (snd (act s)) k = lookup s k)) \<and>
     (\<forall>s t. invar s \<longrightarrow> invar t \<longrightarrow> (\<forall>k\<in>R \<union> W. lookup s k = lookup t k) \<longrightarrow>
        fst (act s) = fst (act t) \<and> (\<forall>k\<in>W. lookup (snd (act s)) k = lookup (snd (act t)) k))"

definition non_interfering :: "'k set \<Rightarrow> 'k set \<Rightarrow> 'k set \<Rightarrow> 'k set \<Rightarrow> bool" where
  "non_interfering R W R' W' \<longleftrightarrow> W \<inter> (R' \<union> W') = {} \<and> W' \<inter> (R \<union> W) = {}"

fun run_all :: "('a \<Rightarrow> 's \<Rightarrow> 'r \<times> 's) \<Rightarrow> 'a list \<Rightarrow> 's \<Rightarrow> 'r list \<times> 's" where
  "run_all act [] s = ([], s)"
| "run_all act (x # xs) s = (case act x s of (r, s) \<Rightarrow> (case run_all act xs s of (rs, s) \<Rightarrow> (r # rs, s)))"

lemma kv_local_invar: "kv_local lookup invar R W act \<Longrightarrow> invar s \<Longrightarrow> invar (snd (act s))"
  by (simp add: kv_local_def)

lemma kv_local_frame: "kv_local lookup invar R W act \<Longrightarrow> invar s \<Longrightarrow> k \<notin> W \<Longrightarrow> lookup (snd (act s)) k = lookup s k"
  by (simp add: kv_local_def)

lemma kv_local_agree:
  "kv_local lookup invar R W act \<Longrightarrow> invar s \<Longrightarrow> invar t \<Longrightarrow> (\<And>k. k \<in> R \<union> W \<Longrightarrow> lookup s k = lookup t k) \<Longrightarrow>
   fst (act s) = fst (act t) \<and> (\<forall>k\<in>W. lookup (snd (act s)) k = lookup (snd (act t)) k)"
  unfolding kv_local_def by blast

lemma run_all_Cons: "fst (run_all act (x # xs) s) = fst (act x s) # fst (run_all act xs (snd (act x s)))"
  "snd (run_all act (x # xs) s) = snd (run_all act xs (snd (act x s)))"
  by (simp_all split: prod.split)

text \<open>
  Running pairwise non-interfering actions one after the other is the same as running each
  of them on the initial state and taking over its writes.
\<close>

lemma run_all_closed:
  assumes "\<forall>x\<in>set xs. kv_local lookup invar (R x) (W x) (act x)"
    and "sorted_wrt (\<lambda>x y. non_interfering (R x) (W x) (R y) (W y)) xs" "invar s"
  shows "fst (run_all act xs s) = map (\<lambda>x. fst (act x s)) xs \<and>
    (\<forall>x\<in>set xs. \<forall>k\<in>W x. lookup (snd (run_all act xs s)) k = lookup (snd (act x s)) k) \<and>
    (\<forall>k. (\<forall>x\<in>set xs. k \<notin> W x) \<longrightarrow> lookup (snd (run_all act xs s)) k = lookup s k)"
  using assms
proof (induction xs arbitrary: s)
  case (Cons x xs)
  let ?s = "snd (act x s)"
  have inv: "invar ?s" using Cons.prems by (auto intro: kv_local_invar)
  have frame: "k \<notin> W x \<Longrightarrow> lookup ?s k = lookup s k" for k
    using kv_local_frame[of lookup invar "R x" "W x" "act x" s k] Cons.prems by simp
  have other: "fst (act y ?s) = fst (act y s) \<and> (\<forall>k\<in>W y. lookup (snd (act y ?s)) k = lookup (snd (act y s)) k) \<and> W x \<inter> W y = {}"
    if "y \<in> set xs" for y
  proof -
    have ni: "non_interfering (R x) (W x) (R y) (W y)" using Cons.prems(2) that by simp
    then have "lookup ?s k = lookup s k" if "k \<in> R y \<union> W y" for k
      using frame that by (auto simp: non_interfering_def)
    then show ?thesis
      using kv_local_agree[of lookup invar "R y" "W y" "act y" ?s s] Cons.prems inv that ni
      by (auto simp: non_interfering_def)
  qed
  have IH: "fst (run_all act xs ?s) = map (\<lambda>y. fst (act y ?s)) xs"
    "\<And>y k. y \<in> set xs \<Longrightarrow> k \<in> W y \<Longrightarrow> lookup (snd (run_all act xs ?s)) k = lookup (snd (act y ?s)) k"
    "\<And>k. \<forall>y\<in>set xs. k \<notin> W y \<Longrightarrow> lookup (snd (run_all act xs ?s)) k = lookup ?s k"
    using Cons.IH[of ?s] Cons.prems inv by simp_all
  have "lookup (snd (run_all act xs ?s)) k = lookup ?s k" if "k \<in> W x" for k
    using IH(3) other that by blast
  with IH other frame show ?case
    unfolding run_all_Cons by (auto simp: IH(1))
qed simp

subsection \<open>The store interface\<close>

locale kv_store =
  fixes lookup :: "'s \<Rightarrow> 'k \<Rightarrow> 'v option"
    and put :: "'k \<Rightarrow> 'v \<Rightarrow> 's \<Rightarrow> 's"
    and del :: "'k \<Rightarrow> 's \<Rightarrow> 's"
    and invar :: "'s \<Rightarrow> bool"
  assumes lookup_put: "invar s \<Longrightarrow> lookup (put k v s) = (lookup s)(k \<mapsto> v)"
    and lookup_del: "invar s \<Longrightarrow> lookup (del k s) = (lookup s)(k := None)"
    and invar_put: "invar s \<Longrightarrow> invar (put k v s)"
    and invar_del: "invar s \<Longrightarrow> invar (del k s)"
    and finite_dom: "invar s \<Longrightarrow> finite (dom (lookup s))"
begin

lemma invar_put_all: "invar s \<Longrightarrow> invar (foldl (\<lambda>s (k, v). put k v s) s kvs)"
  by (induction kvs arbitrary: s) (auto simp: invar_put)

lemma lookup_put_all:
  "invar s \<Longrightarrow> lookup (foldl (\<lambda>s (k, v). put k v s) s kvs) = lookup s ++ map_of (rev kvs)"
  by (induction kvs arbitrary: s) (auto simp: invar_put lookup_put)

lemma restore_invar:
  "invar t \<Longrightarrow> invar (foldl (\<lambda>s (k, p). case p of Some v \<Rightarrow> put k v s | None \<Rightarrow> del k s) t snap)"
  by (induction snap arbitrary: t) (auto simp: invar_put invar_del split: option.splits)

lemma restore_lookup:
  "invar t \<Longrightarrow>
   lookup (foldl (\<lambda>s (k, p). case p of Some v \<Rightarrow> put k v s | None \<Rightarrow> del k s) t snap) k =
     (case map_of (rev snap) k of Some p \<Rightarrow> p | None \<Rightarrow> lookup t k)"
proof (induction snap arbitrary: t)
  case Nil
  then show ?case by simp
next
  case (Cons e snap)
  obtain q p where e: "e = (q, p)" by (cases e)
  let ?t = "case p of Some v \<Rightarrow> put q v t | None \<Rightarrow> del q t"
  have "invar ?t" using Cons.prems by (simp add: invar_put invar_del split: option.splits)
  from Cons.IH[OF this] show ?case
    using Cons.prems e
    by (auto simp: lookup_put lookup_del map_add_def split: option.splits)
qed

lemma restore_snapshot:
  assumes "invar t" and frame: "\<And>k. k \<notin> set ks \<Longrightarrow> lookup t k = lookup s k"
  shows "lookup (foldl (\<lambda>s (k, p). case p of Some v \<Rightarrow> put k v s | None \<Rightarrow> del k s) t
      (map (\<lambda>k. (k, lookup s k)) ks)) = lookup s"
proof
  fix k
  have "map_of (rev (map (\<lambda>k. (k, lookup s k)) ks)) k = (if k \<in> set ks then Some (lookup s k) else None)"
    by (simp add: rev_map map_of_map_restrict restrict_map_def flip: comp_def)
  then show "lookup (foldl (\<lambda>s (k, p). case p of Some v \<Rightarrow> put k v s | None \<Rightarrow> del k s) t
      (map (\<lambda>k. (k, lookup s k)) ks)) k = lookup s k"
    using restore_lookup[OF assms(1)] frame by auto
qed
lemma sum_put: "invar s \<Longrightarrow> msum f (lookup (put k v s)) + mval f (lookup s) k = msum f (lookup s) + f v"
  by (simp add: lookup_put msum_upd finite_dom)

lemma sum_put_two:
  assumes "invar s" "j \<noteq> k" "f v + f w = mval f (lookup s) j + mval f (lookup s) k"
  shows "msum f (lookup (put k w (put j v s))) = msum f (lookup s)"
proof -
  have "mval f (lookup (put j v s)) k = mval f (lookup s) k"
    using assms by (simp add: lookup_put mval_def)
  then show ?thesis
    using sum_put[OF assms(1), of f j v] sum_put[OF invar_put[OF assms(1)], of f k w j v] assms(3)
    by simp
qed

end

end
