(* ===== verification/AccountsDB.thy ===== *)
theory AccountsDB
  imports Account Merkle KV_Store
begin

text \<open>
  The accounts database (\<^verbatim>\<open>crates/accounts/src/store.rs\<close>): an append-only byte buffer,
  an index from public keys to slices of it, counters, and an optional on-disk log that is
  replayed on start. \<^verbatim>\<open>serde_json\<close> and the file system are parameters of the model.
  Buffer positions are naturals: a \<^verbatim>\<open>Vec<u8>\<close> never exceeds \<^verbatim>\<open>isize::MAX\<close> bytes, so the
  code's \<^verbatim>\<open>as u64\<close> and \<^verbatim>\<open>as usize\<close> casts and its \<^verbatim>\<open>checked_add\<close>s on cursors are exact.
\<close>

record db_ext = crypto +
  account_to_json :: "account \<Rightarrow> bytes option"
  account_from_json :: "bytes \<Rightarrow> account option"
  file_append :: "bytes \<Rightarrow> bytes \<Rightarrow> bytes"

text \<open>
  What the code relies on: every account serialises and deserialises to itself, and
  \<^verbatim>\<open>write_all\<close> on a file opened for appending adds the record at its end.
\<close>

definition json_ok :: "('z) db_ext_scheme \<Rightarrow> bool" where
  "json_ok cx \<longleftrightarrow> (\<forall>a. \<exists>bs. account_to_json cx a = Some bs \<and> account_from_json cx bs = Some a)"

definition file_ok :: "('z) db_ext_scheme \<Rightarrow> bool" where
  "file_ok cx \<longleftrightarrow> (\<forall>f r. file_append cx f r = f @ r)"

definition json_fits :: "('z) db_ext_scheme \<Rightarrow> account \<Rightarrow> bool" where
  "json_fits cx a \<longleftrightarrow> (\<forall>bs. account_to_json cx a = Some bs \<longrightarrow> length bs < 2 ^ 32)"

lemma json_ok_decode: "json_ok cx \<Longrightarrow> account_to_json cx a = Some bs \<Longrightarrow> account_from_json cx bs = Some a"
  by (metis json_ok_def option.inject)

subsection \<open>State and operations\<close>

record account_location =
  offset :: nat
  location_length :: nat
  location_version :: u64

text \<open>
  The \<^verbatim>\<open>DashMap\<close> index is an association list with distinct keys; its order stands for the
  map's iteration order, which nothing observable may depend on. \<^verbatim>\<open>persist\<close> holds the
  bytes of the log file when persistence is on.
\<close>

record accounts_db =
  storage :: bytes
  index :: "(pubkey \<times> account_location) list"
  write_version :: u64
  account_count :: u64
  total_bytes :: u64
  persist :: "bytes option"

definition RECORD_PUT :: u8 where "RECORD_PUT = 1"

definition RECORD_DELETE :: u8 where "RECORD_DELETE = 2"

definition serialize_account :: "('z) db_ext_scheme \<Rightarrow> account \<Rightarrow> bytes" where
  "serialize_account cx a = (case account_to_json cx a of Some bs \<Rightarrow> bs | None \<Rightarrow> [])"

definition encode_put :: "('z) db_ext_scheme \<Rightarrow> pubkey \<Rightarrow> account \<Rightarrow> bytes" where
  "encode_put cx pk a =
     (let json = serialize_account cx a in [RECORD_PUT] @ bytes32 pk @ len_u32 json @ json)"

definition encode_delete :: "pubkey \<Rightarrow> bytes" where
  "encode_delete pk = [RECORD_DELETE] @ bytes32 pk"

definition db_new :: accounts_db where
  "db_new = \<lparr>storage = [], index = [], write_version = 0, account_count = 0, total_bytes = 0,
             persist = None\<rparr>"

definition db_exists :: "accounts_db \<Rightarrow> pubkey \<Rightarrow> bool" where
  "db_exists db pk \<longleftrightarrow> map_of (index db) pk \<noteq> None"

definition store :: "('z) db_ext_scheme \<Rightarrow> pubkey \<Rightarrow> account \<Rightarrow> accounts_db \<Rightarrow> accounts_db" where
  "store cx pk a db =
     (let serialized = serialize_account cx a;
          version = write_version db + 1;
          location = \<lparr>offset = length (storage db), location_length = length serialized,
                      location_version = version\<rparr>;
          is_new = (\<not> db_exists db pk)
      in db\<lparr>storage := storage db @ serialized,
            index := AList.update pk location (index db),
            write_version := version,
            account_count := (if is_new then account_count db + 1 else account_count db),
            total_bytes := total_bytes db + of_nat (length serialized),
            persist := map_option (\<lambda>f. file_append cx f (encode_put cx pk a)) (persist db)\<rparr>)"

definition load :: "('z) db_ext_scheme \<Rightarrow> accounts_db \<Rightarrow> pubkey \<Rightarrow> account option" where
  "load cx db pk =
     (case map_of (index db) pk of
        None \<Rightarrow> None
      | Some location \<Rightarrow>
          (let start = offset location; stop = start + location_length location
           in if length (storage db) < stop then None
              else account_from_json cx (take (stop - start) (drop start (storage db)))))"

definition db_remove :: "('z) db_ext_scheme \<Rightarrow> pubkey \<Rightarrow> accounts_db \<Rightarrow> bool \<times> accounts_db" where
  "db_remove cx pk db =
     (if map_of (index db) pk = None then (False, db)
      else (True,
        db\<lparr>index := AList.delete pk (index db),
           account_count := (if 0 < account_count db then account_count db - 1 else account_count db),
           persist := map_option (\<lambda>f. file_append cx f (encode_delete pk)) (persist db)\<rparr>))"

abbreviation discard :: "('z) db_ext_scheme \<Rightarrow> pubkey \<Rightarrow> accounts_db \<Rightarrow> accounts_db" where
  "discard cx pk db \<equiv> snd (db_remove cx pk db)"

definition pubkeys :: "accounts_db \<Rightarrow> pubkey list" where
  "pubkeys db = map fst (index db)"

definition total_lamports :: "('z) db_ext_scheme \<Rightarrow> accounts_db \<Rightarrow> u64" where
  "total_lamports cx db =
     sum_list (List.map_filter (\<lambda>e. map_option lamports (load cx db (fst e))) (index db))"

definition compute_state_root :: "('z) db_ext_scheme \<Rightarrow> accounts_db \<Rightarrow> hash32" where
  "compute_state_root cx db =
     (let hashes = List.map_filter (\<lambda>e. map_option (account_hash cx) (load cx db (fst e))) (index db)
      in state_root_compute cx (sort hashes))"

definition apply_batch ::
    "('z) db_ext_scheme \<Rightarrow> (pubkey \<times> account) list \<Rightarrow> accounts_db \<Rightarrow> accounts_db" where
  "apply_batch cx updates db = foldl (\<lambda>d (pk, a). store cx pk a d) db updates"

text \<open>Compaction: a fresh file with one record per live account replaces the log.\<close>

definition db_snapshot :: "('z) db_ext_scheme \<Rightarrow> accounts_db \<Rightarrow> accounts_db" where
  "db_snapshot cx db =
     (case persist db of
        None \<Rightarrow> db
      | Some _ \<Rightarrow>
          db\<lparr>persist := Some (foldl (\<lambda>f e. case load cx db (fst e) of
                Some a \<Rightarrow> file_append cx f (encode_put cx (fst e) a)
              | None \<Rightarrow> f) [] (index db))\<rparr>)"

text \<open>
  Replaying a log. The cursor of the code is the part of the data still to be read; a
  short or unknown record stops the replay.
\<close>

function replay :: "('z) db_ext_scheme \<Rightarrow> bytes \<Rightarrow> accounts_db \<Rightarrow> accounts_db" where
  "replay cx data db =
     (case data of
        [] \<Rightarrow> db
      | tag # rest \<Rightarrow>
          if tag = RECORD_PUT then
            if length rest < 32 + 4 then db
            else
              (let pk = of_bytes32 (take 32 rest);
                   len = unat (le_val (take 4 (drop 32 rest)) :: u32);
                   body = drop 36 rest
               in if length body < len then db
                  else replay cx (drop len body)
                    (case account_from_json cx (take len body) of
                       Some a \<Rightarrow> store cx pk a db
                     | None \<Rightarrow> db))
          else if tag = RECORD_DELETE then
            if length rest < 32 then db
            else replay cx (drop 32 rest) (discard cx (of_bytes32 (take 32 rest)) db)
          else db)"
  by pat_completeness auto
termination
  by (relation "measure (\<lambda>(cx, data, db). length data)") auto

declare replay.simps [simp del]

text \<open>Opening a directory whose log file holds the given bytes (\<^verbatim>\<open>None\<close>: no file yet).\<close>

definition db_open :: "('z) db_ext_scheme \<Rightarrow> bytes option \<Rightarrow> accounts_db" where
  "db_open cx log_file =
     (case log_file of
        None \<Rightarrow> db_new\<lparr>persist := Some []\<rparr>
      | Some data \<Rightarrow> (replay cx data db_new)\<lparr>persist := Some data\<rparr>)"

record db_stats =
  stats_account_count :: u64
  stats_total_bytes :: u64
  stats_index_slots :: nat
  stats_write_version :: u64

definition stats :: "accounts_db \<Rightarrow> db_stats" where
  "stats db =
     \<lparr>stats_account_count = account_count db, stats_total_bytes = total_bytes db,
      stats_index_slots = length (index db), stats_write_version = write_version db\<rparr>"

subsection \<open>Invariant\<close>

definition db_slice :: "accounts_db \<Rightarrow> account_location \<Rightarrow> bytes" where
  "db_slice db loc = take (location_length loc) (drop (offset loc) (storage db))"

text \<open>
  Keys are distinct and every index entry points inside the buffer at the serialisation of
  some account.
\<close>

definition db_inv :: "('z) db_ext_scheme \<Rightarrow> accounts_db \<Rightarrow> bool" where
  "db_inv cx db \<longleftrightarrow>
     json_ok cx \<and> distinct (map fst (index db)) \<and>
     (\<forall>(pk, loc) \<in> set (index db).
        offset loc + location_length loc \<le> length (storage db) \<and>
        (\<exists>a. account_to_json cx a = Some (db_slice db loc)))"

text \<open>The account counter counts the keys, modulo its width.\<close>

definition db_counted :: "accounts_db \<Rightarrow> bool" where
  "db_counted db \<longleftrightarrow> account_count db = of_nat (length (index db))"

lemma db_inv_new: "json_ok cx \<Longrightarrow> db_inv cx db_new"
  by (simp add: db_inv_def db_new_def)

lemma load_new [simp]: "load cx db_new = Map.empty"
  by (auto simp: load_def db_new_def)

lemma load_slice:
  assumes "db_inv cx db" "map_of (index db) pk = Some loc"
  shows "load cx db pk = account_from_json cx (db_slice db loc)"
proof -
  have "(pk, loc) \<in> set (index db)" using assms(2) by (rule map_of_SomeD)
  then have "offset loc + location_length loc \<le> length (storage db)"
    using assms(1) by (auto simp: db_inv_def)
  then show ?thesis using assms(2) by (simp add: load_def db_slice_def Let_def)
qed

lemma dom_load: "db_inv cx db \<Longrightarrow> dom (load cx db) = set (map fst (index db))"
proof -
  assume inv: "db_inv cx db"
  have "load cx db pk \<noteq> None" if "map_of (index db) pk = Some loc" for pk loc
  proof -
    have "(pk, loc) \<in> set (index db)" using that by (rule map_of_SomeD)
    then obtain a where "account_to_json cx a = Some (db_slice db loc)"
      using inv by (auto simp: db_inv_def)
    then show ?thesis
      using load_slice[OF inv that] inv by (auto simp: db_inv_def dest: json_ok_decode)
  qed
  moreover have "load cx db pk = None" if "map_of (index db) pk = None" for pk
    using that by (simp add: load_def)
  ultimately have "load cx db pk = None \<longleftrightarrow> map_of (index db) pk = None" for pk
    by (cases "map_of (index db) pk") simp_all
  then have "dom (load cx db) = dom (map_of (index db))" by (simp only: dom_def)
  then show ?thesis by (simp add: dom_map_of_conv_image_fst)
qed

lemma db_exists_load: "db_inv cx db \<Longrightarrow> db_exists db pk \<longleftrightarrow> load cx db pk \<noteq> None"
  using dom_load[of cx db] by (auto simp: db_exists_def map_of_eq_None_iff domIff)

lemma finite_dom_load [simp]: "db_inv cx db \<Longrightarrow> finite (dom (load cx db))"
  by (simp add: dom_load)

subsection \<open>The operations implement a finite map\<close>

lemma db_slice_append:
  "offset loc + location_length loc \<le> length (storage db) \<Longrightarrow>
   db_slice (db\<lparr>storage := storage db @ bs\<rparr>) loc = db_slice db loc"
  by (simp add: db_slice_def)

lemma index_store: "index (store cx pk a db) = AList.update pk
    \<lparr>offset = length (storage db), location_length = length (serialize_account cx a),
     location_version = write_version db + 1\<rparr> (index db)"
  by (simp add: store_def Let_def)

lemma storage_store: "storage (store cx pk a db) = storage db @ serialize_account cx a"
  by (simp add: store_def Let_def)

lemma db_slice_store:
  "offset loc + location_length loc \<le> length (storage db) \<Longrightarrow>
   db_slice (store cx pk a db) loc = db_slice db loc"
  by (simp add: db_slice_def storage_store)

lemma db_inv_store:
  assumes inv: "db_inv cx db"
  shows "db_inv cx (store cx pk a db)"
proof -
  have jok: "json_ok cx" using inv by (simp add: db_inv_def)
  then obtain bs where bs: "account_to_json cx a = Some bs" by (auto simp: json_ok_def)
  then have ser: "serialize_account cx a = bs" by (simp add: serialize_account_def)
  have "offset loc + location_length loc \<le> length (storage (store cx pk a db)) \<and>
      (\<exists>a'. account_to_json cx a' = Some (db_slice (store cx pk a db) loc))"
    if mem: "(q, loc) \<in> set (index (store cx pk a db))" for q loc
  proof (cases "(q, loc) \<in> set (index db)")
    case True
    then have "offset loc + location_length loc \<le> length (storage db)"
      "\<exists>a'. account_to_json cx a' = Some (db_slice db loc)"
      using inv by (auto simp: db_inv_def)
    then show ?thesis by (simp add: db_slice_store) (simp add: storage_store)
  next
    case False
    have "distinct (map fst (index (store cx pk a db)))"
      using inv by (simp add: db_inv_def index_store distinct_update)
    then have "map_of (index (store cx pk a db)) q = Some loc"
      using mem by (rule map_of_is_SomeI)
    with False have "q = pk \<and> loc = \<lparr>offset = length (storage db), location_length = length bs,
        location_version = write_version db + 1\<rparr>"
      by (auto simp: index_store update_conv' ser split: if_splits dest: map_of_SomeD)
    then show ?thesis using bs by (auto simp: storage_store ser db_slice_def)
  qed
  then show ?thesis
    using inv jok by (auto simp: db_inv_def index_store distinct_update)
qed

lemma load_store:
  assumes inv: "db_inv cx db"
  shows "load cx (store cx pk a db) = (load cx db)(pk \<mapsto> a)"
proof
  fix q
  have inv': "db_inv cx (store cx pk a db)" using inv by (rule db_inv_store)
  have jok: "json_ok cx" using inv by (simp add: db_inv_def)
  then obtain bs where bs: "account_to_json cx a = Some bs" by (auto simp: json_ok_def)
  then have ser: "serialize_account cx a = bs" by (simp add: serialize_account_def)
  show "load cx (store cx pk a db) q = ((load cx db)(pk \<mapsto> a)) q"
  proof (cases "q = pk")
    case True
    let ?loc = "\<lparr>offset = length (storage db), location_length = length bs,
        location_version = write_version db + 1\<rparr>"
    have "map_of (index (store cx pk a db)) pk = Some ?loc"
      by (simp add: index_store update_conv' ser)
    from load_slice[OF inv' this] show ?thesis
      using True json_ok_decode[OF jok bs] by (simp add: db_slice_def storage_store ser)
  next
    case False
    then have same: "map_of (index (store cx pk a db)) q = map_of (index db) q"
      by (simp add: index_store update_conv')
    show ?thesis
    proof (cases "map_of (index db) q")
      case None
      then show ?thesis using False same by (simp add: load_def)
    next
      case (Some loc)
      then have "offset loc + location_length loc \<le> length (storage db)"
        using inv map_of_SomeD[OF Some] by (auto simp: db_inv_def)
      then show ?thesis
        using False load_slice[OF inv Some] load_slice[OF inv' same[unfolded Some]]
        by (simp add: db_slice_store)
    qed
  qed
qed

lemma discard_def':
  "index (discard cx pk db) = AList.delete pk (index db)" "storage (discard cx pk db) = storage db"
  by (simp_all add: db_remove_def map_of_eq_None_iff AList.delete_notin_dom)

lemma db_inv_discard: "db_inv cx db \<Longrightarrow> db_inv cx (discard cx pk db)"
  using AList.distinct_delete[of "index db" pk]
  by (auto simp: db_inv_def discard_def' db_slice_def AList.delete_eq)

lemma load_discard:
  "load cx (discard cx pk db) = (load cx db)(pk := None)"
  unfolding load_def discard_def' delete_conv' by auto

lemma length_alist_update:
  "length (AList.update pk v al) = (if map_of al pk = None then Suc (length al) else length al)"
  by (induction al) auto

lemma length_alist_delete:
  "distinct (map fst al) \<Longrightarrow> map_of al pk = Some v \<Longrightarrow> Suc (length (AList.delete pk al)) = length al"
  by (induction al) (auto split: if_splits)

lemma db_counted_store: "db_counted db \<Longrightarrow> db_counted (store cx pk a db)"
  by (simp add: db_counted_def store_def Let_def db_exists_def length_alist_update)

lemma db_counted_discard:
  assumes "db_counted db" "distinct (map fst (index db))" "length (index db) < 2 ^ 64"
  shows "db_counted (discard cx pk db)"
proof (cases "map_of (index db) pk")
  case None
  then show ?thesis using assms by (simp add: db_remove_def)
next
  case (Some loc)
  let ?n = "length (AList.delete pk (index db))"
  have len: "length (index db) = Suc ?n"
    using length_alist_delete[OF assms(2) Some] by simp
  then have count: "account_count db = of_nat (Suc ?n)" using assms(1) by (simp add: db_counted_def)
  have "unat (of_nat (Suc ?n) :: u64) = Suc ?n"
    using assms(3) len by (simp add: unat_of_nat del: of_nat_Suc)
  then have "0 < account_count db" unfolding count word_less_nat_alt by (simp del: of_nat_Suc)
  moreover have "account_count db - 1 = of_nat ?n" by (simp add: count)
  ultimately show ?thesis using Some by (simp add: db_counted_def db_remove_def)
qed

text \<open>The accounts database provides the store interface.\<close>

interpretation adb: kv_store "load cx" "store cx" "\<lambda>pk db. discard cx pk db" "db_inv cx" for cx
  by unfold_locales (simp_all add: load_store load_discard db_inv_store db_inv_discard)

lemma apply_batch_inv: "db_inv cx db \<Longrightarrow> db_inv cx (apply_batch cx us db)"
  unfolding apply_batch_def by (rule adb.invar_put_all)

lemma load_apply_batch: "db_inv cx db \<Longrightarrow> load cx (apply_batch cx us db) = load cx db ++ map_of (rev us)"
  unfolding apply_batch_def by (rule adb.lookup_put_all)

text \<open>Folding over the index visits each stored account once, in some order.\<close>

lemma map_filter_Some: "(\<And>x. x \<in> set xs \<Longrightarrow> g x = Some (h x)) \<Longrightarrow> List.map_filter g xs = map h xs"
  by (induction xs) (auto simp: List.map_filter_simps)

lemma index_values:
  assumes inv: "db_inv cx db"
  shows "List.map_filter (\<lambda>e. map_option f (load cx db (fst e))) (index db) =
    map (\<lambda>k. f (the (load cx db k))) (map fst (index db))"
proof -
  have "List.map_filter (\<lambda>e. map_option f (load cx db (fst e))) (index db) =
      map (\<lambda>e. f (the (load cx db (fst e)))) (index db)"
  proof (rule map_filter_Some)
    fix e assume "e \<in> set (index db)"
    then have "fst e \<in> dom (load cx db)" unfolding dom_load[OF inv] by simp
    then show "map_option f (load cx db (fst e)) = Some (f (the (load cx db (fst e))))" by auto
  qed
  then show ?thesis by (simp add: comp_def)
qed

lemma mset_index_values:
  assumes inv: "db_inv cx db"
  shows "mset (List.map_filter (\<lambda>e. map_option f (load cx db (fst e))) (index db)) =
    image_mset (\<lambda>k. f (the (load cx db k))) (mset_set (dom (load cx db)))"
proof -
  have "distinct (map fst (index db))" using inv by (simp add: db_inv_def)
  then have "mset (map fst (index db)) = mset_set (dom (load cx db))"
    unfolding dom_load[OF inv] by (rule mset_set_set[symmetric])
  then show ?thesis unfolding index_values[OF inv] by (simp only: mset_map)
qed

text \<open>The supply: the exact sum of all balances, which \<^verbatim>\<open>total_lamports\<close> computes modulo \<open>2 ^ 64\<close>.\<close>

definition lamport_supply :: "('z) db_ext_scheme \<Rightarrow> accounts_db \<Rightarrow> nat" where
  "lamport_supply cx db = msum (\<lambda>a. unat (lamports a)) (load cx db)"

lemma sum_of_nat_unat: "finite A \<Longrightarrow> (\<Sum>x\<in>A. (f x :: u64)) = of_nat (\<Sum>x\<in>A. unat (f x))"
  by (induction A rule: finite_induct) auto

lemma total_lamports_supply:
  assumes "db_inv cx db"
  shows "total_lamports cx db = of_nat (lamport_supply cx db)"
proof -
  have "total_lamports cx db =
      sum_mset (image_mset (\<lambda>k. lamports (the (load cx db k))) (mset_set (dom (load cx db))))"
    unfolding total_lamports_def mset_index_values[OF assms, symmetric]
    by (rule sum_mset_sum_list[symmetric])
  also have "\<dots> = (\<Sum>k\<in>dom (load cx db). lamports (the (load cx db k)))"
    by (rule sum_unfold_sum_mset[symmetric])
  finally show ?thesis
    unfolding lamport_supply_def msum_def by (simp only: sum_of_nat_unat finite_dom_load[OF assms])
qed

lemma compute_state_root_map:
  assumes "db_inv cx db"
  shows "compute_state_root cx db = state_root_compute cx (sorted_list_of_multiset
    (image_mset (\<lambda>k. account_hash cx (the (load cx db k))) (mset_set (dom (load cx db)))))"
  unfolding mset_index_values[OF assms, symmetric] compute_state_root_def Let_def
  by (simp only: sorted_list_of_multiset_mset)

end
