(* ===== verification/AccountsLog.thy ===== *)
theory AccountsLog
  imports AccountsDB
begin

text \<open>
  Durability of the accounts database (\<^verbatim>\<open>crates/accounts/src/store.rs\<close>): the log file as a
  sequence of records, what replaying a complete, truncated or damaged log restores, and
  the properties of the database seen as a finite map.
\<close>

subsection \<open>Histories and logs\<close>

text \<open>
  The history of a database as a list of operations; the log file is the concatenation of
  their records, and replaying it performs them again.
\<close>

datatype db_op = PutOp pubkey account | DelOp pubkey

fun encode_op :: "('z) db_ext_scheme \<Rightarrow> db_op \<Rightarrow> bytes" where
  "encode_op cx (PutOp pk a) = encode_put cx pk a"
| "encode_op cx (DelOp pk) = encode_delete pk"

fun op_fits :: "('z) db_ext_scheme \<Rightarrow> db_op \<Rightarrow> bool" where
  "op_fits cx (PutOp pk a) = json_fits cx a"
| "op_fits cx (DelOp pk) = True"

fun run_op :: "('z) db_ext_scheme \<Rightarrow> accounts_db \<Rightarrow> db_op \<Rightarrow> accounts_db" where
  "run_op cx db (PutOp pk a) = store cx pk a db"
| "run_op cx db (DelOp pk) = discard cx pk db"

fun apply_op :: "(pubkey \<Rightarrow> account option) \<Rightarrow> db_op \<Rightarrow> (pubkey \<Rightarrow> account option)" where
  "apply_op m (PutOp pk a) = m(pk \<mapsto> a)"
| "apply_op m (DelOp pk) = m(pk := None)"

definition log_of :: "('z) db_ext_scheme \<Rightarrow> db_op list \<Rightarrow> bytes" where
  "log_of cx ops = concat (map (encode_op cx) ops)"

text \<open>How many records lie wholly within the first \<open>n\<close> bytes of a log.\<close>

fun complete_records :: "('z) db_ext_scheme \<Rightarrow> nat \<Rightarrow> db_op list \<Rightarrow> nat" where
  "complete_records cx n [] = 0"
| "complete_records cx n (op # ops) =
     (if length (encode_op cx op) \<le> n
      then Suc (complete_records cx (n - length (encode_op cx op)) ops) else 0)"

text \<open>
  The databases a process can hold: opened on a missing file, changed by the operations
  that log, compacted, or closed and opened again on the file it has written.
\<close>

inductive live :: "('z) db_ext_scheme \<Rightarrow> accounts_db \<Rightarrow> bool" for cx where
  live_open: "live cx (db_open cx None)"
| live_store: "live cx db \<Longrightarrow> json_fits cx a \<Longrightarrow> live cx (store cx pk a db)"
| live_remove: "live cx db \<Longrightarrow> live cx (discard cx pk db)"
| live_snapshot: "live cx db \<Longrightarrow> live cx (db_snapshot cx db)"
| live_reopen: "live cx db \<Longrightarrow> live cx (db_open cx (persist db))"

definition logged :: "('z) db_ext_scheme \<Rightarrow> accounts_db \<Rightarrow> db_op list \<Rightarrow> bool" where
  "logged cx db ops \<longleftrightarrow>
     db_inv cx db \<and> list_all (op_fits cx) ops \<and> persist db = Some (log_of cx ops) \<and>
     load cx db = foldl apply_op Map.empty ops"

text \<open>
  A concrete serialisation for witnesses: the injective preimage of the account hash, with
  its decoder, and a file that grows at its end.
\<close>

definition demo_db :: db_ext where
  "demo_db = crypto.extend demo_crypto
     (db_ext.fields (\<lambda>a. Some (account_hash_input a)) (\<lambda>bs. Some (decode_account_input bs)) (@))"

lemma demo_db_simps [simp]:
  "account_to_json demo_db = (\<lambda>a. Some (account_hash_input a))"
  "account_from_json demo_db = (\<lambda>bs. Some (decode_account_input bs))"
  "file_append demo_db = (@)" "sha256 demo_db = le_val"
  by (simp_all add: demo_db_def demo_crypto_def crypto.defs db_ext.defs)

lemma demo_db_ok [simp]: "json_ok demo_db" "file_ok demo_db"
  by (simp_all add: json_ok_def file_ok_def decode_account_input)

subsection \<open>Replaying a log\<close>

lemma replay_Nil [simp]: "replay cx [] db = db"
  by (simp add: replay.simps)

lemma replay_delete: "replay cx (encode_delete pk @ rest) db = replay cx rest (discard cx pk db)"
  by (simp add: replay.simps[of cx "encode_delete pk @ rest"])
    (simp add: encode_delete_def RECORD_DELETE_def RECORD_PUT_def)

lemma replay_put:
  assumes "json_ok cx" "json_fits cx a"
  shows "replay cx (encode_put cx pk a @ rest) db = replay cx rest (store cx pk a db)"
proof -
  obtain bs where bs: "account_to_json cx a = Some bs" using assms(1) by (auto simp: json_ok_def)
  have len: "length bs < 2 ^ 32" using bs assms(2) by (simp add: json_fits_def)
  have enc: "encode_put cx pk a = RECORD_PUT # bytes32 pk @ len_u32 bs @ bs"
    by (simp add: encode_put_def serialize_account_def bs)
  have "unat (le_val (len_u32 bs) :: u32) = length bs"
    using len by (simp add: len_u32_def unat_of_nat)
  then show ?thesis
    using json_ok_decode[OF assms(1) bs]
    by (simp add: enc replay.simps[of cx "RECORD_PUT # _"])
qed

lemma replay_op:
  "json_ok cx \<Longrightarrow> op_fits cx op \<Longrightarrow> replay cx (encode_op cx op @ rest) db = replay cx rest (run_op cx db op)"
  by (cases op) (auto simp: replay_put replay_delete)

lemma replay_torn:
  assumes "n < length (encode_op cx op)" "op_fits cx op"
  shows "replay cx (take n (encode_op cx op)) db = db"
proof (cases op)
  case (DelOp pk)
  then show ?thesis using assms
    by (cases n) (auto simp: encode_delete_def RECORD_DELETE_def RECORD_PUT_def replay.simps[of cx "_ # _"])
next
  case (PutOp pk a)
  let ?bs = "serialize_account cx a"
  have enc: "encode_op cx op = RECORD_PUT # bytes32 pk @ len_u32 ?bs @ ?bs"
    by (simp add: PutOp encode_put_def Let_def)
  have len: "unat (le_val (len_u32 ?bs) :: u32) = length ?bs"
    using assms(2) PutOp
    by (auto simp: len_u32_def unat_of_nat json_fits_def serialize_account_def split: option.splits)
  show ?thesis
  proof (cases n)
    case 0
    then show ?thesis by simp
  next
    case (Suc m)
    then have "take n (encode_op cx op) = RECORD_PUT # take m (bytes32 pk @ len_u32 ?bs @ ?bs)"
      by (simp add: enc)
    moreover have "m < 36 + length ?bs" using assms(1) Suc by (simp add: enc)
    ultimately show ?thesis
      using len by (auto simp: replay.simps[of cx "RECORD_PUT # _"] Let_def)
  qed
qed

lemma replay_log:
  "json_ok cx \<Longrightarrow> list_all (op_fits cx) ops \<Longrightarrow>
   replay cx (log_of cx ops @ rest) db = replay cx rest (foldl (run_op cx) db ops)"
  by (induction ops arbitrary: db) (auto simp: log_of_def replay_op)

lemma replay_truncated_log:
  "json_ok cx \<Longrightarrow> list_all (op_fits cx) ops \<Longrightarrow>
   replay cx (take n (log_of cx ops)) db = foldl (run_op cx) db (take (complete_records cx n ops) ops)"
proof (induction ops arbitrary: n db)
  case Nil
  then show ?case by (simp add: log_of_def)
next
  case (Cons op ops)
  let ?e = "encode_op cx op"
  show ?case
  proof (cases "length ?e \<le> n")
    case True
    then have "take n (log_of cx (op # ops)) = ?e @ take (n - length ?e) (log_of cx ops)"
      by (simp add: log_of_def)
    then show ?thesis using True Cons by (simp add: replay_op)
  next
    case False
    then show ?thesis using Cons.prems by (simp add: log_of_def replay_torn)
  qed
qed

lemma run_ops_inv: "db_inv cx db \<Longrightarrow> db_inv cx (foldl (run_op cx) db ops)"
proof (induction ops arbitrary: db)
  case (Cons op ops)
  then show ?case by (cases op) (auto simp: db_inv_store db_inv_discard)
qed simp

lemma load_run_ops: "db_inv cx db \<Longrightarrow> load cx (foldl (run_op cx) db ops) = foldl apply_op (load cx db) ops"
proof (induction ops arbitrary: db)
  case (Cons op ops)
  then show ?case
    by (cases op) (auto simp: db_inv_store db_inv_discard load_store load_discard fun_upd_def)
qed simp

subsection \<open>The log always describes the database\<close>

lemma load_persist_update [simp]: "load cx (db\<lparr>persist := f\<rparr>) = load cx db"
  by (simp add: load_def fun_eq_iff Let_def split: option.splits)

lemma db_inv_persist_update [simp]: "db_inv cx (db\<lparr>persist := f\<rparr>) = db_inv cx db"
  by (simp add: db_inv_def db_slice_def)

lemma log_of_snoc: "log_of cx (ops @ [op]) = log_of cx ops @ encode_op cx op"
  by (simp add: log_of_def)

lemma apply_ops_in:
  "foldl apply_op m ops pk = Some a \<Longrightarrow> m pk = Some a \<or> PutOp pk a \<in> set ops"
proof (induction ops arbitrary: m)
  case (Cons op ops)
  then show ?case by (cases op) (fastforce split: if_splits)+
qed simp

lemma logged_fits: "logged cx db ops \<Longrightarrow> load cx db pk = Some a \<Longrightarrow> json_fits cx a"
  using apply_ops_in[of Map.empty ops pk a] by (auto simp: logged_def list_all_iff)

lemma logged_open_None: "json_ok cx \<Longrightarrow> logged cx (db_open cx None) []"
  by (simp add: logged_def db_open_def log_of_def db_inv_new)

lemma logged_store:
  "file_ok cx \<Longrightarrow> logged cx db ops \<Longrightarrow> json_fits cx a \<Longrightarrow>
   logged cx (store cx pk a db) (ops @ [PutOp pk a])"
  by (simp add: logged_def db_inv_store load_store log_of_snoc)
    (simp add: store_def Let_def file_ok_def)

lemma logged_discard:
  assumes "file_ok cx" "logged cx db ops"
  shows "\<exists>ops'. logged cx (discard cx pk db) ops'"
proof (cases "map_of (index db) pk")
  case None
  then have "discard cx pk db = db" by (simp add: db_remove_def)
  with assms(2) show ?thesis by auto
next
  case (Some loc)
  then have "persist (discard cx pk db) = Some (log_of cx (ops @ [DelOp pk]))"
    using assms by (simp add: db_remove_def logged_def file_ok_def log_of_snoc)
  with assms(2) have "logged cx (discard cx pk db) (ops @ [DelOp pk])"
    by (simp add: logged_def db_inv_discard load_discard)
  then show ?thesis ..
qed

lemma logged_reopen:
  "json_ok cx \<Longrightarrow> logged cx db ops \<Longrightarrow> logged cx (db_open cx (persist db)) ops"
  using replay_log[of cx ops "[]" db_new] run_ops_inv[OF db_inv_new, of cx ops]
    load_run_ops[OF db_inv_new, of cx ops]
  by (simp add: logged_def db_open_def)

lemma snapshot_log:
  assumes "file_ok cx" "persist db = Some f" "db_inv cx db"
  shows "persist (db_snapshot cx db) =
    Some (log_of cx (map (\<lambda>k. PutOp k (the (load cx db k))) (pubkeys db)))"
proof -
  have "foldl (\<lambda>f e. case load cx db (fst e) of
            Some a \<Rightarrow> file_append cx f (encode_put cx (fst e) a) | None \<Rightarrow> f) f es =
        f @ log_of cx (map (\<lambda>k. PutOp k (the (load cx db k))) (map fst es))"
    if "fst ` set es \<subseteq> dom (load cx db)" for f es
    using that assms(1)
    by (induction es arbitrary: f) (auto simp: log_of_def file_ok_def domIff)
  from this[of "index db" "[]"] show ?thesis
    using assms dom_load[OF assms(3)] by (simp add: db_snapshot_def pubkeys_def)
qed

lemma apply_puts: "foldl apply_op m (map (\<lambda>k. PutOp k (g k)) ks) = (\<lambda>k. if k \<in> set ks then Some (g k) else m k)"
  by (induction ks arbitrary: m) (auto simp: fun_eq_iff)

lemma logged_snapshot:
  assumes "file_ok cx" "logged cx db ops"
  shows "logged cx (db_snapshot cx db) (map (\<lambda>k. PutOp k (the (load cx db k))) (pubkeys db))"
proof -
  have inv: "db_inv cx db" and per: "persist db = Some (log_of cx ops)"
    using assms(2) by (simp_all add: logged_def)
  have dom: "set (pubkeys db) = dom (load cx db)" using dom_load[OF inv] by (simp add: pubkeys_def)
  then have "load cx db = foldl apply_op Map.empty (map (\<lambda>k. PutOp k (the (load cx db k))) (pubkeys db))"
    unfolding apply_puts by (auto simp: fun_eq_iff domIff)
  moreover have "list_all (op_fits cx) (map (\<lambda>k. PutOp k (the (load cx db k))) (pubkeys db))"
    using logged_fits[OF assms(2)] dom by (auto simp: list_all_iff)
  ultimately show ?thesis
    using inv snapshot_log[OF assms(1) per inv] per
    by (simp add: logged_def) (simp add: db_snapshot_def)
qed

lemma live_logged: "json_ok cx \<Longrightarrow> file_ok cx \<Longrightarrow> live cx db \<Longrightarrow> \<exists>ops. logged cx db ops"
proof (rotate_tac 2, induction rule: live.induct)
  case live_open
  then show ?case using logged_open_None by blast
next
  case (live_store db a pk)
  then show ?case using logged_store by blast
next
  case (live_remove db pk)
  then show ?case using logged_discard by blast
next
  case (live_snapshot db)
  then show ?case using logged_snapshot by blast
next
  case (live_reopen db)
  then show ?case using logged_reopen by blast
qed

lemma run_ops_distinct_length:
  "distinct (map fst (index db)) \<Longrightarrow> length (index db) + length ops < 2 ^ 64 \<Longrightarrow> db_counted db \<Longrightarrow>
   db_counted (foldl (run_op cx) db ops)"
proof (induction ops arbitrary: db)
  case (Cons op ops)
  have "distinct (map fst (index (run_op cx db op))) \<and> db_counted (run_op cx db op) \<and>
      length (index (run_op cx db op)) \<le> Suc (length (index db))"
  proof (cases op)
    case (PutOp pk a)
    then show ?thesis using Cons.prems
      by (simp add: index_store distinct_update db_counted_store length_alist_update)
  next
    case (DelOp pk)
    then show ?thesis using Cons.prems
      by (simp add: discard_def' AList.distinct_delete db_counted_discard length_delete_le le_SucI)
  qed
  then show ?case using Cons by simp
qed simp

lemma run_ops_new: "json_ok cx \<Longrightarrow> load cx (foldl (run_op cx) db_new ops) = foldl apply_op Map.empty ops"
  using load_run_ops[OF db_inv_new, of cx ops] by simp

lemma discard_persist:
  "map_of (index db) pk = Some loc \<Longrightarrow>
   persist (discard cx pk db) = map_option (\<lambda>f. file_append cx f (encode_delete pk)) (persist db)"
  by (simp add: db_remove_def)

lemma replay_put_prefix_delete: "replay cx ([RECORD_PUT] @ encode_delete pk) db = db"
  by (simp add: replay.simps[of cx "_ # _"] encode_delete_def)

lemma compute_state_root_cong:
  "db_inv cx db \<Longrightarrow> db_inv cx db' \<Longrightarrow> load cx db = load cx db' \<Longrightarrow>
   compute_state_root cx db = compute_state_root cx db'"
  by (simp add: compute_state_root_map)

lemma mset_set_two:
  assumes "finite D" "j \<in> D" "k \<in> D" "j \<noteq> k"
  shows "mset_set D = {#j, k#} + mset_set (D - {j, k})"
proof -
  have "D = insert j (insert k (D - {j, k}))" using assms by auto
  also have "mset_set \<dots> = {#j, k#} + mset_set (D - {j, k})"
    using assms by (subst mset_set.insert; simp)+
  finally show ?thesis .
qed

lemma complete_records_maximal:
  "complete_records cx n ops \<le> length ops \<and>
   length (log_of cx (take (complete_records cx n ops) ops)) \<le> n \<and>
   (complete_records cx n ops < length ops \<longrightarrow>
      n < length (log_of cx (take (Suc (complete_records cx n ops)) ops)))"
proof (induction ops arbitrary: n)
  case (Cons op ops)
  show ?case
    using Cons.IH[of "n - length (encode_op cx op)"] by (auto simp: log_of_def)
qed (simp add: log_of_def)

subsection \<open>Properties of the database\<close>

text \<open>
  C4 The accounts database is a finite map: after any sequence of stores and removals its
  lookups are those of the map the sequence denotes; \<^verbatim>\<open>exists\<close>, \<^verbatim>\<open>pubkeys\<close> and the
  account counter agree with the map's domain, and \<^verbatim>\<open>total_lamports\<close> is the sum of the
  balances modulo \<open>2 ^ 64\<close>.
\<close>

theorem accounts_db_refines_map:
  assumes "json_ok cx" "length ops < 2 ^ 64" "db = foldl (run_op cx) db_new ops"
  shows "load cx db = foldl apply_op Map.empty ops \<and>
    (\<forall>pk. db_exists db pk = (load cx db pk \<noteq> None)) \<and>
    distinct (pubkeys db) \<and> set (pubkeys db) = dom (load cx db) \<and>
    account_count db = of_nat (card (dom (load cx db))) \<and>
    total_lamports cx db = of_nat (lamport_supply cx db)"
proof -
  have inv: "db_inv cx db" unfolding assms(3) by (rule run_ops_inv[OF db_inv_new[OF assms(1)]])
  have keys: "distinct (pubkeys db)" "set (pubkeys db) = dom (load cx db)"
    using inv dom_load[OF inv] by (simp_all add: pubkeys_def db_inv_def)
  have "db_counted db" unfolding assms(3)
    by (rule run_ops_distinct_length) (use assms(2) in \<open>simp_all add: db_new_def db_counted_def\<close>)
  then have "account_count db = of_nat (card (dom (load cx db)))"
    using distinct_card[OF keys(1)] keys(2) by (simp add: db_counted_def pubkeys_def)
  then show ?thesis
    using keys run_ops_new[OF assms(1)] db_exists_load[OF inv] total_lamports_supply[OF inv] assms(3)
    by simp
qed

theorem accounts_db_refines_map_witness:
  "load demo_db (foldl (run_op demo_db) db_new [PutOp 1 (new_system_account 0 5), DelOp 1]) 1 = None"
  using accounts_db_refines_map[OF demo_db_ok(1) _ refl, of "[PutOp 1 (new_system_account 0 5), DelOp 1]"]
  by simp

text \<open>
  The state root is a function of the account map alone: two histories that leave the
  same map give the same root, whatever the order of the writes, the overwritten versions,
  the removed accounts and the iteration order of the index.
\<close>

theorem state_root_deterministic:
  assumes "json_ok cx" "foldl apply_op Map.empty ops = foldl apply_op Map.empty ops'"
  shows "compute_state_root cx (foldl (run_op cx) db_new ops) =
    compute_state_root cx (foldl (run_op cx) db_new ops')"
  using assms run_ops_inv[OF db_inv_new[OF assms(1)]] run_ops_new[OF assms(1)]
  by (simp add: compute_state_root_map)

theorem state_root_deterministic_witness:
  "compute_state_root demo_db (foldl (run_op demo_db) db_new
      [PutOp 1 (new_system_account 0 5), PutOp 2 (new_system_account 0 6)]) =
   compute_state_root demo_db (foldl (run_op demo_db) db_new
      [PutOp 2 (new_system_account 0 7), PutOp 2 (new_system_account 0 6), PutOp 1 (new_system_account 0 5)])"
  by (rule state_root_deterministic) (auto simp: fun_eq_iff)

text \<open>
  The state root does not bind accounts to their keys: exchanging the contents of two
  accounts leaves the root unchanged, because the account hash covers the contents but not
  the public key and the hashes are sorted before they are combined.
\<close>

theorem state_root_ignores_keys:
  assumes "db_inv cx db" "load cx db j = Some a" "load cx db k = Some b"
  shows "compute_state_root cx (store cx k a (store cx j b db)) = compute_state_root cx db"
proof -
  let ?db = "store cx k a (store cx j b db)" and ?h = "\<lambda>m k. account_hash cx (the (m k))"
  let ?D = "dom (load cx db)"
  have inv: "db_inv cx ?db" using assms(1) by (intro db_inv_store)
  have ld: "load cx ?db = (load cx db)(j \<mapsto> b, k \<mapsto> a)"
    using assms(1) by (simp add: load_store db_inv_store)
  then have dom: "dom (load cx ?db) = ?D" using assms(2,3) by auto
  show ?thesis
  proof (cases "j = k")
    case True
    then have "load cx ?db = load cx db" using assms ld by auto
    then show ?thesis by (rule compute_state_root_cong[OF inv assms(1)])
  next
    case False
    let ?R = "?D - {j, k}"
    have D: "mset_set ?D = {#j, k#} + mset_set ?R"
      using assms False by (intro mset_set_two) auto
    have "image_mset (?h (load cx ?db)) (mset_set ?R) = image_mset (?h (load cx db)) (mset_set ?R)"
      using assms(1) by (intro image_mset_cong) (auto simp: ld)
    moreover have "?h (load cx ?db) j = ?h (load cx db) k" "?h (load cx ?db) k = ?h (load cx db) j"
      using assms(2,3) False by (simp_all add: ld)
    ultimately have "image_mset (?h (load cx ?db)) (mset_set ?D) = image_mset (?h (load cx db)) (mset_set ?D)"
      unfolding D by simp
    then show ?thesis
      unfolding compute_state_root_map[OF inv] compute_state_root_map[OF assms(1)] dom by simp
  qed
qed

theorem state_root_ignores_keys_witness:
  "let db = store demo_db 2 (new_system_account 0 9) (store demo_db 1 (new_system_account 0 5) db_new) in
   load demo_db db 1 \<noteq> load demo_db db 2 \<and>
   compute_state_root demo_db
     (store demo_db 2 (new_system_account 0 5) (store demo_db 1 (new_system_account 0 9) db)) =
   compute_state_root demo_db db"
proof -
  let ?db = "store demo_db 2 (new_system_account 0 9) (store demo_db 1 (new_system_account 0 5) db_new)"
  have inv: "db_inv demo_db ?db" by (intro db_inv_store db_inv_new) simp
  have "load demo_db ?db 1 = Some (new_system_account 0 5)" "load demo_db ?db 2 = Some (new_system_account 0 9)"
    by (simp_all add: load_store db_inv_store db_inv_new)
  with state_root_ignores_keys[OF inv this] show ?thesis
    by (simp add: Let_def new_system_account_def)
qed

text \<open>
  C18 Durability: at every moment of the life of a persistent database, whatever it went
  through (stores, removals, compactions, restarts), opening its log file again restores
  exactly its accounts; compaction changes no account, neither in memory nor on disk.
\<close>

theorem reopen_restores:
  assumes "json_ok cx" "file_ok cx" "live cx db"
  shows "load cx (db_open cx (persist db)) = load cx db \<and>
    load cx (db_snapshot cx db) = load cx db \<and>
    load cx (db_open cx (persist (db_snapshot cx db))) = load cx db"
proof -
  obtain ops where ops: "logged cx db ops" using live_logged[OF assms] by blast
  have same: "load cx (db_open cx (persist d)) = load cx d" if "logged cx d l" for d l
    using logged_reopen[OF assms(1) that] that by (simp add: logged_def)
  have "load cx (db_snapshot cx db) = load cx db" by (simp add: db_snapshot_def split: option.splits)
  then show ?thesis using same[OF ops] same[OF logged_snapshot[OF assms(2) ops]] by simp
qed

theorem reopen_restores_witness:
  "load demo_db (db_open demo_db (persist (store demo_db 1 (new_system_account 0 5) (db_open demo_db None)))) 1
     = Some (new_system_account 0 5)"
proof -
  let ?db = "store demo_db 1 (new_system_account 0 5) (db_open demo_db None)"
  have "json_fits demo_db (new_system_account 0 5)"
    by (simp add: json_fits_def new_system_account_def account_hash_input_def)
  then have "live demo_db ?db" by (intro live.intros)
  from reopen_restores[OF demo_db_ok this] show ?thesis
    by (simp add: load_store db_open_def db_inv_new)
qed

text \<open>
  C17 Crash safety: a log cut off after any number of bytes replays to the state after the
  longest prefix of the history whose records are completely in the file: no operation is
  half applied, none is reordered, and no complete record is lost.
\<close>

theorem torn_log_replays_prefix:
  assumes "json_ok cx" "list_all (op_fits cx) ops"
  shows "\<exists>m \<le> length ops. length (log_of cx (take m ops)) \<le> n \<and>
    (m < length ops \<longrightarrow> n < length (log_of cx (take (Suc m) ops))) \<and>
    load cx (db_open cx (Some (take n (log_of cx ops)))) = foldl apply_op Map.empty (take m ops)"
  using complete_records_maximal[of cx n ops] replay_truncated_log[OF assms, of n db_new]
    run_ops_new[OF assms(1)]
  by (intro exI[of _ "complete_records cx n ops"]) (simp add: db_open_def)

theorem torn_log_replays_prefix_witness:
  "\<exists>m \<le> 1. load demo_db (db_open demo_db (Some (take 7 (log_of demo_db [DelOp 3])))) =
     foldl apply_op Map.empty (take m [DelOp 3])"
  using torn_log_replays_prefix[OF demo_db_ok(1), of "[DelOp 3]" 7] by auto

text \<open>
  A damaged tail is not repaired: when the log ends in the first byte of an unfinished
  \<^verbatim>\<open>RECORD_PUT\<close>, opening it restores the complete records, but a removal made after the
  restart is appended behind the torn byte, and the next restart does not see it: the
  removed account is back.
\<close>

theorem torn_tail_loses_later_removal:
  assumes "json_ok cx" "file_ok cx" "list_all (op_fits cx) ops"
    and "foldl apply_op Map.empty ops pk = Some a"
    and "db = db_open cx (Some (log_of cx ops @ [RECORD_PUT]))"
  shows "load cx db pk = Some a \<and> load cx (discard cx pk db) pk = None \<and>
    load cx (db_open cx (persist (discard cx pk db))) pk = Some a"
proof -
  let ?r = "foldl (run_op cx) db_new ops"
  have db: "db = ?r\<lparr>persist := Some (log_of cx ops @ [RECORD_PUT])\<rparr>"
    using assms replay_log[of cx ops "[RECORD_PUT]" db_new]
    by (simp add: db_open_def replay.simps[of cx "[RECORD_PUT]"])
  have inv: "db_inv cx db" using run_ops_inv[OF db_inv_new[OF assms(1)], of ops] by (simp add: db)
  have here: "load cx db pk = Some a" using run_ops_new[OF assms(1)] assms(4) by (simp add: db)
  then have "db_exists db pk" using db_exists_load[OF inv] by simp
  then obtain loc where "map_of (index db) pk = Some loc" by (auto simp: db_exists_def)
  from discard_persist[OF this, of cx] have
    "persist (discard cx pk db) = Some (log_of cx ops @ [RECORD_PUT] @ encode_delete pk)"
    using assms(2) by (simp add: db file_ok_def)
  then have "load cx (db_open cx (persist (discard cx pk db))) = load cx ?r"
    using replay_log[OF assms(1,3), of "[RECORD_PUT] @ encode_delete pk" db_new]
      replay_put_prefix_delete[of cx pk ?r]
    by (simp add: db_open_def)
  then show ?thesis using here by (simp add: load_discard db)
qed

theorem torn_tail_loses_later_removal_witness:
  "let db = db_open demo_db (Some (log_of demo_db [PutOp 1 (new_system_account 0 5)] @ [RECORD_PUT])) in
   load demo_db (discard demo_db 1 db) 1 = None \<and>
   load demo_db (db_open demo_db (persist (discard demo_db 1 db))) 1 = Some (new_system_account 0 5)"
proof -
  have "list_all (op_fits demo_db) [PutOp 1 (new_system_account 0 5)]"
    by (simp add: json_fits_def new_system_account_def account_hash_input_def)
  from torn_tail_loses_later_removal[OF demo_db_ok this _ refl, of 1 "new_system_account 0 5"]
  show ?thesis by (simp add: Let_def)
qed

end
