(* ===== verification/Transaction.thy ===== *)
theory Transaction
  imports AccountsLog
begin

text \<open>
  Transactions (\<^verbatim>\<open>crates/tx-processor/src/transaction.rs\<close>): the signed message and its hash,
  the accounts a transaction names, conflicts, validation and results.
\<close>

subsection \<open>Data\<close>

record tx_account_meta =
  tm_index :: u8
  tm_signer :: bool
  tm_writable :: bool

record tx_instruction =
  ix_program_id :: pubkey
  ix_accounts :: "tx_account_meta list"
  ix_data :: bytes

record transaction =
  tx_signature :: bytes
  tx_signer :: pubkey
  account_keys :: "pubkey list"
  instructions :: "tx_instruction list"
  recent_blockhash :: hash32
  tx_compute_budget :: u64
  tx_fee :: u64

definition transaction_new :: "pubkey \<Rightarrow> tx_instruction list \<Rightarrow> hash32 \<Rightarrow> transaction" where
  "transaction_new signer ixs blockhash =
     \<lparr>tx_signature = [], tx_signer = signer, account_keys = [signer], instructions = ixs,
      recent_blockhash = blockhash, tx_compute_budget = 200000, tx_fee = 5000\<rparr>"

datatype transaction_error =
    NoInstructions
  | ZeroComputeBudget
  | InsufficientFee
  | InvalidSignature
  | TxAccountNotFound u8
  | InsufficientLamports u64 u64
  | TxProgramError string
  | ComputeBudgetExceeded
  | BlockhashNotFound
  | DuplicateTransaction

fun show_transaction_error :: "transaction_error \<Rightarrow> string" where
  "show_transaction_error NoInstructions = ''No instructions''"
| "show_transaction_error ZeroComputeBudget = ''Zero compute budget''"
| "show_transaction_error InsufficientFee = ''Insufficient fee''"
| "show_transaction_error InvalidSignature = ''Invalid signature''"
| "show_transaction_error (TxAccountNotFound i) = ''Account '' @ show_word i @ '' not found''"
| "show_transaction_error (InsufficientLamports needed available) =
     ''Insufficient lamports: need '' @ show_word needed @ '', have '' @ show_word available"
| "show_transaction_error (TxProgramError msg) = ''Program error: '' @ msg"
| "show_transaction_error ComputeBudgetExceeded = ''Compute budget exceeded''"
| "show_transaction_error BlockhashNotFound = ''Blockhash not found''"
| "show_transaction_error DuplicateTransaction = ''Duplicate transaction''"

text \<open>The derived \<^verbatim>\<open>Debug\<close> form, which failure results carry in their log.\<close>

fun debug_transaction_error :: "transaction_error \<Rightarrow> string" where
  "debug_transaction_error NoInstructions = ''NoInstructions''"
| "debug_transaction_error ZeroComputeBudget = ''ZeroComputeBudget''"
| "debug_transaction_error InsufficientFee = ''InsufficientFee''"
| "debug_transaction_error InvalidSignature = ''InvalidSignature''"
| "debug_transaction_error (TxAccountNotFound i) = ''AccountNotFound('' @ show_word i @ '')''"
| "debug_transaction_error (InsufficientLamports needed available) =
     ''InsufficientLamports { needed: '' @ show_word needed @ '', available: '' @
     show_word available @ '' }''"
| "debug_transaction_error (TxProgramError msg) = ''ProgramError('' @ debug_str msg @ '')''"
| "debug_transaction_error ComputeBudgetExceeded = ''ComputeBudgetExceeded''"
| "debug_transaction_error BlockhashNotFound = ''BlockhashNotFound''"
| "debug_transaction_error DuplicateTransaction = ''DuplicateTransaction''"

record transaction_result =
  tr_success :: bool
  tr_compute_units :: u64
  fee_paid :: u64
  tr_error :: "transaction_error option"
  tr_logs :: "string list"

definition tr_success_new :: "u64 \<Rightarrow> u64 \<Rightarrow> transaction_result" where
  "tr_success_new compute_units fee =
     \<lparr>tr_success = True, tr_compute_units = compute_units, fee_paid = fee, tr_error = None,
      tr_logs = [''Transaction executed successfully'']\<rparr>"

definition tr_failure_new :: "transaction_error \<Rightarrow> u64 \<Rightarrow> transaction_result" where
  "tr_failure_new error compute_units =
     \<lparr>tr_success = False, tr_compute_units = compute_units, fee_paid = 0, tr_error = Some error,
      tr_logs = [''Transaction failed: '' @ debug_transaction_error error]\<rparr>"

subsection \<open>Message, hash and signature\<close>

definition meta_message :: "tx_account_meta \<Rightarrow> bytes" where
  "meta_message m = [tm_index m, bool_byte (tm_signer m), bool_byte (tm_writable m)]"

definition ix_message :: "tx_instruction \<Rightarrow> bytes" where
  "ix_message ix =
     bytes32 (ix_program_id ix) @
     len_u32 (ix_accounts ix) @ concat (map meta_message (ix_accounts ix)) @
     len_u32 (ix_data ix) @ ix_data ix"

definition tx_message :: "transaction \<Rightarrow> bytes" where
  "tx_message tx =
     bytes32 (tx_signer tx) @ bytes32 (recent_blockhash tx) @
     le_u64 (tx_fee tx) @ le_u64 (tx_compute_budget tx) @
     len_u32 (account_keys tx) @ concat (map bytes32 (account_keys tx)) @
     concat (map ix_message (instructions tx))"

definition tx_hash :: "('z) crypto_scheme \<Rightarrow> transaction \<Rightarrow> hash32" where
  "tx_hash cx tx = sha256 cx (tx_message tx)"

definition tx_sign :: "('z) crypto_scheme \<Rightarrow> hash32 \<Rightarrow> transaction \<Rightarrow> transaction" where
  "tx_sign cx key tx =
     (let tx = tx\<lparr>tx_signer := verifying_key cx key\<rparr>
      in tx\<lparr>tx_signature := ed_sign cx key (bytes32 (tx_hash cx tx))\<rparr>)"

definition verify_signature :: "('z) crypto_scheme \<Rightarrow> transaction \<Rightarrow> bool" where
  "verify_signature cx tx = signature_ok cx (tx_signer tx) (bytes32 (tx_hash cx tx)) (tx_signature tx)"

subsection \<open>Accounts and conflicts\<close>

definition resolve :: "transaction \<Rightarrow> u8 \<Rightarrow> pubkey option" where
  "resolve tx i = list_get (account_keys tx) (unat i)"

definition read_accounts :: "transaction \<Rightarrow> pubkey list" where
  "read_accounts tx = concat (map (\<lambda>ix.
     List.map_filter (\<lambda>a. resolve tx (tm_index a)) (filter (\<lambda>a. \<not> tm_writable a) (ix_accounts ix)))
     (instructions tx))"

definition write_accounts :: "transaction \<Rightarrow> pubkey list" where
  "write_accounts tx = concat (map (\<lambda>ix.
     List.map_filter (\<lambda>a. resolve tx (tm_index a)) (filter tm_writable (ix_accounts ix)))
     (instructions tx))"

definition conflicts_with :: "transaction \<Rightarrow> transaction \<Rightarrow> bool" where
  "conflicts_with tx other =
     (if list_ex (\<lambda>w. w \<in> set (write_accounts other) \<or> w \<in> set (read_accounts other)) (write_accounts tx)
      then True
      else if list_ex (\<lambda>w. w \<in> set (write_accounts tx) \<or> w \<in> set (read_accounts tx)) (write_accounts other)
      then True
      else False)"

definition validate :: "transaction \<Rightarrow> transaction_error + unit" where
  "validate tx =
     (if instructions tx = [] then Inl NoInstructions
      else if tx_compute_budget tx = 0 then Inl ZeroComputeBudget
      else if tx_fee tx < 5000 then Inl InsufficientFee
      else Inr ())"

text \<open>Lengths that survive the \<^verbatim>\<open>as u32\<close> casts of the message.\<close>

definition ix_fits :: "tx_instruction \<Rightarrow> bool" where
  "ix_fits ix \<longleftrightarrow> length (ix_accounts ix) < 2 ^ 32 \<and> length (ix_data ix) < 2 ^ 32"

definition tx_fits :: "transaction \<Rightarrow> bool" where
  "tx_fits tx \<longleftrightarrow> length (account_keys tx) < 2 ^ 32 \<and> list_all ix_fits (instructions tx)"

subsection \<open>The message determines the transaction\<close>

interpretation meta_code: fixed_width_code meta_message "\<lambda>_. True" 3
  by unfold_locales (auto simp: meta_message_def intro: tx_account_meta.equality)

interpretation ix_code: prefix_code ix_message ix_fits
proof
  fix a b r s
  assume ok: "ix_fits a" "ix_fits b" and eq: "ix_message a @ r = ix_message b @ s"
  from eq have 1: "ix_program_id a = ix_program_id b" and
    2: "len_u32 (ix_accounts a) @ concat (map meta_message (ix_accounts a)) @ len_u32 (ix_data a) @ ix_data a @ r =
        len_u32 (ix_accounts b) @ concat (map meta_message (ix_accounts b)) @ len_u32 (ix_data b) @ ix_data b @ s"
    by (auto simp: ix_message_def dest: hash_code.prefix_free)
  have 3: "length (ix_accounts a) = length (ix_accounts b)" and
    4: "concat (map meta_message (ix_accounts a)) @ len_u32 (ix_data a) @ ix_data a @ r =
        concat (map meta_message (ix_accounts b)) @ len_u32 (ix_data b) @ ix_data b @ s"
    using len_u32_split[OF _ _ 2] ok by (auto simp: ix_fits_def)
  have 5: "ix_accounts a = ix_accounts b" and 6: "len_u32 (ix_data a) @ ix_data a @ r = len_u32 (ix_data b) @ ix_data b @ s"
    using meta_code.counted_list_prefix_free[OF 3 _ _ 4] by (simp_all add: list_all_iff)
  have "length (ix_data a) = length (ix_data b) \<and> ix_data a @ r = ix_data b @ s"
    using len_u32_split[OF _ _ 6] ok by (auto simp: ix_fits_def)
  with 1 5 show "a = b \<and> r = s" by (auto intro: tx_instruction.equality)
qed

lemma ix_message_not_Nil: "ix_message ix \<noteq> []"
  by (simp add: ix_message_def)

lemma tx_message_inj:
  assumes ok: "tx_fits t" "tx_fits t'" and eq: "tx_message t = tx_message t'"
  shows "t\<lparr>tx_signature := []\<rparr> = t'\<lparr>tx_signature := []\<rparr>"
proof -
  from eq have 1: "tx_signer t = tx_signer t'" "recent_blockhash t = recent_blockhash t'"
    "tx_fee t = tx_fee t'" "tx_compute_budget t = tx_compute_budget t'" and
    2: "len_u32 (account_keys t) @ concat (map bytes32 (account_keys t)) @ concat (map ix_message (instructions t)) =
        len_u32 (account_keys t') @ concat (map bytes32 (account_keys t')) @ concat (map ix_message (instructions t'))"
    unfolding tx_message_def by (metis append_splits)+
  have 3: "length (account_keys t) = length (account_keys t')" and
    4: "concat (map bytes32 (account_keys t)) @ concat (map ix_message (instructions t)) =
        concat (map bytes32 (account_keys t')) @ concat (map ix_message (instructions t'))"
    using len_u32_split[OF _ _ 2] ok by (auto simp: tx_fits_def)
  have 5: "account_keys t = account_keys t'" and
    6: "concat (map ix_message (instructions t)) = concat (map ix_message (instructions t'))"
    using hash_code.counted_list_prefix_free[OF 3 _ _ 4] by (simp_all add: list_all_iff)
  have "instructions t = instructions t'"
    using ix_code.stream_inj[OF ix_message_not_Nil _ _ 6] ok by (simp add: tx_fits_def)
  with 1 5 show ?thesis by (auto intro: transaction.equality)
qed

lemma conflicts_with_iff:
  "conflicts_with t u \<longleftrightarrow>
     set (write_accounts t) \<inter> (set (write_accounts u) \<union> set (read_accounts u)) \<noteq> {} \<or>
     set (write_accounts u) \<inter> (set (write_accounts t) \<union> set (read_accounts t)) \<noteq> {}"
  by (auto simp: conflicts_with_def list_ex_iff)

lemma conflicts_with_sym: "conflicts_with t u \<longleftrightarrow> conflicts_with u t"
  by (auto simp: conflicts_with_iff)

subsection \<open>Properties of transactions\<close>

text \<open>
  C30 The transaction hash commits to the whole transaction: two transactions with the same
  hash agree on the signer, the blockhash, the fee, the budget, the account keys and every
  instruction, and can differ in the signature only, unless their two messages collide
  under SHA-256.
\<close>

theorem tx_hash_commits:
  assumes "tx_fits t" "tx_fits t'" "collision_free cx {tx_message t, tx_message t'}"
    and "tx_hash cx t = tx_hash cx t'"
  shows "t\<lparr>tx_signature := []\<rparr> = t'\<lparr>tx_signature := []\<rparr>"
  using assms collision_freeD[OF assms(3), of "tx_message t" "tx_message t'"]
  by (intro tx_message_inj) (auto simp: tx_hash_def)

theorem tx_hash_commits_witness:
  "let t = transaction_new 5 [\<lparr>ix_program_id = 1, ix_accounts = [], ix_data = [1]\<rparr>] 9;
       t' = t\<lparr>tx_signature := [7]\<rparr> in
   t \<noteq> t' \<and> t\<lparr>tx_signature := []\<rparr> = t'\<lparr>tx_signature := []\<rparr>"
proof -
  let ?t = "transaction_new 5 [\<lparr>ix_program_id = 1, ix_accounts = [], ix_data = [1]\<rparr>] 9"
  let ?t' = "?t\<lparr>tx_signature := [7]\<rparr>"
  have fits: "tx_fits ?t" "tx_fits ?t'" by (simp_all add: tx_fits_def ix_fits_def transaction_new_def)
  have msg: "tx_message ?t' = tx_message ?t" by (simp add: tx_message_def)
  have "collision_free demo_crypto {tx_message ?t, tx_message ?t'}"
    unfolding msg by (simp add: collision_free_def)
  from tx_hash_commits[OF fits this] show ?thesis
    by (simp add: msg tx_hash_def Let_def) (simp add: transaction_new_def)
qed

text \<open>
  Signing makes a transaction valid: after \<^verbatim>\<open>sign\<close> the signature verifies under the
  key's public key, which is now the signer, and nothing else of the transaction changed.
\<close>

theorem tx_sign_verifies:
  assumes "ed25519_correct cx"
  shows "verify_signature cx (tx_sign cx key tx) \<and>
    tx_sign cx key tx = tx\<lparr>tx_signer := verifying_key cx key, tx_signature := tx_signature (tx_sign cx key tx)\<rparr>"
  using assms
  by (simp add: verify_signature_def tx_sign_def Let_def ed25519_correct_def tx_hash_def tx_message_def)

theorem tx_sign_verifies_witness:
  "verify_signature demo_crypto (tx_sign demo_crypto 42 (transaction_new 5 [] 9))"
  using tx_sign_verifies[OF demo_crypto_correct] by blast

end
