(* ===== verification/Scheduler.thy ===== *)
theory Scheduler
  imports Transaction
begin

text \<open>
  The scheduler (\<^verbatim>\<open>crates/tx-processor/src/scheduler.rs\<close>): pending transactions are packed
  greedily into batches of transactions that do not conflict. Queue lengths (\<^verbatim>\<open>usize\<close>)
  are naturals; compute budgets are 64-bit words, with the wrap-around of the release build.
\<close>

record execution_batch =
  batch_index :: u64
  transactions :: "transaction list"
  total_compute :: u64

record scheduler =
  pending :: "transaction list"
  batches :: "execution_batch list"
  total_scheduled :: u64
  max_batch_size :: nat
  max_batch_compute :: u64

definition scheduler_new :: "nat \<Rightarrow> u64 \<Rightarrow> scheduler" where
  "scheduler_new cap limit =
     \<lparr>pending = [], batches = [], total_scheduled = 0, max_batch_size = cap,
      max_batch_compute = limit\<rparr>"

definition default_solana :: scheduler where
  "default_solana = scheduler_new 128 (200000 * 128)"

definition enqueue :: "transaction \<Rightarrow> scheduler \<Rightarrow> scheduler" where
  "enqueue tx s = s\<lparr>pending := pending s @ [tx]\<rparr>"

definition enqueue_batch :: "transaction list \<Rightarrow> scheduler \<Rightarrow> scheduler" where
  "enqueue_batch txs s = foldl (\<lambda>s tx. enqueue tx s) s txs"

text \<open>
  The state of the inner loop: the batch being built, the keys its transactions write and
  read, and the transactions left for later batches.
\<close>

record batch_builder =
  bb_batch :: execution_batch
  batch_writes :: "pubkey list"
  batch_reads :: "pubkey list"
  still_remaining :: "transaction list"

definition bb_place :: "transaction \<Rightarrow> batch_builder \<Rightarrow> batch_builder" where
  "bb_place tx st =
     st\<lparr>bb_batch := (bb_batch st)\<lparr>transactions := transactions (bb_batch st) @ [tx],
          total_compute := total_compute (bb_batch st) + tx_compute_budget tx\<rparr>,
        batch_writes := batch_writes st @ write_accounts tx,
        batch_reads := batch_reads st @ read_accounts tx\<rparr>"

definition bb_defer :: "transaction \<Rightarrow> batch_builder \<Rightarrow> batch_builder" where
  "bb_defer tx st = st\<lparr>still_remaining := still_remaining st @ [tx]\<rparr>"

definition schedule_step :: "nat \<Rightarrow> u64 \<Rightarrow> batch_builder \<Rightarrow> transaction \<Rightarrow> batch_builder" where
  "schedule_step cap limit st tx =
     (if cap \<le> length (transactions (bb_batch st)) then bb_defer tx st
      else if limit < total_compute (bb_batch st) + tx_compute_budget tx then
        (if transactions (bb_batch st) = [] then bb_place tx st else bb_defer tx st)
      else
        let conflicts = list_ex (\<lambda>w. w \<in> set (batch_writes st) \<or> w \<in> set (batch_reads st)) (write_accounts tx);
            conflicts = (if \<not> conflicts then list_ex (\<lambda>r. r \<in> set (batch_writes st)) (read_accounts tx)
                         else conflicts)
        in if \<not> conflicts then bb_place tx st else bb_defer tx st)"

definition build_batch ::
    "nat \<Rightarrow> u64 \<Rightarrow> u64 \<Rightarrow> transaction list \<Rightarrow> execution_batch \<times> transaction list" where
  "build_batch cap limit i remaining =
     (let st = foldl (schedule_step cap limit)
            \<lparr>bb_batch = \<lparr>batch_index = i, transactions = [], total_compute = 0\<rparr>,
             batch_writes = [], batch_reads = [], still_remaining = []\<rparr> remaining
      in (bb_batch st, still_remaining st))"

lemma schedule_step_length:
  "length (transactions (bb_batch (schedule_step cap limit st tx))) +
   length (still_remaining (schedule_step cap limit st tx)) =
   Suc (length (transactions (bb_batch st)) + length (still_remaining st))"
  by (simp add: schedule_step_def bb_place_def bb_defer_def Let_def)

lemma build_batch_length:
  "build_batch cap limit i remaining = (b, still) \<Longrightarrow>
   length (transactions b) + length still = length remaining"
proof -
  have "length (transactions (bb_batch (foldl (schedule_step cap limit) st txs))) +
      length (still_remaining (foldl (schedule_step cap limit) st txs)) =
      length (transactions (bb_batch st)) + length (still_remaining st) + length txs" for st txs
    by (induction txs arbitrary: st) (simp_all add: schedule_step_length)
  then show "build_batch cap limit i remaining = (b, still) \<Longrightarrow>
   length (transactions b) + length still = length remaining"
    by (auto simp: build_batch_def Let_def)
qed

lemma build_batch_shrinks:
  "(b, still) = build_batch cap limit i remaining \<Longrightarrow> transactions b \<noteq> [] \<Longrightarrow> length still < length remaining"
  using build_batch_length[of cap limit i remaining b still] by (cases "transactions b") auto

text \<open>The outer loop ends because every further round starts with a non-empty batch taken out.\<close>

function schedule_loop :: "u64 \<Rightarrow> transaction list \<Rightarrow> scheduler \<Rightarrow> scheduler" where
  "schedule_loop i remaining s =
     (if remaining = [] then s
      else case build_batch (max_batch_size s) (max_batch_compute s) i remaining of
        (b, still) \<Rightarrow>
          if transactions b = [] then s\<lparr>pending := pending s @ still\<rparr>
          else schedule_loop (i + 1) still
            (s\<lparr>total_scheduled := total_scheduled s + of_nat (length (transactions b)),
               batches := batches s @ [b]\<rparr>))"
  by pat_completeness auto
termination
  by (relation "measure (\<lambda>(i, remaining, s). length remaining)") (auto dest: build_batch_shrinks)

declare schedule_loop.simps [simp del]

definition schedule :: "scheduler \<Rightarrow> scheduler" where
  "schedule s = schedule_loop (of_nat (length (batches s))) (pending s) (s\<lparr>pending := []\<rparr>)"

definition next_batch :: "scheduler \<Rightarrow> execution_batch option \<times> scheduler" where
  "next_batch s =
     (case batches s of
        [] \<Rightarrow> (None, s)
      | b # bs \<Rightarrow> (Some b, s\<lparr>batches := bs\<rparr>))"

definition peek_batch :: "scheduler \<Rightarrow> execution_batch option" where
  "peek_batch s = list_get (batches s) 0"

definition is_idle :: "scheduler \<Rightarrow> bool" where
  "is_idle s \<longleftrightarrow> pending s = [] \<and> batches s = []"

definition drain_remaining :: "scheduler \<Rightarrow> transaction list \<times> scheduler" where
  "drain_remaining s = (pending s, s\<lparr>pending := []\<rparr>)"

record scheduler_stats =
  ss_pending :: nat
  ss_batches :: nat
  ss_total_scheduled :: u64

definition scheduler_stats_of :: "scheduler \<Rightarrow> scheduler_stats" where
  "scheduler_stats_of s = \<lparr>ss_pending = length (pending s), ss_batches = length (batches s),
     ss_total_scheduled = total_scheduled s\<rparr>"

subsection \<open>Invariant of the inner loop\<close>

lemma schedule_loop_Nil: "schedule_loop i [] s = s"
  by (subst schedule_loop.simps) simp

lemma schedule_loop_stuck:
  "remaining \<noteq> [] \<Longrightarrow> build_batch (max_batch_size s) (max_batch_compute s) i remaining = (b, still) \<Longrightarrow>
   transactions b = [] \<Longrightarrow> schedule_loop i remaining s = s\<lparr>pending := pending s @ still\<rparr>"
  by (subst schedule_loop.simps) simp

lemma schedule_loop_next:
  "remaining \<noteq> [] \<Longrightarrow> build_batch (max_batch_size s) (max_batch_compute s) i remaining = (b, still) \<Longrightarrow>
   transactions b \<noteq> [] \<Longrightarrow> schedule_loop i remaining s = schedule_loop (i + 1) still
     (s\<lparr>total_scheduled := total_scheduled s + of_nat (length (transactions b)), batches := batches s @ [b]\<rparr>)"
  by (subst schedule_loop.simps) simp

definition batch_ok :: "nat \<Rightarrow> execution_batch \<Rightarrow> bool" where
  "batch_ok cap b \<longleftrightarrow>
     length (transactions b) \<le> cap \<and>
     sorted_wrt (\<lambda>t u. \<not> conflicts_with t u) (transactions b) \<and>
     total_compute b = sum_list (map tx_compute_budget (transactions b))"

text \<open>The compute cap, on exact sums: a batch over the cap holds a single transaction.\<close>

definition batch_compute :: "execution_batch \<Rightarrow> nat" where
  "batch_compute b = sum_list (map (\<lambda>t. unat (tx_compute_budget t)) (transactions b))"

definition within_cap :: "u64 \<Rightarrow> execution_batch \<Rightarrow> bool" where
  "within_cap limit b \<longleftrightarrow> batch_compute b \<le> unat limit \<or> length (transactions b) \<le> 1"

definition bb_inv :: "nat \<Rightarrow> transaction list \<Rightarrow> batch_builder \<Rightarrow> bool" where
  "bb_inv cap seen st \<longleftrightarrow>
     batch_ok cap (bb_batch st) \<and>
     set (batch_writes st) = (\<Union>t\<in>set (transactions (bb_batch st)). set (write_accounts t)) \<and>
     set (batch_reads st) = (\<Union>t\<in>set (transactions (bb_batch st)). set (read_accounts t)) \<and>
     mset (transactions (bb_batch st)) + mset (still_remaining st) = mset seen"

lemma bb_inv_defer: "bb_inv cap seen st \<Longrightarrow> bb_inv cap (seen @ [tx]) (bb_defer tx st)"
  by (simp add: bb_inv_def bb_defer_def)

lemma bb_inv_place:
  assumes "bb_inv cap seen st" "length (transactions (bb_batch st)) < cap"
    and "\<And>t. t \<in> set (transactions (bb_batch st)) \<Longrightarrow> \<not> conflicts_with t tx"
  shows "bb_inv cap (seen @ [tx]) (bb_place tx st)"
  using assms by (auto simp: bb_inv_def bb_place_def batch_ok_def sorted_wrt_append)

lemma bb_inv_step:
  assumes inv: "bb_inv cap seen st"
  shows "bb_inv cap (seen @ [tx]) (schedule_step cap limit st tx)"
proof -
  have free: "\<not> conflicts_with t tx"
    if "t \<in> set (transactions (bb_batch st))"
      "\<not> list_ex (\<lambda>w. w \<in> set (batch_writes st) \<or> w \<in> set (batch_reads st)) (write_accounts tx)"
      "\<not> list_ex (\<lambda>r. r \<in> set (batch_writes st)) (read_accounts tx)" for t
    using that inv by (auto simp: bb_inv_def list_ex_iff conflicts_with_iff)
  show ?thesis
    using inv free
    by (auto simp: schedule_step_def Let_def not_le intro!: bb_inv_defer bb_inv_place)
qed

lemma build_batch_inv:
  assumes "build_batch cap limit i remaining = (b, still)"
  shows "batch_ok cap b \<and> mset (transactions b) + mset still = mset remaining \<and> batch_index b = i"
proof -
  let ?st0 = "\<lparr>bb_batch = \<lparr>batch_index = i, transactions = [], total_compute = 0\<rparr>,
             batch_writes = [], batch_reads = [], still_remaining = []\<rparr>"
  have "bb_inv cap seen st \<Longrightarrow> bb_inv cap (seen @ txs) (foldl (schedule_step cap limit) st txs)" for seen st txs
  proof (induction txs arbitrary: seen st)
    case (Cons tx txs)
    from Cons.IH[OF bb_inv_step[OF Cons.prems]] show ?case by simp
  qed simp
  from this[of "[]" ?st0 remaining]
  have inv: "bb_inv cap remaining (foldl (schedule_step cap limit) ?st0 remaining)"
    by (simp add: bb_inv_def batch_ok_def)
  have "batch_index (bb_batch (foldl (schedule_step cap limit) st txs)) = batch_index (bb_batch st)" for st txs
    by (induction txs arbitrary: st) (auto simp: schedule_step_def bb_place_def bb_defer_def Let_def)
  with inv assms show ?thesis by (auto simp: build_batch_def Let_def bb_inv_def)
qed

text \<open>The first transaction of a round is always placed.\<close>

lemma build_batch_progress:
  assumes "0 < cap" "build_batch cap limit i (tx # txs) = (b, still)"
  shows "\<exists>rest. transactions b = tx # rest"
proof -
  have grow: "\<exists>rest. transactions (bb_batch (foldl (schedule_step cap limit) st us)) = transactions (bb_batch st) @ rest" for st us
  proof (induction us arbitrary: st)
    case (Cons u us)
    have "\<exists>rest. transactions (bb_batch (schedule_step cap limit st u)) = transactions (bb_batch st) @ rest"
      by (simp add: schedule_step_def bb_place_def bb_defer_def Let_def)
    then show ?case using Cons.IH[of "schedule_step cap limit st u"] by auto
  qed simp
  show ?thesis
    using assms grow[of "schedule_step cap limit \<lparr>bb_batch = \<lparr>batch_index = i, transactions = [], total_compute = 0\<rparr>,
             batch_writes = [], batch_reads = [], still_remaining = []\<rparr> tx" txs]
    by (auto simp: build_batch_def Let_def schedule_step_def bb_place_def list_ex_iff split: if_splits)
qed

subsection \<open>The outer loop\<close>

definition scheduled :: "scheduler \<Rightarrow> transaction list" where
  "scheduled s = concat (map transactions (batches s))"

definition loop_result :: "scheduler \<Rightarrow> transaction list \<Rightarrow> execution_batch list \<Rightarrow> scheduler \<Rightarrow> bool" where
  "loop_result s remaining bs s' \<longleftrightarrow>
    batches s' = batches s @ bs \<and>
    list_all (\<lambda>b. batch_ok (max_batch_size s) b \<and> transactions b \<noteq> []) bs \<and>
    mset (concat (map transactions bs)) + mset (pending s') = mset (pending s) + mset remaining \<and>
    (0 < max_batch_size s \<longrightarrow> pending s' = pending s) \<and>
    total_scheduled s' = total_scheduled s + of_nat (length (concat (map transactions bs)))"

lemma loop_result_next:
  assumes "loop_result (s\<lparr>total_scheduled := total_scheduled s + of_nat (length (transactions b)),
      batches := batches s @ [b]\<rparr>) still bs s'"
    and "batch_ok (max_batch_size s) b" "transactions b \<noteq> []"
    and "mset (transactions b) + mset still = mset remaining"
  shows "loop_result s remaining (b # bs) s'"
proof -
  have "mset (concat (map transactions (b # bs))) + mset (pending s') =
      mset (transactions b) + (mset (concat (map transactions bs)) + mset (pending s'))"
    by (simp add: ac_simps)
  also have "\<dots> = mset (pending s) + mset remaining"
    using assms(1) unfolding loop_result_def assms(4)[symmetric] by (simp add: ac_simps)
  finally show ?thesis using assms(1-3) by (simp add: loop_result_def)
qed

lemma schedule_loop_ok: "\<exists>bs. loop_result s remaining bs (schedule_loop i remaining s)"
proof (induction i remaining s rule: schedule_loop.induct)
  case (1 i remaining s)
  obtain b still where b: "build_batch (max_batch_size s) (max_batch_compute s) i remaining = (b, still)"
    by (cases "build_batch (max_batch_size s) (max_batch_compute s) i remaining")
  note inv = build_batch_inv[OF b]
  consider "remaining = []" | "remaining \<noteq> []" "transactions b = []" | "remaining \<noteq> []" "transactions b \<noteq> []"
    by blast
  then show ?case
  proof cases
    case 1
    then show ?thesis by (intro exI[of _ "[]"]) (simp add: schedule_loop_Nil loop_result_def)
  next
    case 2
    then obtain tx txs where "remaining = tx # txs" by (cases remaining) auto
    then have "max_batch_size s = 0"
      using build_batch_progress[of "max_batch_size s" "max_batch_compute s" i tx txs b still] b 2(2) by auto
    then show ?thesis
      using inv 2 by (intro exI[of _ "[]"]) (simp add: schedule_loop_stuck[OF 2(1) b 2(2)] loop_result_def)
  next
    case 3
    then show ?thesis
      using 1[OF 3(1) b[symmetric] 3(2)] inv unfolding schedule_loop_next[OF 3(1) b 3(2)]
      by (blast intro: loop_result_next)
  qed
qed

subsection \<open>The compute cap\<close>

lemma within_cap_step:
  assumes "within_cap limit (bb_batch st)" "unat (total_compute (bb_batch st)) = batch_compute (bb_batch st)"
    and "batch_compute (bb_batch st) < 2 ^ 63" "unat (tx_compute_budget tx) < 2 ^ 63" "unat limit < 2 ^ 63"
  shows "within_cap limit (bb_batch (schedule_step cap limit st tx)) \<and>
    unat (total_compute (bb_batch (schedule_step cap limit st tx))) = batch_compute (bb_batch (schedule_step cap limit st tx)) \<and>
    batch_compute (bb_batch (schedule_step cap limit st tx)) < 2 ^ 63"
proof -
  let ?b = "bb_batch st"
  have sum: "unat (total_compute ?b + tx_compute_budget tx) = batch_compute ?b + unat (tx_compute_budget tx)"
    using assms(2-4) by (subst unat_add_lem[THEN iffD1]) simp_all
  have place: "batch_compute (bb_batch (bb_place tx st)) = batch_compute ?b + unat (tx_compute_budget tx)"
    by (simp add: bb_place_def batch_compute_def)
  have deferred: "bb_batch (bb_defer tx st) = ?b" by (simp add: bb_defer_def)
  have tot: "total_compute (bb_batch (bb_place tx st)) = total_compute ?b + tx_compute_budget tx"
    by (simp add: bb_place_def)
  show ?thesis
  proof (cases "limit < total_compute ?b + tx_compute_budget tx")
    case True
    show ?thesis
    proof (cases "transactions ?b = [] \<and> \<not> cap \<le> length (transactions ?b)")
      case empty: True
      then have "batch_compute ?b = 0" by (simp add: batch_compute_def)
      with empty True show ?thesis
        using assms(4) sum place tot
        by (simp add: schedule_step_def within_cap_def) (simp add: bb_place_def)
    next
      case False
      then show ?thesis using True assms deferred by (auto simp: schedule_step_def)
    qed
  next
    case False
    then have "batch_compute ?b + unat (tx_compute_budget tx) \<le> unat limit"
      using sum by (simp add: word_le_nat_alt not_less)
    then show ?thesis
      using False assms sum place tot deferred
      by (auto simp: schedule_step_def Let_def within_cap_def)
  qed
qed

lemma build_batch_within_cap:
  assumes "build_batch cap limit i remaining = (b, still)" "unat limit < 2 ^ 63"
    and "\<forall>t\<in>set remaining. unat (tx_compute_budget t) < 2 ^ 63"
  shows "within_cap limit b"
proof -
  let ?ok = "\<lambda>st. within_cap limit (bb_batch st) \<and> unat (total_compute (bb_batch st)) = batch_compute (bb_batch st) \<and>
    batch_compute (bb_batch st) < 2 ^ 63"
  have "?ok st \<Longrightarrow> \<forall>t\<in>set txs. unat (tx_compute_budget t) < 2 ^ 63 \<Longrightarrow> ?ok (foldl (schedule_step cap limit) st txs)" for st txs
  proof (induction txs arbitrary: st)
    case (Cons t ts)
    then show ?case using within_cap_step[of limit st t cap] assms(2) by simp
  qed simp
  from this[of "\<lparr>bb_batch = \<lparr>batch_index = i, transactions = [], total_compute = 0\<rparr>,
             batch_writes = [], batch_reads = [], still_remaining = []\<rparr>" remaining]
  show ?thesis using assms(1,3) by (auto simp: build_batch_def Let_def within_cap_def batch_compute_def)
qed

lemma schedule_loop_within_cap:
  "unat (max_batch_compute s) < 2 ^ 63 \<Longrightarrow> \<forall>t\<in>set remaining. unat (tx_compute_budget t) < 2 ^ 63 \<Longrightarrow>
   list_all (within_cap (max_batch_compute s)) (batches s) \<Longrightarrow>
   list_all (within_cap (max_batch_compute s)) (batches (schedule_loop i remaining s))"
proof (induction i remaining s rule: schedule_loop.induct)
  case (1 i remaining s)
  obtain b still where b: "build_batch (max_batch_size s) (max_batch_compute s) i remaining = (b, still)"
    by (cases "build_batch (max_batch_size s) (max_batch_compute s) i remaining")
  show ?case
  proof (cases "remaining = [] \<or> transactions b = []")
    case True
    then show ?thesis using 1(4) schedule_loop_stuck[OF _ b]
      by (cases "remaining = []") (auto simp: schedule_loop_Nil)
  next
    case False
    have "set still \<subseteq> set remaining"
      using build_batch_inv[OF b] by (metis mset_subset_eq_add_right set_mset_mono set_mset_mset)
    then show ?thesis
      using 1(1)[OF _ b[symmetric]] False 1(2-4) build_batch_within_cap[OF b]
      by (auto simp: schedule_loop_next[OF _ b])
  qed
qed

subsection \<open>Properties of the scheduler\<close>

definition demo_tx :: "pubkey \<Rightarrow> u64 \<Rightarrow> transaction" where
  "demo_tx k units = \<lparr>tx_signature = [], tx_signer = k, account_keys = [k],
     instructions = [\<lparr>ix_program_id = 1, ix_accounts = [\<lparr>tm_index = 0, tm_signer = True, tm_writable = True\<rparr>],
       ix_data = []\<rparr>], recent_blockhash = 0, tx_compute_budget = units, tx_fee = 5000\<rparr>"

lemma demo_tx_accounts [simp]: "write_accounts (demo_tx k u) = [k]" "read_accounts (demo_tx k u) = []"
  by (simp_all add: demo_tx_def write_accounts_def read_accounts_def resolve_def list_get_def List.map_filter_def)

text \<open>
  C11 Scheduling is sound and complete: \<^verbatim>\<open>schedule\<close> appends batches that are non-empty, no
  larger than the batch size, and whose transactions pairwise do not conflict; no pending
  transaction is lost or duplicated; and unless the batch size is zero the pending queue is
  empty afterwards.
\<close>

theorem schedule_sound:
  "\<exists>bs. batches (schedule s) = batches s @ bs \<and>
    (\<forall>b\<in>set bs. transactions b \<noteq> [] \<and> length (transactions b) \<le> max_batch_size s \<and>
      (\<forall>i j. i < length (transactions b) \<longrightarrow> j < length (transactions b) \<longrightarrow> i \<noteq> j \<longrightarrow>
        \<not> conflicts_with (transactions b ! i) (transactions b ! j))) \<and>
    mset (concat (map transactions bs)) + mset (pending (schedule s)) = mset (pending s) \<and>
    (0 < max_batch_size s \<longrightarrow> pending (schedule s) = [])"
proof -
  obtain bs where bs: "loop_result (s\<lparr>pending := []\<rparr>) (pending s) bs (schedule s)"
    unfolding schedule_def using schedule_loop_ok by blast
  have "\<not> conflicts_with (transactions b ! i) (transactions b ! j)"
    if "b \<in> set bs" "i < length (transactions b)" "j < length (transactions b)" "i \<noteq> j" for b i j
  proof -
    have "sorted_wrt (\<lambda>t u. \<not> conflicts_with t u) (transactions b)"
      using bs that(1) by (auto simp: loop_result_def list_all_iff batch_ok_def)
    then show ?thesis
      using that conflicts_with_sym[of "transactions b ! i" "transactions b ! j"]
      by (cases i j rule: linorder_cases) (auto simp: sorted_wrt_iff_nth_less)
  qed
  with bs show ?thesis
    by (intro exI[of _ bs]) (auto simp: loop_result_def list_all_iff batch_ok_def)
qed

theorem schedule_sound_witness:
  "pending (schedule (enqueue_batch [demo_tx 1 5, demo_tx 1 6] (scheduler_new 4 100))) = []"
proof -
  let ?s = "enqueue_batch [demo_tx 1 5, demo_tx 1 6] (scheduler_new 4 100)"
  have "0 < max_batch_size ?s" by (simp add: enqueue_batch_def enqueue_def scheduler_new_def)
  then show ?thesis using schedule_sound[of ?s] by blast
qed

text \<open>
  The compute cap holds when nothing wraps: if the cap and every pending budget are below
  \<open>2 ^ 63\<close>, the budgets of each new batch add up to at most the cap, except for a
  batch of one transaction that exceeds the cap on its own.
\<close>

theorem schedule_compute_cap:
  assumes "batches s = []" "unat (max_batch_compute s) < 2 ^ 63"
    and "\<forall>t\<in>set (pending s). unat (tx_compute_budget t) < 2 ^ 63"
  shows "\<forall>b\<in>set (batches (schedule s)).
    batch_compute b \<le> unat (max_batch_compute s) \<or> length (transactions b) = 1"
proof -
  have "list_all (within_cap (max_batch_compute s)) (batches (schedule s))"
    unfolding schedule_def using schedule_loop_within_cap[of "s\<lparr>pending := []\<rparr>" "pending s"] assms by simp
  moreover obtain bs where "loop_result (s\<lparr>pending := []\<rparr>) (pending s) bs (schedule s)"
    unfolding schedule_def using schedule_loop_ok by blast
  ultimately show ?thesis
    using assms(1) by (auto simp: loop_result_def list_all_iff within_cap_def le_Suc_eq)
qed

theorem schedule_compute_cap_witness:
  "list_all (\<lambda>b. batch_compute b \<le> 100 \<or> length (transactions b) = 1)
    (batches (schedule (enqueue_batch [demo_tx 1 70, demo_tx 2 60] (scheduler_new 4 100))))"
  using schedule_compute_cap[of "enqueue_batch [demo_tx 1 70, demo_tx 2 60] (scheduler_new 4 100)"]
  by (simp add: enqueue_batch_def enqueue_def scheduler_new_def demo_tx_def list_all_iff)

text \<open>
  The compute check can be bypassed by wrap-around: after a transaction that claims the
  largest 64-bit budget, the sum \<^verbatim>\<open>total_compute + tx_compute\<close> wraps, and a further
  transaction is packed into the same batch although the batch is far over the cap.
\<close>

theorem schedule_cap_wraps:
  assumes "tx_compute_budget t = - 1" "tx_compute_budget u = 1" "\<not> conflicts_with t u"
    and "limit < - 1" "2 \<le> cap"
  shows "map transactions (batches (schedule (enqueue_batch [t, u] (scheduler_new cap limit)))) = [[t, u]]"
proof -
  let ?s = "enqueue_batch [t, u] (scheduler_new cap limit)\<lparr>pending := []\<rparr>"
  have free: "\<not> list_ex (\<lambda>w. w \<in> set (write_accounts t) \<or> w \<in> set (read_accounts t)) (write_accounts u)"
    "\<not> list_ex (\<lambda>r. r \<in> set (write_accounts t)) (read_accounts u)"
    using assms(3) by (auto simp: conflicts_with_iff list_ex_iff)
  have "build_batch cap limit 0 [t, u] = (\<lparr>batch_index = 0, transactions = [t, u], total_compute = 0\<rparr>, [])"
    using assms free by (simp add: build_batch_def schedule_step_def bb_place_def Let_def)
  then have "build_batch (max_batch_size ?s) (max_batch_compute ?s) 0 [t, u] =
      (\<lparr>batch_index = 0, transactions = [t, u], total_compute = 0\<rparr>, [])"
    by (simp add: enqueue_batch_def enqueue_def scheduler_new_def)
  from schedule_loop_next[OF _ this] show ?thesis
    by (simp add: schedule_def schedule_loop_Nil enqueue_batch_def enqueue_def scheduler_new_def)
qed

theorem schedule_cap_wraps_witness:
  "map transactions (batches (schedule (enqueue_batch [demo_tx 1 (- 1), demo_tx 2 1] (scheduler_new 4 100)))) =
     [[demo_tx 1 (- 1), demo_tx 2 1]]"
  by (rule schedule_cap_wraps) (simp_all add: conflicts_with_iff, simp_all add: demo_tx_def)

end
