(* ===== verification/Instruction.thy ===== *)
theory Instruction
  imports AccountsDB
begin

text \<open>
  Instructions, their results and errors, and the wire format of the system and token
  instructions (\<^verbatim>\<open>crates/program-executor/src/lib.rs\<close> and \<^verbatim>\<open>instruction.rs\<close>).
  Account indices (\<^verbatim>\<open>usize\<close>) are naturals. The question-mark operator of the handlers is
  \<open>try_in\<close>: it leaves with the error and the state reached so far.
\<close>

subsection \<open>Errors\<close>

definition DEFAULT_COMPUTE_UNITS :: u64 where "DEFAULT_COMPUTE_UNITS = 150000"

definition MAX_COMPUTE_UNITS :: u64 where "MAX_COMPUTE_UNITS = 200000"

datatype instruction_error =
    InsufficientComputeUnits
  | InvalidInstructionData string
  | AccountNotFound
  | AccountNotWritable
  | InsufficientFunds u64 u64
  | ProgramError string
  | InvalidAccountOwner
  | IncorrectAuthority
  | MintMismatch
  | DataSizeTooLarge u64 u64
  | ArithmeticOverflow
  | Custom u32 string

fun show_instruction_error :: "instruction_error \<Rightarrow> string" where
  "show_instruction_error InsufficientComputeUnits = ''Insufficient compute units''"
| "show_instruction_error (InvalidInstructionData msg) = ''Invalid instruction data: '' @ msg"
| "show_instruction_error AccountNotFound = ''Account not found''"
| "show_instruction_error AccountNotWritable = ''Account not writable''"
| "show_instruction_error (InsufficientFunds needed available) =
     ''Insufficient funds: need '' @ show_word needed @ '', have '' @ show_word available"
| "show_instruction_error (ProgramError msg) = ''Program error: '' @ msg"
| "show_instruction_error InvalidAccountOwner = ''Invalid account owner''"
| "show_instruction_error IncorrectAuthority =
     ''Incorrect authority: signer may not perform this action''"
| "show_instruction_error MintMismatch = ''Mint mismatch''"
| "show_instruction_error (DataSizeTooLarge requested limit) =
     ''Data size '' @ show_word requested @ '' exceeds maximum '' @ show_word limit"
| "show_instruction_error ArithmeticOverflow = ''Arithmetic overflow''"
| "show_instruction_error (Custom code msg) = ''Custom error '' @ show_word code @ '': '' @ msg"

subsection \<open>Instructions and account references\<close>

record account_meta =
  meta_index :: nat
  is_signer :: bool
  is_writable :: bool

definition account_meta_new :: "nat \<Rightarrow> bool \<Rightarrow> bool \<Rightarrow> account_meta" where
  "account_meta_new i s w = \<lparr>meta_index = i, is_signer = s, is_writable = w\<rparr>"

definition readonly :: "nat \<Rightarrow> account_meta" where
  "readonly i = \<lparr>meta_index = i, is_signer = False, is_writable = False\<rparr>"

definition writable :: "nat \<Rightarrow> account_meta" where
  "writable i = \<lparr>meta_index = i, is_signer = False, is_writable = True\<rparr>"

definition signer_writable :: "nat \<Rightarrow> account_meta" where
  "signer_writable i = \<lparr>meta_index = i, is_signer = True, is_writable = True\<rparr>"

record instruction =
  program_id :: pubkey
  account_metas :: "account_meta list"
  ins_data :: bytes

definition resolve_account_key :: "nat \<Rightarrow> pubkey list \<Rightarrow> instruction_error + pubkey" where
  "resolve_account_key i account_keys = ok_or (list_get account_keys i) AccountNotFound"

definition require_signer ::
    "account_meta \<Rightarrow> pubkey \<Rightarrow> pubkey list \<Rightarrow> instruction_error + pubkey" where
  "require_signer meta signer account_keys =
     (case resolve_account_key (meta_index meta) account_keys of
        Inl e \<Rightarrow> Inl e
      | Inr key \<Rightarrow> if key \<noteq> signer then Inl IncorrectAuthority else Inr key)"

record instruction_result =
  ir_success :: bool
  compute_units_consumed :: u64
  return_data :: "bytes option"
  ir_error :: "instruction_error option"
  ir_logs :: "string list"

definition with_logs ::
    "bool \<Rightarrow> u64 \<Rightarrow> instruction_error option \<Rightarrow> string list \<Rightarrow> instruction_result" where
  "with_logs success compute_units error logs =
     \<lparr>ir_success = success, compute_units_consumed = compute_units, return_data = None,
      ir_error = error, ir_logs = logs\<rparr>"

definition ir_success_new :: "u64 \<Rightarrow> instruction_result" where
  "ir_success_new compute_units =
     \<lparr>ir_success = True, compute_units_consumed = compute_units, return_data = None,
      ir_error = None, ir_logs = []\<rparr>"

definition ir_failure_new :: "instruction_error \<Rightarrow> u64 \<Rightarrow> instruction_result" where
  "ir_failure_new error compute_units =
     \<lparr>ir_success = False, compute_units_consumed = compute_units, return_data = None,
      ir_error = Some error, ir_logs = []\<rparr>"

definition with_log :: "instruction_result \<Rightarrow> string \<Rightarrow> instruction_result" where
  "with_log r msg = r\<lparr>ir_logs := ir_logs r @ [msg]\<rparr>"

definition with_return_data :: "instruction_result \<Rightarrow> bytes \<Rightarrow> instruction_result" where
  "with_return_data r data = r\<lparr>return_data := Some data\<rparr>"

subsection \<open>System instructions\<close>

datatype system_instruction =
    Sys_Transfer u64
  | Sys_CreateAccount u64 u64 pubkey
  | Sys_Assign pubkey
  | Sys_NonceInitialize

definition read_u64 :: "nat \<Rightarrow> bytes \<Rightarrow> u64" where
  "read_u64 i data = le_val (take 8 (drop i data))"

definition read_key :: "nat \<Rightarrow> bytes \<Rightarrow> pubkey" where
  "read_key i data = of_bytes32 (take 32 (drop i data))"

definition system_from_data :: "bytes \<Rightarrow> instruction_error + system_instruction" where
  "system_from_data data =
     (case data of
        [] \<Rightarrow> Inl (InvalidInstructionData ''Empty instruction data'')
      | tag # _ \<Rightarrow>
          if tag = 2 then
            (if length data < 9 then Inl (InvalidInstructionData ''Transfer requires 8 bytes'')
             else Inr (Sys_Transfer (read_u64 1 data)))
          else if tag = 0 then
            (if length data < 49 then Inl (InvalidInstructionData ''CreateAccount requires 49 bytes'')
             else Inr (Sys_CreateAccount (read_u64 1 data) (read_u64 9 data) (read_key 17 data)))
          else if tag = 1 then
            (if length data < 33 then Inl (InvalidInstructionData ''Assign requires 32 bytes'')
             else Inr (Sys_Assign (read_key 1 data)))
          else if tag = 7 then Inr Sys_NonceInitialize
          else Inl (InvalidInstructionData (''Unknown system instruction: '' @ show_word tag)))"

fun system_to_data :: "system_instruction \<Rightarrow> bytes" where
  "system_to_data (Sys_Transfer amount) = 2 # le_u64 amount"
| "system_to_data (Sys_CreateAccount amount space own) =
     0 # le_u64 amount @ le_u64 space @ bytes32 own"
| "system_to_data (Sys_Assign own) = 1 # bytes32 own"
| "system_to_data Sys_NonceInitialize = [7]"

subsection \<open>Token instructions\<close>

datatype token_instruction =
    Tok_InitializeMint
  | Tok_InitializeAccount pubkey
  | Tok_Transfer u64
  | Tok_MintTo u64
  | Tok_Burn u64

definition token_from_data :: "bytes \<Rightarrow> instruction_error + token_instruction" where
  "token_from_data data =
     (case data of
        [] \<Rightarrow> Inl (InvalidInstructionData ''Empty token instruction'')
      | tag # _ \<Rightarrow>
          if tag = 0 then
            (if length data < 33
             then Inl (InvalidInstructionData ''InitializeAccount requires 32-byte mint'')
             else Inr (Tok_InitializeAccount (read_key 1 data)))
          else if tag = 1 then Inr Tok_InitializeMint
          else if tag = 3 then
            (if length data < 9 then Inl (InvalidInstructionData ''Transfer requires 8 bytes'')
             else Inr (Tok_Transfer (read_u64 1 data)))
          else if tag = 7 then
            (if length data < 9 then Inl (InvalidInstructionData ''MintTo requires 8 bytes'')
             else Inr (Tok_MintTo (read_u64 1 data)))
          else if tag = 8 then
            (if length data < 9 then Inl (InvalidInstructionData ''Burn requires 8 bytes'')
             else Inr (Tok_Burn (read_u64 1 data)))
          else Inl (InvalidInstructionData (''Unknown token instruction: '' @ show_word tag)))"

fun token_to_data :: "token_instruction \<Rightarrow> bytes" where
  "token_to_data Tok_InitializeMint = [1]"
| "token_to_data (Tok_InitializeAccount mint) = 0 # bytes32 mint"
| "token_to_data (Tok_Transfer amount) = 3 # le_u64 amount"
| "token_to_data (Tok_MintTo amount) = 7 # le_u64 amount"
| "token_to_data (Tok_Burn amount) = 8 # le_u64 amount"

subsection \<open>The state the programs run on\<close>

record compute_budget =
  max_units :: u64
  consumed :: u64

definition compute_budget_new :: "u64 \<Rightarrow> compute_budget" where
  "compute_budget_new m = \<lparr>max_units = m, consumed = 0\<rparr>"

definition consume :: "u64 \<Rightarrow> compute_budget \<Rightarrow> (instruction_error + unit) \<times> compute_budget" where
  "consume units b =
     (let b' = b\<lparr>consumed := consumed b + units\<rparr>
      in (if max_units b' < consumed b' then Inl InsufficientComputeUnits else Inr (), b'))"

definition remaining :: "compute_budget \<Rightarrow> u64" where
  "remaining b = saturating_sub (max_units b) (consumed b)"

text \<open>
  The mutable references every program handler receives: the accounts, the budget and the log.
\<close>

record vm =
  vm_db :: accounts_db
  budget :: compute_budget
  vm_logs :: "string list"

definition try_in ::
    "(instruction_error + 'a) \<Rightarrow> vm \<Rightarrow> ('a \<Rightarrow> (instruction_error + 'b) \<times> vm) \<Rightarrow>
     (instruction_error + 'b) \<times> vm" where
  "try_in r s k = (case r of Inl e \<Rightarrow> (Inl e, s) | Inr x \<Rightarrow> k x)"

definition vm_charge :: "u64 \<Rightarrow> vm \<Rightarrow> (vm \<Rightarrow> (instruction_error + 'b) \<times> vm) \<Rightarrow>
     (instruction_error + 'b) \<times> vm" where
  "vm_charge units s k =
     (case consume units (budget s) of
        (r, b) \<Rightarrow> try_in r (s\<lparr>budget := b\<rparr>) (\<lambda>_. k (s\<lparr>budget := b\<rparr>)))"

definition vm_store :: "('z) db_ext_scheme \<Rightarrow> pubkey \<Rightarrow> account \<Rightarrow> vm \<Rightarrow> vm" where
  "vm_store cx pk a s = s\<lparr>vm_db := store cx pk a (vm_db s)\<rparr>"

definition vm_log :: "string \<Rightarrow> vm \<Rightarrow> vm" where
  "vm_log msg s = s\<lparr>vm_logs := vm_logs s @ [msg]\<rparr>"

text \<open>The keys the metas of an instruction resolve to.\<close>

definition resolved_keys :: "account_meta list \<Rightarrow> pubkey list \<Rightarrow> pubkey set" where
  "resolved_keys metas keys =
     set (map (\<lambda>m. keys ! meta_index m) (filter (\<lambda>m. meta_index m < length keys) metas))"

text \<open>
  Two machine states that agree on a set of accounts, and two outcomes that are the same
  up to the accounts outside it.
\<close>

definition vm_agree :: "('z) db_ext_scheme \<Rightarrow> pubkey set \<Rightarrow> vm \<Rightarrow> vm \<Rightarrow> bool" where
  "vm_agree cx K s t \<longleftrightarrow>
     budget s = budget t \<and> vm_logs s = vm_logs t \<and> db_inv cx (vm_db s) \<and> db_inv cx (vm_db t) \<and>
     (\<forall>k\<in>K. load cx (vm_db s) k = load cx (vm_db t) k)"

definition vm_sim :: "('z) db_ext_scheme \<Rightarrow> pubkey set \<Rightarrow>
    (instruction_error + 'a) \<times> vm \<Rightarrow> (instruction_error + 'a) \<times> vm \<Rightarrow> bool" where
  "vm_sim cx K x y \<longleftrightarrow> fst x = fst y \<and> vm_agree cx K (snd x) (snd y)"

subsection \<open>Lemmas shared by the program handlers\<close>

named_theorems vm_simps

lemma try_in_Inr [vm_simps]: "try_in r s k = (Inr y, t) \<longleftrightarrow> (\<exists>x. r = Inr x \<and> k x = (Inr y, t))"
  by (cases r) (auto simp: try_in_def)

lemma try_in_Inl [vm_simps]:
  "try_in r s k = (Inl e, t) \<longleftrightarrow> (r = Inl e \<and> t = s \<or> (\<exists>x. r = Inr x \<and> k x = (Inl e, t)))"
  by (cases r) (auto simp: try_in_def)

lemma try_in_simps [simp]: "try_in (Inr x) s k = k x" "try_in (Inl e) s k = (Inl e, s)"
  by (simp_all add: try_in_def)

lemma vm_charge_Inr [vm_simps]:
  "vm_charge u s k = (Inr y, t) \<longleftrightarrow>
   fst (consume u (budget s)) = Inr () \<and> k (s\<lparr>budget := snd (consume u (budget s))\<rparr>) = (Inr y, t)"
  by (simp add: vm_charge_def vm_simps split: prod.split)

lemma vm_charge_Inl [vm_simps]:
  "vm_charge u s k = (Inl e, t) \<longleftrightarrow>
   fst (consume u (budget s)) = Inl e \<and> t = s\<lparr>budget := snd (consume u (budget s))\<rparr> \<or>
   fst (consume u (budget s)) = Inr () \<and> k (s\<lparr>budget := snd (consume u (budget s))\<rparr>) = (Inl e, t)"
  by (auto simp add: vm_charge_def vm_simps split: prod.splits)

lemma vm_sel [simp]:
  "vm_db (vm_store cx pk a s) = store cx pk a (vm_db s)"
  "budget (vm_store cx pk a s) = budget s" "vm_logs (vm_store cx pk a s) = vm_logs s"
  "vm_db (vm_log m s) = vm_db s" "budget (vm_log m s) = budget s"
  "vm_logs (vm_log m s) = vm_logs s @ [m]"
  by (simp_all add: vm_store_def vm_log_def)

lemma ok_or_Inr [vm_simps]: "ok_or x e = Inr y \<longleftrightarrow> x = Some y"
  by (cases x) (auto simp: ok_or_def)

lemma ok_or_Inl [vm_simps]: "ok_or x e = Inl e' \<longleftrightarrow> x = None \<and> e' = e"
  by (cases x) (auto simp: ok_or_def)

lemma resolve_Inr [vm_simps]:
  "resolve_account_key i keys = Inr k \<longleftrightarrow> i < length keys \<and> k = keys ! i"
  by (auto simp: resolve_account_key_def vm_simps list_get_def)

lemma require_signer_Inr [vm_simps]:
  "require_signer m sg keys = Inr k \<longleftrightarrow> meta_index m < length keys \<and> keys ! meta_index m = sg \<and> k = sg"
  by (auto simp: require_signer_def resolve_account_key_def list_get_def ok_or_def)

lemma resolved_keysI: "i < length metas \<Longrightarrow> meta_index (metas ! i) < length keys \<Longrightarrow>
    keys ! meta_index (metas ! i) \<in> resolved_keys metas keys"
  unfolding resolved_keys_def using nth_mem by fastforce

lemma resolved_key0: "metas \<noteq> [] \<Longrightarrow> meta_index (metas ! 0) < length keys \<Longrightarrow>
    keys ! meta_index (metas ! 0) \<in> resolved_keys metas keys"
  by (rule resolved_keysI) auto

lemma resolved_key_lt: "\<not> length metas < n \<Longrightarrow> i < n \<Longrightarrow> meta_index (metas ! i) < length keys \<Longrightarrow>
    keys ! meta_index (metas ! i) \<in> resolved_keys metas keys"
  by (rule resolved_keysI) auto

text \<open>Rules that follow a handler step by step on two agreeing states.\<close>

named_theorems vm_sim_intros

lemma vm_sim_try [vm_sim_intros]:
  "r1 = r2 \<Longrightarrow> vm_agree cx K s1 s2 \<Longrightarrow> (\<And>x. r2 = Inr x \<Longrightarrow> vm_sim cx K (k1 x) (k2 x)) \<Longrightarrow>
   vm_sim cx K (try_in r1 s1 k1) (try_in r2 s2 k2)"
  by (cases r2) (simp_all add: vm_sim_def)

lemma vm_agree_budget: "vm_agree cx K s1 s2 \<Longrightarrow> vm_agree cx K (s1\<lparr>budget := b\<rparr>) (s2\<lparr>budget := b\<rparr>)"
  by (simp add: vm_agree_def)

lemma vm_sim_charge [vm_sim_intros]:
  assumes "vm_agree cx K s1 s2"
    and "\<And>t1 t2. vm_agree cx K t1 t2 \<Longrightarrow> vm_sim cx K (k1 t1) (k2 t2)"
  shows "vm_sim cx K (vm_charge u s1 k1) (vm_charge u s2 k2)"
proof -
  have "budget s1 = budget s2" using assms(1) by (simp add: vm_agree_def)
  then show ?thesis
    unfolding vm_charge_def
    by (auto intro!: vm_sim_try vm_agree_budget assms split: prod.split)
qed

lemma vm_sim_if [vm_sim_intros]:
  "c1 = c2 \<Longrightarrow> (c2 \<Longrightarrow> vm_sim cx K x1 x2) \<Longrightarrow> (\<not> c2 \<Longrightarrow> vm_sim cx K y1 y2) \<Longrightarrow>
   vm_sim cx K (if c1 then x1 else y1) (if c2 then x2 else y2)"
  by simp

lemma vm_sim_result [vm_sim_intros]: "vm_agree cx K s1 s2 \<Longrightarrow> vm_sim cx K (r, s1) (r, s2)"
  by (simp add: vm_sim_def)

lemma vm_agree_store [vm_sim_intros]:
  "vm_agree cx K s1 s2 \<Longrightarrow> vm_agree cx K (vm_store cx pk a s1) (vm_store cx pk a s2)"
  by (auto simp: vm_agree_def db_inv_store load_store)

lemma vm_agree_log [vm_sim_intros]: "vm_agree cx K s1 s2 \<Longrightarrow> vm_agree cx K (vm_log m s1) (vm_log m s2)"
  by (simp add: vm_agree_def)

lemma vm_agree_load: "vm_agree cx K s1 s2 \<Longrightarrow> k \<in> K \<Longrightarrow> load cx (vm_db s1) k = load cx (vm_db s2) k"
  by (simp add: vm_agree_def)

lemma vm_agree_exists: "vm_agree cx K s1 s2 \<Longrightarrow> k \<in> K \<Longrightarrow> db_exists (vm_db s1) k = db_exists (vm_db s2) k"
  using db_exists_load[of cx "vm_db s1" k] db_exists_load[of cx "vm_db s2" k] by (simp add: vm_agree_def)

lemma vm_agree_resolved:
  assumes "resolved_keys metas keys \<subseteq> K" "vm_agree cx K s1 s2" "k \<in> resolved_keys metas keys"
  shows "load cx (vm_db s1) k = load cx (vm_db s2) k" "db_exists (vm_db s1) k = db_exists (vm_db s2) k"
  using assms by (auto simp: vm_agree_load vm_agree_exists subset_eq)

text \<open>Two writes that keep the sum of two balances keep the supply.\<close>

lemma supply_two_writes:
  assumes "db_inv cx db" "j \<noteq> k"
    and "unat (lamports a) + unat (lamports b) =
      mval (\<lambda>a. unat (lamports a)) (load cx db) j + mval (\<lambda>a. unat (lamports a)) (load cx db) k"
  shows "lamport_supply cx (store cx k b (store cx j a db)) = lamport_supply cx db"
  unfolding lamport_supply_def
  by (rule adb.sum_put_two[OF assms(1,2), where f = "\<lambda>a. unat (lamports a)"]) (rule assms(3))

lemma supply_same_lamports:
  assumes "db_inv cx db" "load cx db k = Some a" "lamports b = lamports a"
  shows "lamport_supply cx (store cx k b db) = lamport_supply cx db"
  using adb.sum_put[OF assms(1), of "\<lambda>a. unat (lamports a)" k b] assms
  by (simp add: lamport_supply_def)

lemma unat_minus_le: "(x :: u64) \<le> y \<Longrightarrow> unat (y - x) + unat x = unat y"
  by (simp add: unat_sub word_le_nat_alt)

text \<open>Budget accounting is exact as long as the counter does not wrap.\<close>

lemma consume_max [simp]: "max_units (snd (consume u b)) = max_units b"
  by (simp add: consume_def Let_def)

lemma consume_consumed [simp]: "consumed (snd (consume u b)) = consumed b + u"
  by (simp add: consume_def Let_def)

lemma consume_ok: "fst (consume u b) = Inr () \<longleftrightarrow> consumed b + u \<le> max_units b"
  by (auto simp: consume_def Let_def)

lemma read_u64_head [simp]: "read_u64 (Suc 0) (t # le_u64 x @ r) = x"
  by (simp add: read_u64_def)

lemma read_key_head [simp]: "read_key (Suc 0) (t # bytes32 k @ r) = k"
  by (simp add: read_key_def)

lemma read_u64_split:
  assumes "i + 8 \<le> length data"
  shows "drop i data = le_u64 (read_u64 i data) @ drop (i + 8) data"
proof -
  have "le_u64 (read_u64 i data) = take 8 (drop i data)"
    unfolding read_u64_def by (rule le_bytes_le_val) (use assms in simp_all)
  then show ?thesis using append_take_drop_id[of 8 "drop i data"] by (simp add: add.commute)
qed

lemma read_key_split:
  assumes "i + 32 \<le> length data"
  shows "drop i data = bytes32 (read_key i data) @ drop (i + 32) data"
proof -
  have "bytes32 (read_key i data) = take 32 (drop i data)"
    unfolding read_key_def by (rule bytes32_of_bytes32) (use assms in simp)
  then show ?thesis using append_take_drop_id[of 32 "drop i data"] by (simp add: add.commute)
qed

text \<open>Decoding inverts encoding, and accepts nothing but encodings (with trailing bytes ignored).\<close>

lemma system_from_to_data: "system_from_data (system_to_data i @ rest) = Inr i"
  by (cases i) (simp_all add: system_from_data_def read_u64_def read_key_def)

lemma token_from_to_data: "token_from_data (token_to_data i @ rest) = Inr i"
  by (cases i) (simp_all add: token_from_data_def read_u64_def read_key_def)

lemma cons_read_u64: "9 \<le> length data \<Longrightarrow> data = hd data # le_u64 (read_u64 1 data) @ drop 9 data"
  using read_u64_split[of 1 data] by (cases data) simp_all

lemma cons_read_key: "33 \<le> length data \<Longrightarrow> data = hd data # bytes32 (read_key 1 data) @ drop 33 data"
  using read_key_split[of 1 data] by (cases data) simp_all

lemma cons_read_create:
  assumes "49 \<le> length data"
  shows "data = hd data # le_u64 (read_u64 1 data) @ le_u64 (read_u64 9 data) @
    bytes32 (read_key 17 data) @ drop 49 data"
  using assms cons_read_u64[of data] read_u64_split[of 9 data] read_key_split[of 17 data] by simp

lemma token_from_data_exact: "token_from_data data = Inr i \<Longrightarrow> \<exists>rest. data = token_to_data i @ rest"
  using cons_read_u64[of data] cons_read_key[of data]
  by (auto simp: token_from_data_def not_less split: list.splits if_splits)

lemma system_from_data_exact: "system_from_data data = Inr i \<Longrightarrow> \<exists>rest. data = system_to_data i @ rest"
  using cons_read_u64[of data] cons_read_key[of data] cons_read_create[of data]
  by (auto simp: system_from_data_def not_less split: list.splits if_splits)

text \<open>
  C29 The instruction decoders accept exactly the encodings: for the system and the token
  program, decoding succeeds with an instruction if and only if the data starts with that
  instruction's encoding, so every encoded instruction decodes to itself and no malformed
  data is taken for an instruction.
\<close>

theorem instruction_codecs_exact:
  "(system_from_data data = Inr si \<longleftrightarrow> (\<exists>rest. data = system_to_data si @ rest)) \<and>
   (token_from_data data = Inr ti \<longleftrightarrow> (\<exists>rest. data = token_to_data ti @ rest))"
  using system_from_to_data token_from_to_data system_from_data_exact token_from_data_exact by blast

end
