(* ===== verification/SystemProgram.thy ===== *)
theory SystemProgram
  imports Instruction AccountsLog
begin

text \<open>
  The system program (\<^verbatim>\<open>crates/program-executor/src/programs/system_program.rs\<close>): lamport
  transfers, account creation and ownership assignment, with the log lines they write.
\<close>

definition MAX_PERMITTED_DATA_LENGTH :: u64 where
  "MAX_PERMITTED_DATA_LENGTH = 10 * 1024 * 1024"

definition process_transfer ::
    "('z) db_ext_scheme \<Rightarrow> u64 \<Rightarrow> account_meta list \<Rightarrow> pubkey \<Rightarrow> pubkey list \<Rightarrow> vm \<Rightarrow>
     (instruction_error + unit) \<times> vm" where
  "process_transfer cx amount metas signer keys s0 =
     vm_charge 150 s0 (\<lambda>s.
     if length metas < 2 then (Inl (InvalidInstructionData ''Transfer requires 2 accounts''), s) else
     let from_meta = metas ! 0; to_meta = metas ! 1 in
     try_in (require_signer from_meta signer keys) s (\<lambda>from_pubkey.
     try_in (ok_or (load cx (vm_db s) from_pubkey) AccountNotFound) s (\<lambda>from_account.
     if lamports from_account < amount
     then (Inl (InsufficientFunds amount (lamports from_account)), s) else
     try_in (resolve_account_key (meta_index to_meta) keys) s (\<lambda>to_pubkey.
     let to_account = (case load cx (vm_db s) to_pubkey of
                         Some a \<Rightarrow> a | None \<Rightarrow> new_system_account to_pubkey 0) in
     try_in (ok_or (checked_add (lamports to_account) amount) ArithmeticOverflow) s (\<lambda>credited.
     let to_account = to_account\<lparr>lamports := credited\<rparr>;
         from_account = from_account\<lparr>lamports := lamports from_account - amount\<rparr>;
         s = vm_store cx from_pubkey from_account s;
         s = vm_store cx to_pubkey to_account s
     in (Inr (), vm_log (''Transfer: '' @ show_word amount @ '' lamports from '' @
           hex_prefix 8 from_pubkey @ '' to '' @ hex_prefix 8 to_pubkey) s))))))"

definition process_create_account ::
    "('z) db_ext_scheme \<Rightarrow> u64 \<Rightarrow> u64 \<Rightarrow> pubkey \<Rightarrow> account_meta list \<Rightarrow> pubkey \<Rightarrow> pubkey list \<Rightarrow>
     vm \<Rightarrow> (instruction_error + unit) \<times> vm" where
  "process_create_account cx amount space new_owner metas signer keys s0 =
     vm_charge 200 s0 (\<lambda>s.
     if length metas < 2
     then (Inl (InvalidInstructionData ''CreateAccount requires 2 accounts''), s) else
     let payer_meta = metas ! 0; new_account_meta = metas ! 1 in
     try_in (require_signer payer_meta signer keys) s (\<lambda>payer_pubkey.
     try_in (resolve_account_key (meta_index new_account_meta) keys) s (\<lambda>new_account_pubkey.
     if MAX_PERMITTED_DATA_LENGTH < space
     then (Inl (DataSizeTooLarge space MAX_PERMITTED_DATA_LENGTH), s) else
     if db_exists (vm_db s) new_account_pubkey
     then (Inl (ProgramError ''Account already exists''), s) else
     try_in (ok_or (load cx (vm_db s) payer_pubkey) AccountNotFound) s (\<lambda>payer.
     try_in (ok_or (checked_add amount MINIMUM_RENT_EXEMPT_BALANCE) ArithmeticOverflow) s
       (\<lambda>new_lamports.
     if lamports payer < new_lamports
     then (Inl (InsufficientFunds new_lamports (lamports payer)), s) else
     let payer = payer\<lparr>lamports := lamports payer - new_lamports\<rparr>;
         s = vm_store cx payer_pubkey payer s;
         new_account = \<lparr>lamports = new_lamports, owner = new_owner, executable = False,
           rent_epoch = 0, acc_data = Data (replicate (unat space) 0)\<rparr>;
         s = vm_store cx new_account_pubkey new_account s
     in (Inr (), vm_log (''CreateAccount: '' @ hex_prefix 8 new_account_pubkey @ '' ('' @
           show_word amount @ '' lamports, '' @ show_word space @ '' bytes) owned by '' @
           hex_prefix 8 new_owner) s))))))"

definition process_assign ::
    "('z) db_ext_scheme \<Rightarrow> pubkey \<Rightarrow> account_meta list \<Rightarrow> pubkey \<Rightarrow> pubkey list \<Rightarrow> vm \<Rightarrow>
     (instruction_error + unit) \<times> vm" where
  "process_assign cx new_owner metas signer keys s0 =
     vm_charge 100 s0 (\<lambda>s.
     if metas = [] then (Inl (InvalidInstructionData ''Assign requires 1 account''), s) else
     try_in (require_signer (metas ! 0) signer keys) s (\<lambda>account_pubkey.
     try_in (ok_or (load cx (vm_db s) account_pubkey) AccountNotFound) s (\<lambda>account.
     if owner account \<noteq> fill32 1 then (Inl InvalidAccountOwner, s) else
     let account = account\<lparr>owner := new_owner\<rparr>;
         s = vm_store cx account_pubkey account s
     in (Inr (), vm_log (''Assign: '' @ hex_prefix 8 account_pubkey @ '' to '' @
           hex_prefix 8 new_owner) s))))"

definition system_process_instruction ::
    "('z) db_ext_scheme \<Rightarrow> bytes \<Rightarrow> account_meta list \<Rightarrow> pubkey \<Rightarrow> pubkey list \<Rightarrow> vm \<Rightarrow>
     (instruction_error + unit) \<times> vm" where
  "system_process_instruction cx data metas signer keys s =
     try_in (system_from_data data) s (\<lambda>ins.
     case ins of
       Sys_Transfer amount \<Rightarrow> process_transfer cx amount metas signer keys s
     | Sys_CreateAccount amount space new_owner \<Rightarrow>
         process_create_account cx amount space new_owner metas signer keys s
     | Sys_Assign new_owner \<Rightarrow> process_assign cx new_owner metas signer keys s
     | Sys_NonceInitialize \<Rightarrow>
         (Inl (InvalidInstructionData ''nonce accounts are not implemented''),
          vm_log ''NonceInitialize: durable nonce accounts are not implemented'' s))"

text \<open>A concrete state for witnesses: two funded accounts.\<close>

definition demo_vm :: vm where
  "demo_vm = \<lparr>vm_db = store demo_db 6 (new_system_account 6 1)
      (store demo_db 5 (new_system_account 5 100) db_new),
    budget = compute_budget_new 1000, vm_logs = []\<rparr>"

lemma demo_vm_inv: "db_inv demo_db (vm_db demo_vm)"
  by (simp add: demo_vm_def db_inv_store db_inv_new)

subsection \<open>What the handlers do when they succeed\<close>

lemma process_transfer_ok:
  assumes "process_transfer cx amount metas signer keys s = (Inr (), t)"
  obtains from_account to_account to_pubkey credited where
    "2 \<le> length metas" "meta_index (metas ! 0) < length keys" "keys ! meta_index (metas ! 0) = signer"
    "meta_index (metas ! 1) < length keys" "to_pubkey = keys ! meta_index (metas ! 1)"
    "load cx (vm_db s) signer = Some from_account" "amount \<le> lamports from_account"
    "to_account = (case load cx (vm_db s) to_pubkey of Some a \<Rightarrow> a | None \<Rightarrow> new_system_account to_pubkey 0)"
    "unat credited = unat (lamports to_account) + unat amount"
    "vm_db t = store cx to_pubkey (to_account\<lparr>lamports := credited\<rparr>)
       (store cx signer (from_account\<lparr>lamports := lamports from_account - amount\<rparr>) (vm_db s))"
  using assms
  by (fastforce simp: process_transfer_def Let_def vm_simps checked_add_Some not_less split: if_splits)

lemma process_create_account_ok:
  assumes "process_create_account cx amount space new_owner metas signer keys s = (Inr (), t)"
  obtains payer new_pubkey funded where
    "2 \<le> length metas" "meta_index (metas ! 0) < length keys" "keys ! meta_index (metas ! 0) = signer"
    "meta_index (metas ! 1) < length keys" "new_pubkey = keys ! meta_index (metas ! 1)"
    "space \<le> MAX_PERMITTED_DATA_LENGTH" "\<not> db_exists (vm_db s) new_pubkey"
    "load cx (vm_db s) signer = Some payer"
    "unat funded = unat amount + unat MINIMUM_RENT_EXEMPT_BALANCE" "funded \<le> lamports payer"
    "vm_db t = store cx new_pubkey \<lparr>lamports = funded, owner = new_owner, executable = False,
         rent_epoch = 0, acc_data = Data (replicate (unat space) 0)\<rparr>
       (store cx signer (payer\<lparr>lamports := lamports payer - funded\<rparr>) (vm_db s))"
  using assms
  by (fastforce simp: process_create_account_def Let_def vm_simps checked_add_Some not_less split: if_splits)

lemma process_assign_ok:
  assumes "process_assign cx new_owner metas signer keys s = (Inr (), t)"
  obtains account where
    "metas \<noteq> []" "meta_index (metas ! 0) < length keys" "keys ! meta_index (metas ! 0) = signer"
    "load cx (vm_db s) signer = Some account" "owner account = system_program_id"
    "vm_db t = store cx signer (account\<lparr>owner := new_owner\<rparr>) (vm_db s)"
  using assms
  by (fastforce simp: process_assign_def Let_def vm_simps system_program_id_def split: if_splits)

lemma process_transfer_err:
  "process_transfer cx amount metas signer keys s = (Inl e, t) \<Longrightarrow> vm_db t = vm_db s"
  by (auto simp: process_transfer_def Let_def vm_simps split: if_splits)

lemma process_create_account_err:
  "process_create_account cx amount space ow metas signer keys s = (Inl e, t) \<Longrightarrow> vm_db t = vm_db s"
  by (auto simp: process_create_account_def Let_def vm_simps split: if_splits)

lemma process_assign_err:
  "process_assign cx ow metas signer keys s = (Inl e, t) \<Longrightarrow> vm_db t = vm_db s"
  by (auto simp: process_assign_def Let_def vm_simps split: if_splits)

lemma system_process_cases:
  assumes "system_process_instruction cx data metas signer keys s = (r, t)"
  obtains amount where "system_from_data data = Inr (Sys_Transfer amount)"
      "process_transfer cx amount metas signer keys s = (r, t)"
  | amount space ow where "system_from_data data = Inr (Sys_CreateAccount amount space ow)"
      "process_create_account cx amount space ow metas signer keys s = (r, t)"
  | ow where "system_from_data data = Inr (Sys_Assign ow)"
      "process_assign cx ow metas signer keys s = (r, t)"
  | e where "r = Inl e" "vm_db t = vm_db s"
proof (cases "system_from_data data")
  case (Inl e)
  then show ?thesis using assms that(4)[of e] by (auto simp: system_process_instruction_def)
next
  case (Inr ins)
  then show ?thesis using assms that by (cases ins) (auto simp: system_process_instruction_def)
qed

lemma system_process_err:
  assumes "system_process_instruction cx data metas signer keys s = (Inl e, t)"
  shows "vm_db t = vm_db s"
  using assms
  by (cases rule: system_process_cases)
    (auto dest: process_transfer_err process_create_account_err process_assign_err)

lemma system_process_inv:
  assumes "system_process_instruction cx data metas signer keys s = (r, t)" "db_inv cx (vm_db s)"
  shows "db_inv cx (vm_db t)"
proof (cases r)
  case (Inl e)
  then show ?thesis using system_process_err assms by metis
next
  case (Inr u)
  from assms(1) show ?thesis
    by (cases rule: system_process_cases)
      (use Inr assms(2) in \<open>auto elim!: process_transfer_ok process_create_account_ok process_assign_ok
        simp: db_inv_store\<close>)
qed

subsection \<open>Conservation of lamports\<close>

lemma process_transfer_supply:
  assumes "process_transfer cx amount metas signer keys s = (Inr (), t)" "db_inv cx (vm_db s)"
    and "keys ! meta_index (metas ! 1) \<noteq> signer"
  shows "lamport_supply cx (vm_db t) = lamport_supply cx (vm_db s)"
  using assms(1)
proof (cases rule: process_transfer_ok)
  case (1 from_account to_account to_pubkey credited)
  have "mval (\<lambda>a. unat (lamports a)) (load cx (vm_db s)) to_pubkey = unat (lamports to_account)"
    using 1(8) by (simp add: mval_def new_system_account_def split: option.splits)
  then show ?thesis
    unfolding 1(10) using 1 assms(2,3) unat_minus_le[OF 1(7)]
    by (intro supply_two_writes) simp_all
qed

lemma process_transfer_self:
  assumes "process_transfer cx amount metas signer keys s = (Inr (), t)" "db_inv cx (vm_db s)"
    and "keys ! meta_index (metas ! 1) = signer"
  shows "lamport_supply cx (vm_db t) = lamport_supply cx (vm_db s) + unat amount"
  using assms(1)
proof (cases rule: process_transfer_ok)
  case (1 from_account to_account to_pubkey credited)
  have to: "to_pubkey = signer" "to_account = from_account" using 1 assms(3) by simp_all
  let ?f = "\<lambda>a. unat (lamports a)"
  have "load cx (vm_db t) = (load cx (vm_db s))(signer \<mapsto> from_account\<lparr>lamports := credited\<rparr>)"
    unfolding 1(10) using assms(2) by (simp add: load_store db_inv_store to)
  then show ?thesis
    using msum_upd[OF finite_dom_load[OF assms(2)], of ?f signer "from_account\<lparr>lamports := credited\<rparr>"]
      1(6,9) to by (simp add: lamport_supply_def)
qed

lemma process_create_account_supply:
  assumes "process_create_account cx amount space ow metas signer keys s = (Inr (), t)"
    and inv: "db_inv cx (vm_db s)"
  shows "lamport_supply cx (vm_db t) = lamport_supply cx (vm_db s)"
  using assms(1)
proof (cases rule: process_create_account_ok)
  case (1 payer new_pubkey funded)
  have new: "load cx (vm_db s) new_pubkey = None" using 1(7) db_exists_load[OF inv] by simp
  then have "signer \<noteq> new_pubkey" using 1(8) by auto
  then show ?thesis
    unfolding 1(11) using 1 new inv unat_minus_le[OF 1(10)]
    by (intro supply_two_writes) simp_all
qed

lemma process_assign_supply:
  assumes "process_assign cx ow metas signer keys s = (Inr (), t)" "db_inv cx (vm_db s)"
  shows "lamport_supply cx (vm_db t) = lamport_supply cx (vm_db s)"
  using assms(1)
proof (cases rule: process_assign_ok)
  case (1 account)
  then show ?thesis using assms(2) by (simp add: supply_same_lamports)
qed

subsection \<open>Footprint\<close>

lemma system_process_frame:
  assumes "system_process_instruction cx data metas signer keys s = (r, t)" "db_inv cx (vm_db s)"
    and "k \<notin> resolved_keys metas keys"
  shows "load cx (vm_db t) k = load cx (vm_db s) k"
proof (cases r)
  case (Inl e)
  then show ?thesis using system_process_err assms by metis
next
  case (Inr u)
  have nth: "keys ! meta_index (metas ! i) \<noteq> k"
    if "i < length metas" "meta_index (metas ! i) < length keys" for i
    using resolved_keysI[OF that] assms(3) by auto
  have ne: "2 \<le> length metas \<Longrightarrow> metas \<noteq> []" by auto
  from assms(1) show ?thesis
    by (cases rule: system_process_cases)
      (use Inr assms(2) ne nth[of 0] nth[of 1] in
        \<open>auto elim!: process_transfer_ok process_create_account_ok process_assign_ok
          simp: db_inv_store load_store\<close>)
qed

lemma process_transfer_local:
  assumes "vm_agree cx K s1 s2" "resolved_keys metas keys \<subseteq> K"
  shows "vm_sim cx K (process_transfer cx amount metas signer keys s1)
    (process_transfer cx amount metas signer keys s2)"
  unfolding process_transfer_def Let_def
  by (intro vm_sim_intros assms(1))
    (auto simp: vm_simps vm_agree_resolved[OF assms(2)] resolved_key_lt intro!: vm_sim_intros)

lemma process_create_account_local:
  assumes "vm_agree cx K s1 s2" "resolved_keys metas keys \<subseteq> K"
  shows "vm_sim cx K (process_create_account cx amount space ow metas signer keys s1)
    (process_create_account cx amount space ow metas signer keys s2)"
  unfolding process_create_account_def Let_def
  by (intro vm_sim_intros assms(1))
    (auto simp: vm_simps vm_agree_resolved[OF assms(2)] resolved_key_lt intro!: vm_sim_intros)

lemma process_assign_local:
  assumes "vm_agree cx K s1 s2" "resolved_keys metas keys \<subseteq> K"
  shows "vm_sim cx K (process_assign cx ow metas signer keys s1)
    (process_assign cx ow metas signer keys s2)"
  unfolding process_assign_def Let_def
  by (intro vm_sim_intros assms(1))
    (auto simp: vm_simps vm_agree_resolved[OF assms(2)] resolved_key0 intro!: vm_sim_intros)

lemma system_process_local:
  assumes "vm_agree cx K s1 s2" "resolved_keys metas keys \<subseteq> K"
  shows "vm_sim cx K (system_process_instruction cx data metas signer keys s1)
    (system_process_instruction cx data metas signer keys s2)"
  unfolding system_process_instruction_def
  by (intro vm_sim_try assms(1))
    (auto intro!: process_transfer_local process_create_account_local process_assign_local
      vm_sim_intros assms split: system_instruction.split)

lemma process_transfer_credits:
  assumes "process_transfer cx amount metas signer keys s = (Inr (), t)" "db_inv cx (vm_db s)"
    and "k \<noteq> signer" "load cx (vm_db s) k = Some a"
  shows "\<exists>l. lamports a \<le> l \<and> load cx (vm_db t) k = Some (a\<lparr>lamports := l\<rparr>)"
  using assms(1)
proof (cases rule: process_transfer_ok)
  case (1 from_account to_account to_pubkey credited)
  show ?thesis
  proof (cases "k = to_pubkey")
    case True
    then have "to_account = a" using 1(8) assms(4) by simp
    with True 1(9,10) assms(2) show ?thesis
      by (intro exI[of _ credited]) (simp add: load_store db_inv_store word_le_nat_alt)
  next
    case False
    then show ?thesis using 1(10) assms
      by (intro exI[of _ "lamports a"]) (simp add: load_store db_inv_store)
  qed
qed

lemma process_transfer_succeeds:
  assumes "consumed (budget s) + 150 \<le> max_units (budget s)"
    and "keys ! meta_index m0 = signer" "meta_index m0 < length keys" "meta_index m1 < length keys"
    and "load cx (vm_db s) signer = Some a" "amount \<le> lamports a"
    and "unat (case load cx (vm_db s) (keys ! meta_index m1) of Some b \<Rightarrow> lamports b | None \<Rightarrow> 0) + unat amount < 2 ^ 64"
  shows "\<exists>t. process_transfer cx amount (m0 # m1 # ms) signer keys s = (Inr (), t)"
proof -
  let ?b = "case load cx (vm_db s) (keys ! meta_index m1) of Some a \<Rightarrow> a | None \<Rightarrow> new_system_account (keys ! meta_index m1) 0"
  obtain c where "checked_add (lamports ?b) amount = Some c"
    using assms(7) by (cases "checked_add (lamports ?b) amount")
      (auto simp: checked_add_None new_system_account_def split: option.splits)
  moreover have "require_signer m0 signer keys = Inr signer"
    "resolve_account_key (meta_index m1) keys = Inr (keys ! meta_index m1)"
    using assms by (simp_all add: vm_simps)
  ultimately show ?thesis
    using assms(1,5,6)
    by (simp add: process_transfer_def vm_simps consume_ok Let_def not_less)
qed

subsection \<open>Properties of the system program\<close>

text \<open>
  C14 Only the signer is debited: whatever a system instruction does, every account other
  than the signer's that existed before still exists with the same owner, data and flags
  and at least the same balance, and accounts it does not name are untouched.
\<close>

theorem system_program_authorization:
  assumes "system_process_instruction cx data metas signer keys s = (r, t)" "db_inv cx (vm_db s)"
  shows "(\<forall>k a. k \<noteq> signer \<longrightarrow> load cx (vm_db s) k = Some a \<longrightarrow>
      (\<exists>l. lamports a \<le> l \<and> load cx (vm_db t) k = Some (a\<lparr>lamports := l\<rparr>))) \<and>
    (\<forall>k. k \<notin> resolved_keys metas keys \<longrightarrow> load cx (vm_db t) k = load cx (vm_db s) k)"
proof (intro conjI allI impI)
  fix k assume "k \<notin> resolved_keys metas keys"
  then show "load cx (vm_db t) k = load cx (vm_db s) k" using system_process_frame[OF assms] by blast
next
  fix k a assume k: "k \<noteq> signer" "load cx (vm_db s) k = Some a"
  have same: "\<exists>l. lamports a \<le> l \<and> Some a = Some (a\<lparr>lamports := l\<rparr>)"
    by (rule exI[of _ "lamports a"]) simp
  show "\<exists>l. lamports a \<le> l \<and> load cx (vm_db t) k = Some (a\<lparr>lamports := l\<rparr>)"
  proof (cases r)
    case (Inl e)
    then show ?thesis using system_process_err assms(1) k(2) same by metis
  next
    case (Inr u)
    from assms(1) show ?thesis
      by (cases rule: system_process_cases)
        (use Inr assms(2) k same db_exists_load[OF assms(2)] in
          \<open>auto elim!: process_create_account_ok process_assign_ok intro: process_transfer_credits
            simp: db_inv_store load_store\<close>)
  qed
qed

theorem system_program_authorization_witness:
  "\<exists>l \<ge> 1. load demo_db (vm_db (snd (system_process_instruction demo_db
     (system_to_data (Sys_Transfer 60)) [signer_writable 0, writable 1] 5 [5, 6] demo_vm))) 6 =
     Some (new_system_account 6 l)"
proof -
  let ?x = "system_process_instruction demo_db (system_to_data (Sys_Transfer 60))
    [signer_writable 0, writable 1] 5 [5, 6] demo_vm"
  have "load demo_db (vm_db demo_vm) 6 = Some (new_system_account 6 1)"
    by (simp add: demo_vm_def load_store db_inv_store db_inv_new)
  then show ?thesis
    using system_program_authorization[of demo_db "system_to_data (Sys_Transfer 60)"
      "[signer_writable 0, writable 1]" 5 "[5, 6]" demo_vm, OF prod.collapse[symmetric] demo_vm_inv,
      THEN conjunct1, THEN spec, of 6, THEN spec, of "new_system_account 6 1"]
    by (simp add: new_system_account_def)
qed

text \<open>
  C26 Conservation: no system instruction, whether it succeeds or fails, changes the total
  of all balances, except a transfer whose destination is its own source.
\<close>

theorem system_program_conserves_supply:
  assumes "system_process_instruction cx data metas signer keys s = (r, t)" "db_inv cx (vm_db s)"
    and "\<And>amount. system_from_data data = Inr (Sys_Transfer amount) \<Longrightarrow> keys ! meta_index (metas ! 1) \<noteq> signer"
  shows "lamport_supply cx (vm_db t) = lamport_supply cx (vm_db s)"
proof (cases r)
  case (Inl e)
  then show ?thesis using system_process_err assms(1) by metis
next
  case (Inr u)
  from assms(1) show ?thesis
    by (cases rule: system_process_cases)
      (use Inr assms(2,3) in \<open>auto intro: process_transfer_supply process_create_account_supply
        process_assign_supply\<close>)
qed

theorem system_program_conserves_supply_witness:
  "lamport_supply demo_db (vm_db (snd (system_process_instruction demo_db
     (system_to_data (Sys_Transfer 60)) [signer_writable 0, writable 1] 5 [5, 6] demo_vm))) =
   lamport_supply demo_db (vm_db demo_vm)"
  by (rule system_program_conserves_supply[OF prod.collapse[symmetric] demo_vm_inv])
    (simp add: writable_def)

text \<open>
  A transfer from an account to itself creates lamports: it succeeds whenever the
  balance covers the amount and the sum does not overflow, and the total of all balances
  grows by the amount.
\<close>

theorem self_transfer_mints:
  assumes "db_inv cx (vm_db s)" "load cx (vm_db s) signer = Some a" "amount \<le> lamports a"
    and "unat (lamports a) + unat amount < 2 ^ 64"
    and "consumed (budget s) + 150 \<le> max_units (budget s)"
  shows "\<exists>t. process_transfer cx amount [signer_writable 0, writable 0] signer [signer] s = (Inr (), t) \<and>
    lamport_supply cx (vm_db t) = lamport_supply cx (vm_db s) + unat amount"
proof -
  let ?m0 = "signer_writable 0" and ?m1 = "writable 0"
  have "\<exists>t. process_transfer cx amount [?m0, ?m1] signer [signer] s = (Inr (), t)"
    by (rule process_transfer_succeeds) (use assms in \<open>simp_all add: signer_writable_def writable_def\<close>)
  then obtain t where t: "process_transfer cx amount [?m0, ?m1] signer [signer] s = (Inr (), t)" ..
  then have "lamport_supply cx (vm_db t) = lamport_supply cx (vm_db s) + unat amount"
    using assms(1) by (rule process_transfer_self) (simp add: writable_def)
  with t show ?thesis by blast
qed

theorem self_transfer_mints_witness:
  "\<exists>t. process_transfer demo_db 60 [signer_writable 0, writable 0] 5 [5] demo_vm = (Inr (), t) \<and>
       lamport_supply demo_db (vm_db t) = lamport_supply demo_db (vm_db demo_vm) + 60"
  using self_transfer_mints[OF demo_vm_inv, of 5 "new_system_account 5 100" 60]
  by (simp add: demo_vm_def db_inv_store db_inv_new load_store compute_budget_new_def new_system_account_def)
end
