(* ===== verification/TokenProgram.thy ===== *)
theory TokenProgram
  imports SystemProgram
begin

text \<open>
  The token program (\<^verbatim>\<open>crates/program-executor/src/programs/token_program.rs\<close>): mints, token
  accounts, transfers, minting and burning. The invariant is that the recorded supply of
  every mint is the sum of the balances of its token accounts.
\<close>

definition load_owned :: "('z) db_ext_scheme \<Rightarrow> accounts_db \<Rightarrow> pubkey \<Rightarrow> instruction_error + account" where
  "load_owned cx db key =
     (case load cx db key of
        None \<Rightarrow> Inl AccountNotFound
      | Some account \<Rightarrow>
          if owner account \<noteq> token_program_id then Inl InvalidAccountOwner else Inr account)"

definition expect_token :: "account \<Rightarrow> instruction_error + (pubkey \<times> pubkey \<times> u64)" where
  "expect_token a =
     (case acc_data a of Token mint authority amount \<Rightarrow> Inr (mint, authority, amount) | _ \<Rightarrow> Inl MintMismatch)"

definition expect_mint :: "account \<Rightarrow> instruction_error + (pubkey \<times> u64)" where
  "expect_mint a = (case acc_data a of Mint authority supp \<Rightarrow> Inr (authority, supp) | _ \<Rightarrow> Inl MintMismatch)"

definition set_token_amount :: "u64 \<Rightarrow> account \<Rightarrow> account" where
  "set_token_amount x a =
     (case acc_data a of
        Token mint authority _ \<Rightarrow> a\<lparr>acc_data := Token mint authority x\<rparr>
      | _ \<Rightarrow> a)"

definition set_mint_supply :: "u64 \<Rightarrow> account \<Rightarrow> account" where
  "set_mint_supply x a =
     (case acc_data a of Mint authority _ \<Rightarrow> a\<lparr>acc_data := Mint authority x\<rparr> | _ \<Rightarrow> a)"

definition process_initialize_mint ::
    "('z) db_ext_scheme \<Rightarrow> account_meta list \<Rightarrow> pubkey \<Rightarrow> pubkey list \<Rightarrow> vm \<Rightarrow>
     (instruction_error + unit) \<times> vm" where
  "process_initialize_mint cx metas signer keys s0 =
     vm_charge 300 s0 (\<lambda>s.
     try_in (ok_or (list_get metas 0) (InvalidInstructionData ''InitializeMint requires 1 account''))
       s (\<lambda>m.
     try_in (resolve_account_key (meta_index m) keys) s (\<lambda>mint_key.
     if mint_key \<noteq> signer then (Inl IncorrectAuthority, s) else
     if db_exists (vm_db s) mint_key then (Inl (ProgramError ''Mint already exists''), s) else
     let s = vm_store cx mint_key (new_mint mint_key signer) s
     in (Inr (), vm_log (''Token: InitializeMint '' @ hex_prefix 8 mint_key @ '' authority '' @
           hex_prefix 8 signer) s))))"

definition process_initialize_account ::
    "('z) db_ext_scheme \<Rightarrow> pubkey \<Rightarrow> account_meta list \<Rightarrow> pubkey \<Rightarrow> pubkey list \<Rightarrow> vm \<Rightarrow>
     (instruction_error + unit) \<times> vm" where
  "process_initialize_account cx mint metas signer keys s0 =
     vm_charge 300 s0 (\<lambda>s.
     if length metas < 3
     then (Inl (InvalidInstructionData
             ''InitializeAccount requires 3 accounts (mint, account, owner)''), s) else
     try_in (resolve_account_key (meta_index (metas ! 0)) keys) s (\<lambda>mint_key.
     try_in (resolve_account_key (meta_index (metas ! 1)) keys) s (\<lambda>new_key.
     try_in (resolve_account_key (meta_index (metas ! 2)) keys) s (\<lambda>owner_key.
     if mint_key \<noteq> mint then (Inl MintMismatch, s) else
     if owner_key \<noteq> signer then (Inl IncorrectAuthority, s) else
     try_in (load_owned cx (vm_db s) mint_key) s (\<lambda>mint_account.
     if \<not> is_Mint (acc_data mint_account) then (Inl MintMismatch, s) else
     if db_exists (vm_db s) new_key then (Inl (ProgramError ''Token account already exists''), s) else
     let s = vm_store cx new_key (new_token_account new_key mint_key owner_key 0) s
     in (Inr (), vm_log (''Token: InitializeAccount '' @ hex_prefix 8 new_key @ '' for mint '' @
           hex_prefix 8 mint_key @ '' owner '' @ hex_prefix 8 owner_key) s))))))"

definition process_token_transfer ::
    "('z) db_ext_scheme \<Rightarrow> u64 \<Rightarrow> account_meta list \<Rightarrow> pubkey \<Rightarrow> pubkey list \<Rightarrow> vm \<Rightarrow>
     (instruction_error + unit) \<times> vm" where
  "process_token_transfer cx amount metas signer keys s0 =
     vm_charge 200 s0 (\<lambda>s.
     if length metas < 2 then (Inl (InvalidInstructionData ''Transfer requires 2 accounts''), s) else
     try_in (resolve_account_key (meta_index (metas ! 0)) keys) s (\<lambda>from_key.
     try_in (resolve_account_key (meta_index (metas ! 1)) keys) s (\<lambda>to_key.
     if from_key = to_key
     then (Inl (InvalidInstructionData ''Source and destination must differ''), s) else
     try_in (load_owned cx (vm_db s) from_key) s (\<lambda>from_account.
     try_in (load_owned cx (vm_db s) to_key) s (\<lambda>to_account.
     try_in (expect_token from_account) s (\<lambda>(from_mint, from_authority, from_balance).
     if from_authority \<noteq> signer then (Inl IncorrectAuthority, s) else
     try_in (expect_token to_account) s (\<lambda>(to_mint, _, to_balance).
     if from_mint \<noteq> to_mint then (Inl MintMismatch, s) else
     if from_balance < amount then (Inl (InsufficientFunds amount from_balance), s) else
     try_in (ok_or (checked_sub from_balance amount) (InsufficientFunds amount from_balance)) s
       (\<lambda>new_from.
     try_in (ok_or (checked_add to_balance amount) ArithmeticOverflow) s (\<lambda>new_to.
     let s = vm_store cx from_key (set_token_amount new_from from_account) s;
         s = vm_store cx to_key (set_token_amount new_to to_account) s
     in (Inr (), vm_log (''Token: Transfer '' @ show_word amount @ '' tokens from '' @
           hex_prefix 8 from_key @ '' to '' @ hex_prefix 8 to_key) s))))))))))"

definition process_mint_to ::
    "('z) db_ext_scheme \<Rightarrow> u64 \<Rightarrow> account_meta list \<Rightarrow> pubkey \<Rightarrow> pubkey list \<Rightarrow> vm \<Rightarrow>
     (instruction_error + unit) \<times> vm" where
  "process_mint_to cx amount metas signer keys s0 =
     vm_charge 200 s0 (\<lambda>s.
     if length metas < 2
     then (Inl (InvalidInstructionData ''MintTo requires 2 accounts (mint, destination)''), s) else
     try_in (resolve_account_key (meta_index (metas ! 0)) keys) s (\<lambda>mint_key.
     try_in (resolve_account_key (meta_index (metas ! 1)) keys) s (\<lambda>dest_key.
     try_in (load_owned cx (vm_db s) mint_key) s (\<lambda>mint_account.
     try_in (expect_mint mint_account) s (\<lambda>(mint_authority, supp).
     if mint_authority \<noteq> signer then (Inl IncorrectAuthority, s) else
     try_in (load_owned cx (vm_db s) dest_key) s (\<lambda>dest_account.
     try_in (expect_token dest_account) s (\<lambda>(dest_mint, _, dest_balance).
     if dest_mint \<noteq> mint_key then (Inl MintMismatch, s) else
     try_in (ok_or (checked_add supp amount) ArithmeticOverflow) s (\<lambda>new_supply.
     try_in (ok_or (checked_add dest_balance amount) ArithmeticOverflow) s (\<lambda>new_balance.
     let s = vm_store cx mint_key (set_mint_supply new_supply mint_account) s;
         s = vm_store cx dest_key (set_token_amount new_balance dest_account) s
     in (Inr (), vm_log (''Token: Mint '' @ show_word amount @ '' tokens to '' @
           hex_prefix 8 dest_key @ '' (supply '' @ show_word new_supply @ '')'') s))))))))))"

definition process_burn ::
    "('z) db_ext_scheme \<Rightarrow> u64 \<Rightarrow> account_meta list \<Rightarrow> pubkey \<Rightarrow> pubkey list \<Rightarrow> vm \<Rightarrow>
     (instruction_error + unit) \<times> vm" where
  "process_burn cx amount metas signer keys s0 =
     vm_charge 200 s0 (\<lambda>s.
     if length metas < 2
     then (Inl (InvalidInstructionData ''Burn requires 2 accounts (mint, token account)''), s) else
     try_in (resolve_account_key (meta_index (metas ! 0)) keys) s (\<lambda>mint_key.
     try_in (resolve_account_key (meta_index (metas ! 1)) keys) s (\<lambda>token_key.
     try_in (load_owned cx (vm_db s) mint_key) s (\<lambda>mint_account.
     try_in (expect_mint mint_account) s (\<lambda>(_, supp).
     try_in (load_owned cx (vm_db s) token_key) s (\<lambda>token_account.
     try_in (expect_token token_account) s (\<lambda>(tok_mint, tok_authority, balance).
     if tok_authority \<noteq> signer then (Inl IncorrectAuthority, s) else
     if tok_mint \<noteq> mint_key then (Inl MintMismatch, s) else
     if balance < amount then (Inl (InsufficientFunds amount balance), s) else
     if supp < amount then (Inl (InsufficientFunds amount supp), s) else
     let new_supply = supp - amount;
         new_balance = balance - amount;
         s = vm_store cx mint_key (set_mint_supply new_supply mint_account) s;
         s = vm_store cx token_key (set_token_amount new_balance token_account) s
     in (Inr (), vm_log (''Token: Burn '' @ show_word amount @ '' tokens from '' @
           hex_prefix 8 token_key @ '' (supply '' @ show_word new_supply @ '')'') s))))))))"

definition token_process_instruction ::
    "('z) db_ext_scheme \<Rightarrow> bytes \<Rightarrow> account_meta list \<Rightarrow> pubkey \<Rightarrow> pubkey list \<Rightarrow> vm \<Rightarrow>
     (instruction_error + unit) \<times> vm" where
  "token_process_instruction cx data metas signer keys s =
     try_in (token_from_data data) s (\<lambda>ins.
     case ins of
       Tok_InitializeMint \<Rightarrow> process_initialize_mint cx metas signer keys s
     | Tok_InitializeAccount mint \<Rightarrow> process_initialize_account cx mint metas signer keys s
     | Tok_Transfer amount \<Rightarrow> process_token_transfer cx amount metas signer keys s
     | Tok_MintTo amount \<Rightarrow> process_mint_to cx amount metas signer keys s
     | Tok_Burn amount \<Rightarrow> process_burn cx amount metas signer keys s)"

subsection \<open>Token supply\<close>

text \<open>
  The units of a mint held by its token accounts, and the supply the mint account records.
\<close>

fun token_units_of :: "pubkey \<Rightarrow> account_data \<Rightarrow> nat" where
  "token_units_of M (Token mint au x) = (if mint = M then unat x else 0)"
| "token_units_of M d = 0"

fun mint_units_of :: "account_data \<Rightarrow> nat" where
  "mint_units_of (Mint au x) = unat x"
| "mint_units_of d = 0"

definition token_units :: "pubkey \<Rightarrow> (pubkey \<Rightarrow> account option) \<Rightarrow> nat" where
  "token_units M m = msum (\<lambda>a. token_units_of M (acc_data a)) m"

definition mint_units :: "pubkey \<Rightarrow> (pubkey \<Rightarrow> account option) \<Rightarrow> nat" where
  "mint_units M m = mval (\<lambda>a. mint_units_of (acc_data a)) m M"

text \<open>
  What a signer may do to an account through the token program: only the amount of a token
  account or the supply of a mint changes, a token balance falls only if the signer is its
  authority, and a supply grows only if the signer is the mint authority.
\<close>

definition authorised_change :: "pubkey \<Rightarrow> account \<Rightarrow> account \<Rightarrow> bool" where
  "authorised_change signer a a' \<longleftrightarrow>
     a' = a\<lparr>acc_data := acc_data a'\<rparr> \<and>
     (case (acc_data a, acc_data a') of
        (Token m au x, Token m' au' x') \<Rightarrow> m' = m \<and> au' = au \<and> (x' < x \<longrightarrow> au = signer)
      | (Mint au x, Mint au' x') \<Rightarrow> au' = au \<and> (x < x' \<longrightarrow> au = signer)
      | (d, d') \<Rightarrow> d' = d)"

definition token_inv :: "(pubkey \<Rightarrow> account option) \<Rightarrow> bool" where
  "token_inv m \<longleftrightarrow> (\<forall>M. token_units M m = mint_units M m)"

text \<open>A concrete state for witnesses: a mint with seven units, all in one of its two token accounts.\<close>

definition demo_tokens :: vm where
  "demo_tokens = \<lparr>vm_db =
      store demo_db 12 (new_token_account 12 10 6 0)
     (store demo_db 11 (new_token_account 11 10 5 7)
     (store demo_db 10 (set_mint_supply 7 (new_mint 10 5)) db_new)),
    budget = compute_budget_new 1000, vm_logs = []\<rparr>"

subsection \<open>What the handlers do when they succeed\<close>

lemma load_owned_Inr [vm_simps]:
  "load_owned cx db k = Inr a \<longleftrightarrow> load cx db k = Some a \<and> owner a = token_program_id"
  by (auto simp: load_owned_def split: option.splits if_splits)

lemma expect_token_Inr [vm_simps]: "expect_token a = Inr x \<longleftrightarrow> acc_data a = Token (fst x) (fst (snd x)) (snd (snd x))"
  by (cases x) (auto simp: expect_token_def split: account_data.splits)

lemma expect_mint_Inr [vm_simps]: "expect_mint a = Inr x \<longleftrightarrow> acc_data a = Mint (fst x) (snd x)"
  by (cases x) (auto simp: expect_mint_def split: account_data.splits)

lemma set_token_amount_simp [simp]:
  "acc_data a = Token m au x \<Longrightarrow> set_token_amount y a = a\<lparr>acc_data := Token m au y\<rparr>"
  by (simp add: set_token_amount_def)

lemma set_mint_supply_simp [simp]:
  "acc_data a = Mint au x \<Longrightarrow> set_mint_supply y a = a\<lparr>acc_data := Mint au y\<rparr>"
  by (simp add: set_mint_supply_def)

lemma process_initialize_mint_ok:
  assumes "process_initialize_mint cx metas signer keys s = (Inr (), t)"
  obtains "metas \<noteq> []" "meta_index (metas ! 0) < length keys" "keys ! meta_index (metas ! 0) = signer"
    "\<not> db_exists (vm_db s) signer" "vm_db t = store cx signer (new_mint signer signer) (vm_db s)"
  using assms by (fastforce simp: process_initialize_mint_def Let_def vm_simps list_get_Some split: if_splits)

lemma process_initialize_account_ok:
  assumes "process_initialize_account cx mint metas signer keys s = (Inr (), t)"
  obtains mint_account new_key where
    "3 \<le> length metas" "meta_index (metas ! 0) < length keys" "keys ! meta_index (metas ! 0) = mint"
    "meta_index (metas ! 1) < length keys" "new_key = keys ! meta_index (metas ! 1)"
    "load cx (vm_db s) mint = Some mint_account" "is_Mint (acc_data mint_account)"
    "\<not> db_exists (vm_db s) new_key"
    "vm_db t = store cx new_key (new_token_account new_key mint signer 0) (vm_db s)"
  using assms
  by (fastforce simp: process_initialize_account_def Let_def vm_simps split: if_splits)

lemma process_token_transfer_ok:
  assumes "process_token_transfer cx amount metas signer keys s = (Inr (), t)"
  obtains from_key to_key a b mint au x y x' y' where
    "2 \<le> length metas" "meta_index (metas ! 0) < length keys" "from_key = keys ! meta_index (metas ! 0)"
    "meta_index (metas ! 1) < length keys" "to_key = keys ! meta_index (metas ! 1)" "from_key \<noteq> to_key"
    "load cx (vm_db s) from_key = Some a" "acc_data a = Token mint signer x"
    "load cx (vm_db s) to_key = Some b" "acc_data b = Token mint au y"
    "unat x' + unat amount = unat x" "unat y' = unat y + unat amount"
    "vm_db t = store cx to_key (b\<lparr>acc_data := Token mint au y'\<rparr>)
       (store cx from_key (a\<lparr>acc_data := Token mint signer x'\<rparr>) (vm_db s))"
  using assms
  by (fastforce simp: process_token_transfer_def Let_def vm_simps checked_add_Some checked_sub_Some
      split: if_splits)

lemma process_mint_to_ok:
  assumes "process_mint_to cx amount metas signer keys s = (Inr (), t)"
  obtains mint_key dest_key a b au x y x' y' where
    "2 \<le> length metas" "meta_index (metas ! 0) < length keys" "mint_key = keys ! meta_index (metas ! 0)"
    "meta_index (metas ! 1) < length keys" "dest_key = keys ! meta_index (metas ! 1)"
    "load cx (vm_db s) mint_key = Some a" "acc_data a = Mint signer x"
    "load cx (vm_db s) dest_key = Some b" "acc_data b = Token mint_key au y"
    "unat x' = unat x + unat amount" "unat y' = unat y + unat amount"
    "vm_db t = store cx dest_key (b\<lparr>acc_data := Token mint_key au y'\<rparr>)
       (store cx mint_key (a\<lparr>acc_data := Mint signer x'\<rparr>) (vm_db s))"
  using assms
  by (fastforce simp: process_mint_to_def Let_def vm_simps checked_add_Some split: if_splits)

lemma process_burn_ok:
  assumes "process_burn cx amount metas signer keys s = (Inr (), t)"
  obtains mint_key token_key a b au x y where
    "2 \<le> length metas" "meta_index (metas ! 0) < length keys" "mint_key = keys ! meta_index (metas ! 0)"
    "meta_index (metas ! 1) < length keys" "token_key = keys ! meta_index (metas ! 1)"
    "load cx (vm_db s) mint_key = Some a" "acc_data a = Mint au x"
    "load cx (vm_db s) token_key = Some b" "acc_data b = Token mint_key signer y"
    "amount \<le> x" "amount \<le> y"
    "vm_db t = store cx token_key (b\<lparr>acc_data := Token mint_key signer (y - amount)\<rparr>)
       (store cx mint_key (a\<lparr>acc_data := Mint au (x - amount)\<rparr>) (vm_db s))"
  using assms
  by (fastforce simp: process_burn_def Let_def vm_simps not_less split: if_splits)

lemma process_initialize_mint_err:
  "process_initialize_mint cx metas signer keys s = (Inl e, t) \<Longrightarrow> vm_db t = vm_db s"
  by (auto simp: process_initialize_mint_def Let_def vm_simps split: if_splits)

lemma process_initialize_account_err:
  "process_initialize_account cx mint metas signer keys s = (Inl e, t) \<Longrightarrow> vm_db t = vm_db s"
  by (auto simp: process_initialize_account_def Let_def vm_simps split: if_splits)

lemma process_token_transfer_err:
  "process_token_transfer cx amount metas signer keys s = (Inl e, t) \<Longrightarrow> vm_db t = vm_db s"
  by (auto simp: process_token_transfer_def Let_def vm_simps split: if_splits prod.splits)

lemma process_mint_to_err:
  "process_mint_to cx amount metas signer keys s = (Inl e, t) \<Longrightarrow> vm_db t = vm_db s"
  by (auto simp: process_mint_to_def Let_def vm_simps split: if_splits prod.splits)

lemma process_burn_err:
  "process_burn cx amount metas signer keys s = (Inl e, t) \<Longrightarrow> vm_db t = vm_db s"
  by (auto simp: process_burn_def Let_def vm_simps split: if_splits prod.splits)

lemma token_process_cases:
  assumes "token_process_instruction cx data metas signer keys s = (r, t)"
  obtains "token_from_data data = Inr Tok_InitializeMint" "process_initialize_mint cx metas signer keys s = (r, t)"
  | mint where "token_from_data data = Inr (Tok_InitializeAccount mint)"
      "process_initialize_account cx mint metas signer keys s = (r, t)"
  | amount where "token_from_data data = Inr (Tok_Transfer amount)"
      "process_token_transfer cx amount metas signer keys s = (r, t)"
  | amount where "token_from_data data = Inr (Tok_MintTo amount)"
      "process_mint_to cx amount metas signer keys s = (r, t)"
  | amount where "token_from_data data = Inr (Tok_Burn amount)"
      "process_burn cx amount metas signer keys s = (r, t)"
  | e where "r = Inl e" "t = s"
proof (cases "token_from_data data")
  case (Inl e)
  then show ?thesis using assms that(6)[of e] by (auto simp: token_process_instruction_def)
next
  case (Inr ins)
  then show ?thesis using assms that by (cases ins) (auto simp: token_process_instruction_def)
qed

lemma token_process_err:
  assumes "token_process_instruction cx data metas signer keys s = (Inl e, t)"
  shows "vm_db t = vm_db s"
  using assms
  by (cases rule: token_process_cases)
    (auto dest: process_initialize_mint_err process_initialize_account_err process_token_transfer_err
      process_mint_to_err process_burn_err)

lemmas token_ok_elims = process_initialize_mint_ok process_initialize_account_ok
  process_token_transfer_ok process_mint_to_ok process_burn_ok

lemma token_process_inv:
  assumes "token_process_instruction cx data metas signer keys s = (r, t)" "db_inv cx (vm_db s)"
  shows "db_inv cx (vm_db t)"
proof (cases r)
  case (Inl e)
  then show ?thesis using token_process_err assms by metis
next
  case (Inr u)
  from assms(1) show ?thesis
    by (cases rule: token_process_cases)
      (use Inr assms(2) in \<open>auto elim!: token_ok_elims simp: db_inv_store\<close>)
qed

subsection \<open>Footprint\<close>

lemma token_process_frame:
  assumes "token_process_instruction cx data metas signer keys s = (r, t)" "db_inv cx (vm_db s)"
    and "k \<notin> resolved_keys metas keys"
  shows "load cx (vm_db t) k = load cx (vm_db s) k"
proof (cases r)
  case (Inl e)
  then show ?thesis using token_process_err assms by metis
next
  case (Inr u)
  have nth: "i < length metas \<Longrightarrow> meta_index (metas ! i) < length keys \<Longrightarrow> keys ! meta_index (metas ! i) \<noteq> k" for i
    using resolved_keysI[of i metas keys] assms(3) by auto
  have ne: "2 \<le> length metas \<Longrightarrow> metas \<noteq> []" "3 \<le> length metas \<Longrightarrow> metas \<noteq> []" by auto
  from assms(1) show ?thesis
    by (cases rule: token_process_cases)
      (use Inr assms(2) ne nth[of 0] nth[of 1] in
        \<open>auto elim!: token_ok_elims simp: db_inv_store load_store\<close>)
qed

lemma load_owned_agree:
  "resolved_keys metas keys \<subseteq> K \<Longrightarrow> vm_agree cx K s1 s2 \<Longrightarrow> k \<in> resolved_keys metas keys \<Longrightarrow>
   load_owned cx (vm_db s1) k = load_owned cx (vm_db s2) k"
  by (simp add: load_owned_def vm_agree_resolved(1))

lemma process_initialize_mint_local:
  assumes "vm_agree cx K s1 s2" "resolved_keys metas keys \<subseteq> K"
  shows "vm_sim cx K (process_initialize_mint cx metas signer keys s1) (process_initialize_mint cx metas signer keys s2)"
  unfolding process_initialize_mint_def Let_def
  by (intro vm_sim_intros assms(1))
    (auto simp: vm_simps list_get_Some vm_agree_resolved[OF assms(2)] resolved_key0 intro!: vm_sim_intros)

lemma process_initialize_account_local:
  assumes "vm_agree cx K s1 s2" "resolved_keys metas keys \<subseteq> K"
  shows "vm_sim cx K (process_initialize_account cx mint metas signer keys s1)
    (process_initialize_account cx mint metas signer keys s2)"
  unfolding process_initialize_account_def Let_def
  by (intro vm_sim_intros assms(1))
    (auto simp: vm_simps vm_agree_resolved[OF assms(2)] load_owned_agree[OF assms(2)] resolved_key_lt
      intro!: vm_sim_intros)

lemma vm_sim_case_prod [vm_sim_intros]:
  "(\<And>a b. p = (a, b) \<Longrightarrow> vm_sim cx K (f a b) (g a b)) \<Longrightarrow> vm_sim cx K (case_prod f p) (case_prod g p)"
  by (cases p) simp

lemma process_token_transfer_local:
  assumes "vm_agree cx K s1 s2" "resolved_keys metas keys \<subseteq> K"
  shows "vm_sim cx K (process_token_transfer cx amount metas signer keys s1)
    (process_token_transfer cx amount metas signer keys s2)"
  unfolding process_token_transfer_def Let_def
  by (intro vm_sim_intros assms(1))
    (auto simp: vm_simps load_owned_agree[OF assms(2)] resolved_key_lt intro!: vm_sim_intros)

lemma process_mint_to_local:
  assumes "vm_agree cx K s1 s2" "resolved_keys metas keys \<subseteq> K"
  shows "vm_sim cx K (process_mint_to cx amount metas signer keys s1)
    (process_mint_to cx amount metas signer keys s2)"
  unfolding process_mint_to_def Let_def
  by (intro vm_sim_intros assms(1))
    (auto simp: vm_simps load_owned_agree[OF assms(2)] resolved_key_lt intro!: vm_sim_intros)

lemma process_burn_local:
  assumes "vm_agree cx K s1 s2" "resolved_keys metas keys \<subseteq> K"
  shows "vm_sim cx K (process_burn cx amount metas signer keys s1)
    (process_burn cx amount metas signer keys s2)"
  unfolding process_burn_def Let_def
  by (intro vm_sim_intros assms(1))
    (auto simp: vm_simps load_owned_agree[OF assms(2)] resolved_key_lt intro!: vm_sim_intros)

lemma token_process_local:
  assumes "vm_agree cx K s1 s2" "resolved_keys metas keys \<subseteq> K"
  shows "vm_sim cx K (token_process_instruction cx data metas signer keys s1)
    (token_process_instruction cx data metas signer keys s2)"
  unfolding token_process_instruction_def
  by (intro vm_sim_try assms(1))
    (auto intro!: process_initialize_mint_local process_initialize_account_local
      process_token_transfer_local process_mint_to_local process_burn_local
      vm_sim_intros assms split: token_instruction.split)
subsection \<open>The supply invariant of the token program\<close>

lemma token_units_two:
  assumes "finite (dom m)" "j \<noteq> k" "m j = Some a0" "m k = Some b0"
  shows "token_units M (m(j \<mapsto> a, k \<mapsto> b)) + token_units_of M (acc_data a0) + token_units_of M (acc_data b0) =
    token_units M m + token_units_of M (acc_data a) + token_units_of M (acc_data b)"
  using msum_upd[OF assms(1), of "\<lambda>a. token_units_of M (acc_data a)" j a]
    msum_upd[of "m(j \<mapsto> a)" "\<lambda>a. token_units_of M (acc_data a)" k b] assms
  by (simp add: token_units_def)

lemma token_units_zero:
  assumes "finite (dom m)" "m k = None" "\<And>M. token_units_of M (acc_data a) = 0"
  shows "token_units M (m(k \<mapsto> a)) = token_units M m"
  using msum_upd_new[OF assms(1,2), of "\<lambda>a. token_units_of M (acc_data a)" a] assms(3)
  by (simp add: token_units_def)

lemma mint_units_upd:
  "mint_units M (m(k \<mapsto> a)) = (if M = k then mint_units_of (acc_data a) else mint_units M m)"
  by (simp add: mint_units_def mval_def)

lemma mint_units_lookup: "m M = Some a \<Longrightarrow> mint_units M m = mint_units_of (acc_data a)"
  by (simp add: mint_units_def)

lemma token_inv_data_cong:
  assumes "finite (dom m)" "finite (dom m')" "token_inv m"
    and "\<And>k. (\<forall>M. mval (\<lambda>a. token_units_of M (acc_data a)) m' k = mval (\<lambda>a. token_units_of M (acc_data a)) m k) \<and>
           mint_units k m' = mint_units k m"
  shows "token_inv m'"
  using assms msum_mval_cong[OF assms(2,1)] by (simp add: token_inv_def token_units_def)

lemma process_initialize_mint_token_inv:
  assumes "process_initialize_mint cx metas signer keys s = (Inr (), t)" "db_inv cx (vm_db s)"
    "token_inv (load cx (vm_db s))"
  shows "token_inv (load cx (vm_db t))"
  using assms(1)
proof (cases rule: process_initialize_mint_ok)
  case 1
  then have new: "load cx (vm_db s) signer = None" using db_exists_load[OF assms(2)] by simp
  then have "mint_units signer (load cx (vm_db s)) = 0" by (simp add: mint_units_def)
  then show ?thesis
    using assms(2,3) new unfolding 1(5)
    by (simp add: load_store token_inv_def token_units_zero mint_units_upd new_mint_def)
qed

lemma process_initialize_account_token_inv:
  assumes "process_initialize_account cx mint metas signer keys s = (Inr (), t)" "db_inv cx (vm_db s)"
    "token_inv (load cx (vm_db s))"
  shows "token_inv (load cx (vm_db t))"
  using assms(1)
proof (cases rule: process_initialize_account_ok)
  case (1 mint_account new_key)
  then have new: "load cx (vm_db s) new_key = None" using db_exists_load[OF assms(2)] by simp
  then have "mint_units new_key (load cx (vm_db s)) = 0" by (simp add: mint_units_def)
  then show ?thesis
    using assms(2,3) new unfolding 1(9)
    by (simp add: load_store token_inv_def token_units_zero mint_units_upd new_token_account_def)
qed

lemma process_token_transfer_token_inv:
  assumes "process_token_transfer cx amount metas signer keys s = (Inr (), t)" "db_inv cx (vm_db s)"
    "token_inv (load cx (vm_db s))"
  shows "token_inv (load cx (vm_db t))"
  using assms(1)
proof (cases rule: process_token_transfer_ok)
  case (1 from_key to_key a b mint au x y x' y')
  let ?m = "load cx (vm_db s)"
  have "token_units M (load cx (vm_db t)) = token_units M ?m" for M
    using token_units_two[OF finite_dom_load[OF assms(2)] 1(6,7,9), of M
        "a\<lparr>acc_data := Token mint signer x'\<rparr>" "b\<lparr>acc_data := Token mint au y'\<rparr>"] 1 assms(2)
    by (simp add: load_store db_inv_store split: if_splits)
  moreover have "mint_units M (load cx (vm_db t)) = mint_units M ?m" for M
    using 1 assms(2) by (simp add: load_store db_inv_store mint_units_upd mint_units_lookup)
  ultimately show ?thesis using assms(3) by (simp add: token_inv_def)
qed

lemma process_mint_to_token_inv:
  assumes "process_mint_to cx amount metas signer keys s = (Inr (), t)" "db_inv cx (vm_db s)"
    "token_inv (load cx (vm_db s))"
  shows "token_inv (load cx (vm_db t))"
  using assms(1)
proof (cases rule: process_mint_to_ok)
  case (1 mint_key dest_key a b au x y x' y')
  let ?m = "load cx (vm_db s)" and ?amt = "\<lambda>M. if M = mint_key then unat amount else 0"
  have ne: "mint_key \<noteq> dest_key" using 1(6-9) by auto
  have "token_units M (load cx (vm_db t)) = token_units M ?m + ?amt M" for M
    using token_units_two[OF finite_dom_load[OF assms(2)] ne 1(6,8), of M
        "a\<lparr>acc_data := Mint signer x'\<rparr>" "b\<lparr>acc_data := Token mint_key au y'\<rparr>"] 1 assms(2)
    by (simp add: load_store db_inv_store split: if_splits)
  moreover have "mint_units M (load cx (vm_db t)) = mint_units M ?m + ?amt M" for M
    using 1 assms(2) ne by (simp add: load_store db_inv_store mint_units_upd mint_units_lookup)
  ultimately show ?thesis using assms(3) by (simp add: token_inv_def)
qed

lemma process_burn_token_inv:
  assumes "process_burn cx amount metas signer keys s = (Inr (), t)" "db_inv cx (vm_db s)"
    "token_inv (load cx (vm_db s))"
  shows "token_inv (load cx (vm_db t))"
  using assms(1)
proof (cases rule: process_burn_ok)
  case (1 mint_key token_key a b au x y)
  let ?m = "load cx (vm_db s)" and ?amt = "\<lambda>M. if M = mint_key then unat amount else 0"
  have ne: "mint_key \<noteq> token_key" using 1(6-9) by auto
  note sub = unat_minus_le[OF 1(10)] unat_minus_le[OF 1(11)]
  have "token_units M (load cx (vm_db t)) + ?amt M = token_units M ?m" for M
    using token_units_two[OF finite_dom_load[OF assms(2)] ne 1(6,8), of M
        "a\<lparr>acc_data := Mint au (x - amount)\<rparr>" "b\<lparr>acc_data := Token mint_key signer (y - amount)\<rparr>"]
      1 assms(2) sub
    by (simp add: load_store db_inv_store split: if_splits)
  moreover have "mint_units M (load cx (vm_db t)) + ?amt M = mint_units M ?m" for M
    using 1 assms(2) ne sub by (simp add: load_store db_inv_store mint_units_upd mint_units_lookup)
  ultimately show ?thesis using assms(3) by (metis add_right_cancel token_inv_def)
qed

lemma authorised_refl: "authorised_change signer a a"
  by (simp add: authorised_change_def split: account_data.splits)

lemma authorised_token:
  "acc_data a = Token m au x \<Longrightarrow> x \<le> y \<or> au = signer \<Longrightarrow> authorised_change signer a (a\<lparr>acc_data := Token m au y\<rparr>)"
  by (auto simp: authorised_change_def)

lemma authorised_mint:
  "acc_data a = Mint au x \<Longrightarrow> y \<le> x \<or> au = signer \<Longrightarrow> authorised_change signer a (a\<lparr>acc_data := Mint au y\<rparr>)"
  by (auto simp: authorised_change_def)

lemma word_le_plus: "unat (y' :: u64) = unat y + n \<Longrightarrow> y \<le> y'"
  by (simp add: word_le_nat_alt)

lemma word_minus_le: "(a :: u64) \<le> x \<Longrightarrow> x - a \<le> x"
  by (metis word_le_nat_alt unat_minus_le le_add1)

lemma two_writes_authorised:
  assumes "db_inv cx db" "j \<noteq> k" "load cx db j = Some a0" "load cx db k = Some b0"
    and "authorised_change signer a0 a" "authorised_change signer b0 b" "load cx db q = Some c"
  shows "\<exists>c'. load cx (store cx k b (store cx j a db)) q = Some c' \<and> authorised_change signer c c'"
  using assms by (auto simp: load_store db_inv_store authorised_refl)

lemma new_write_authorised:
  assumes "db_inv cx db" "\<not> db_exists db j" "load cx db q = Some c"
  shows "\<exists>c'. load cx (store cx j a db) q = Some c' \<and> authorised_change signer c c'"
  using assms db_exists_load[OF assms(1), of j] by (auto simp: load_store authorised_refl)

lemma token_process_authorised:
  assumes "token_process_instruction cx data metas signer keys s = (r, t)" "db_inv cx (vm_db s)"
    and "load cx (vm_db s) k = Some a"
  shows "\<exists>a'. load cx (vm_db t) k = Some a' \<and> authorised_change signer a a'"
proof (cases r)
  case (Inl e)
  then show ?thesis using token_process_err assms authorised_refl by metis
next
  case (Inr u)
  from assms(1) show ?thesis
  proof (cases rule: token_process_cases)
    case 1
    with Inr assms(2,3) show ?thesis
      by (auto elim!: process_initialize_mint_ok intro!: new_write_authorised)
  next
    case (2 mint)
    with Inr assms(2,3) show ?thesis
      by (auto elim!: process_initialize_account_ok intro!: new_write_authorised)
  next
    case (3 amount)
    from 3(2)[unfolded Inr unit_eq[of u]] show ?thesis
      by (cases rule: process_token_transfer_ok)
        (use assms(2,3) in \<open>auto intro!: two_writes_authorised authorised_token intro: word_le_plus\<close>)
  next
    case (4 amount)
    from 4(2)[unfolded Inr unit_eq[of u]] show ?thesis
      by (cases rule: process_mint_to_ok)
        (use assms(2,3) in \<open>auto intro!: two_writes_authorised authorised_token authorised_mint intro: word_le_plus\<close>)
  next
    case (5 amount)
    from 5(2)[unfolded Inr unit_eq[of u]] show ?thesis
      by (cases rule: process_burn_ok)
        (use assms(2,3) in \<open>auto intro!: two_writes_authorised authorised_token authorised_mint intro: word_minus_le\<close>)
  qed (use Inr in simp)
qed

lemma token_process_token_inv:
  assumes "token_process_instruction cx data metas signer keys s = (r, t)" "db_inv cx (vm_db s)"
    "token_inv (load cx (vm_db s))"
  shows "token_inv (load cx (vm_db t))"
proof (cases r)
  case (Inl e)
  then show ?thesis using token_process_err assms by metis
next
  case (Inr u)
  from assms(1) show ?thesis
    by (cases rule: token_process_cases)
      (use Inr assms(2,3) in \<open>auto intro: process_initialize_mint_token_inv
        process_initialize_account_token_inv process_token_transfer_token_inv
        process_mint_to_token_inv process_burn_token_inv\<close>)
qed

subsection \<open>Lamports under the token program\<close>

lemma supply_new_write:
  "db_inv cx db \<Longrightarrow> \<not> db_exists db k \<Longrightarrow>
   lamport_supply cx (store cx k a db) = lamport_supply cx db + unat (lamports a)"
  using adb.sum_put[of cx db "\<lambda>a. unat (lamports a)" k a]
  by (simp add: lamport_supply_def db_exists_load)

lemma supply_two_same:
  assumes "db_inv cx db" "j \<noteq> k" "load cx db j = Some a0" "load cx db k = Some b0"
    "lamports a = lamports a0" "lamports b = lamports b0"
  shows "lamport_supply cx (store cx k b (store cx j a db)) = lamport_supply cx db"
  using assms by (intro supply_two_writes) simp_all

lemma token_process_supply:
  assumes "token_process_instruction cx data metas signer keys s = (r, t)" "db_inv cx (vm_db s)"
  shows "lamport_supply cx (vm_db t) = lamport_supply cx (vm_db s) +
    (if r = Inr () \<and> token_from_data data = Inr Tok_InitializeMint then 890880 else 0)"
proof (cases r)
  case (Inl e)
  then show ?thesis using token_process_err assms(1) by fastforce
next
  case (Inr u)
  from assms(1) show ?thesis
    by (cases rule: token_process_cases)
      (use Inr assms(2) in \<open>auto elim!: token_ok_elims intro!: supply_two_same
        simp: supply_new_write new_mint_def new_token_account_def MINIMUM_RENT_EXEMPT_BALANCE_def\<close>)
qed

lemma demo_tokens_inv: "db_inv demo_db (vm_db demo_tokens)"
  by (simp add: demo_tokens_def db_inv_store db_inv_new)

lemma demo_tokens_load: "load demo_db (vm_db demo_tokens) = [10 \<mapsto> set_mint_supply 7 (new_mint 10 5),
    11 \<mapsto> new_token_account 11 10 5 7, 12 \<mapsto> new_token_account 12 10 6 0]"
  by (simp add: demo_tokens_def db_inv_store db_inv_new load_store)

lemma demo_tokens_token_inv: "token_inv (load demo_db (vm_db demo_tokens))"
  unfolding demo_tokens_load token_inv_def token_units_def
  by (simp add: msum_upd_new mint_units_def mval_def new_mint_def new_token_account_def msum_def)

subsection \<open>Properties of the token program\<close>

text \<open>
  C8 The token program keeps the supply invariant: if the supply recorded in every mint is
  the sum of the balances of the token accounts of that mint, it still is after any token
  instruction, successful or not, with every sum taken without wrap-around.
\<close>

theorem token_program_supply_invariant:
  assumes "token_process_instruction cx data metas signer keys s = (r, t)" "db_inv cx (vm_db s)"
    and "token_inv (load cx (vm_db s))"
  shows "token_inv (load cx (vm_db t))"
  using assms by (rule token_process_token_inv)

theorem token_program_supply_invariant_witness:
  "token_inv (load demo_db (vm_db demo_tokens)) \<and>
   token_inv (load demo_db (vm_db (snd (token_process_instruction demo_db
     (token_to_data (Tok_Transfer 3)) [writable 0, writable 1] 5 [11, 12] demo_tokens))))"
  using token_program_supply_invariant[OF prod.collapse[symmetric] demo_tokens_inv demo_tokens_token_inv]
    demo_tokens_token_inv by simp

text \<open>
  C27 Token authority: whatever a token instruction does, every existing account keeps its
  lamports, owner and kind; a token balance decreases only when the account's authority
  signed, and a mint's supply increases only when its mint authority signed.
\<close>

theorem token_program_authorization:
  assumes "token_process_instruction cx data metas signer keys s = (r, t)" "db_inv cx (vm_db s)"
    and "load cx (vm_db s) k = Some a"
  shows "\<exists>a'. load cx (vm_db t) k = Some a' \<and> authorised_change signer a a'"
  using assms by (rule token_process_authorised)

theorem token_program_authorization_witness:
  "\<exists>a'. load demo_db (vm_db (snd (token_process_instruction demo_db
     (token_to_data (Tok_Transfer 3)) [writable 0, writable 1] 6 [11, 12] demo_tokens))) 11 = Some a' \<and>
     authorised_change 6 (new_token_account 11 10 5 7) a'"
  by (rule token_program_authorization[OF prod.collapse[symmetric] demo_tokens_inv])
    (simp add: demo_tokens_load)

text \<open>
  Creating a mint creates lamports: whenever the signer has no account yet,
  InitializeMint succeeds, stores a rent-exempt mint without debiting anyone, and the total
  of all balances grows by 890880.
\<close>

theorem initialize_mint_creates_lamports:
  assumes "db_inv cx (vm_db s)" "load cx (vm_db s) signer = None"
    and "consumed (budget s) + 300 \<le> max_units (budget s)"
  shows "\<exists>t. token_process_instruction cx (token_to_data Tok_InitializeMint) [signer_writable 0] signer [signer] s = (Inr (), t) \<and>
    load cx (vm_db t) = (load cx (vm_db s))(signer \<mapsto> new_mint signer signer) \<and>
    lamport_supply cx (vm_db t) = lamport_supply cx (vm_db s) + 890880"
proof -
  have new: "\<not> db_exists (vm_db s) signer" using assms(2) db_exists_load[OF assms(1)] by simp
  let ?x = "token_process_instruction cx (token_to_data Tok_InitializeMint) [signer_writable 0] signer [signer] s"
  have dec: "token_from_data [1] = Inr Tok_InitializeMint" using token_from_to_data[of Tok_InitializeMint "[]"] by simp
  have "\<exists>t. ?x = (Inr (), t)"
    using assms(3) new dec
    by (simp add: token_process_instruction_def process_initialize_mint_def vm_simps consume_ok
        signer_writable_def list_get_def resolve_account_key_def Let_def)
  then obtain t where t: "?x = (Inr (), t)" ..
  then have "vm_db t = store cx signer (new_mint signer signer) (vm_db s)"
    using dec by (auto simp: token_process_instruction_def elim!: process_initialize_mint_ok)
  then show ?thesis
    using t token_process_supply[OF t assms(1)] dec assms(1) by (simp add: load_store)
qed

theorem initialize_mint_creates_lamports_witness:
  "\<exists>t. token_process_instruction demo_db (token_to_data Tok_InitializeMint) [signer_writable 0] 9 [9] demo_vm = (Inr (), t) \<and>
    lamport_supply demo_db (vm_db t) = lamport_supply demo_db (vm_db demo_vm) + 890880"
  using initialize_mint_creates_lamports[OF demo_vm_inv, of 9]
  by (auto simp: demo_vm_def load_store db_inv_store db_inv_new compute_budget_new_def)

end
