(* ===== verification/Processor.thy ===== *)
theory Processor
  imports TokenProgram
begin

text \<open>
  The instruction processor (\<^verbatim>\<open>crates/program-executor/src/processor.rs\<close>): the compute budget
  and the dispatch to the native programs. The result and the accounts after the call are
  returned together.
\<close>

definition processor_finish ::
    "(instruction_error + unit) \<times> vm \<Rightarrow> instruction_result \<times> accounts_db" where
  "processor_finish rt =
     (case rt of (result, s) \<Rightarrow>
        (case result of
           Inr _ \<Rightarrow>
             (let s = vm_log (''Program success ('' @ show_word (consumed (budget s)) @ '' compute units)'') s
              in (with_logs True (consumed (budget s)) None (vm_logs s), vm_db s))
         | Inl e \<Rightarrow>
             (let s = vm_log (''Program failed: '' @ show_instruction_error e) s
              in (with_logs False (consumed (budget s)) (Some e) (vm_logs s), vm_db s))))"

text \<open>
  \<^verbatim>\<open>if let Err(e) = budget.consume(units) { return ... }\<close>: running out of budget before
  the program starts returns without the closing log line.
\<close>

definition processor_charge ::
    "u64 \<Rightarrow> vm \<Rightarrow> (vm \<Rightarrow> (instruction_error + unit) \<times> vm) \<Rightarrow> instruction_result \<times> accounts_db" where
  "processor_charge units s run =
     (case consume units (budget s) of
        (Inl e, b) \<Rightarrow> (with_logs False (consumed b) (Some e) (vm_logs s), vm_db s)
      | (Inr _, b) \<Rightarrow> processor_finish (run (s\<lparr>budget := b\<rparr>)))"

definition process_instruction ::
    "('z) db_ext_scheme \<Rightarrow> instruction \<Rightarrow> pubkey \<Rightarrow> pubkey list \<Rightarrow> accounts_db \<Rightarrow>
     instruction_result \<times> accounts_db" where
  "process_instruction cx ins signer keys db =
     (let s = \<lparr>vm_db = db, budget = compute_budget_new DEFAULT_COMPUTE_UNITS,
               vm_logs = [''Program '' @ hex_prefix 4 (program_id ins)]\<rparr>
      in if program_id ins = fill32 1 then
           processor_charge 150 s
             (system_process_instruction cx (ins_data ins) (account_metas ins) signer keys)
         else if program_id ins = fill32 2 then
           processor_charge 150 s
             (token_process_instruction cx (ins_data ins) (account_metas ins) signer keys)
         else
           (case load cx db (program_id ins) of
              Some account \<Rightarrow>
                if executable account then
                  processor_charge 500 s
                    (\<lambda>s. (Inl (ProgramError ''program is deployed but no SBF runtime is linked''), s))
                else processor_finish (Inl InvalidAccountOwner, s)
            | None \<Rightarrow> processor_finish (Inl AccountNotFound, s)))"

subsection \<open>Budget use of the programs\<close>

lemma try_in_budget:
  "(\<And>x. r = Inr x \<Longrightarrow> budget (snd (k x)) = b) \<Longrightarrow> budget s = b \<Longrightarrow> budget (snd (try_in r s k)) = b"
  by (cases r) simp_all

lemma vm_charge_budget:
  "(\<And>t. budget t = snd (consume u (budget s)) \<Longrightarrow> budget (snd (k t)) = budget t) \<Longrightarrow>
   budget (snd (vm_charge u s k)) = snd (consume u (budget s))"
  by (auto simp: vm_charge_def split: prod.split intro!: try_in_budget)

lemmas program_defs = process_transfer_def process_create_account_def process_assign_def
  process_initialize_mint_def process_initialize_account_def process_token_transfer_def
  process_mint_to_def process_burn_def

lemma program_budget:
  "budget (snd (process_transfer cx x ms sg ks s)) = snd (consume 150 (budget s))"
  "budget (snd (process_create_account cx x y z ms sg ks s)) = snd (consume 200 (budget s))"
  "budget (snd (process_assign cx z ms sg ks s)) = snd (consume 100 (budget s))"
  "budget (snd (process_initialize_mint cx ms sg ks s)) = snd (consume 300 (budget s))"
  "budget (snd (process_initialize_account cx z ms sg ks s)) = snd (consume 300 (budget s))"
  "budget (snd (process_token_transfer cx x ms sg ks s)) = snd (consume 200 (budget s))"
  "budget (snd (process_mint_to cx x ms sg ks s)) = snd (consume 200 (budget s))"
  "budget (snd (process_burn cx x ms sg ks s)) = snd (consume 200 (budget s))"
  unfolding program_defs
  by (rule vm_charge_budget, auto simp: Let_def intro!: try_in_budget split: prod.split)+

lemma system_process_budget:
  "budget (snd (system_process_instruction cx data ms sg ks s)) = b \<Longrightarrow>
   b = budget s \<or> (\<exists>u \<in> {100, 150, 200}. b = snd (consume u (budget s)))"
  by (cases "system_from_data data")
    (auto simp: system_process_instruction_def program_budget split: system_instruction.splits)

lemma token_process_budget:
  "budget (snd (token_process_instruction cx data ms sg ks s)) = b \<Longrightarrow>
   b = budget s \<or> (\<exists>u \<in> {200, 300}. b = snd (consume u (budget s)))"
  by (cases "token_from_data data")
    (auto simp: token_process_instruction_def program_budget split: token_instruction.splits)

subsection \<open>The dispatch\<close>

definition native_vm :: "instruction \<Rightarrow> accounts_db \<Rightarrow> vm" where
  "native_vm ins db = \<lparr>vm_db = db, budget = \<lparr>max_units = 150000, consumed = 150\<rparr>,
     vm_logs = [''Program '' @ hex_prefix 4 (program_id ins)]\<rparr>"

lemma native_vm_db [simp]: "vm_db (native_vm ins db) = db"
  by (simp add: native_vm_def)

lemma processor_finish_sel [simp]:
  "ir_success (fst (processor_finish rt)) \<longleftrightarrow> fst rt = Inr ()"
  "snd (processor_finish rt) = vm_db (snd rt)"
  "compute_units_consumed (fst (processor_finish rt)) = consumed (budget (snd rt))"
  by (auto simp: processor_finish_def with_logs_def Let_def split: prod.splits sum.splits)

lemma fill32_1_2: "fill32 1 \<noteq> fill32 2"
  by (simp add: fill32_inj)

lemma process_system:
  "program_id ins = fill32 1 \<Longrightarrow> process_instruction cx ins signer keys db =
   processor_finish (system_process_instruction cx (ins_data ins) (account_metas ins) signer keys (native_vm ins db))"
  by (simp add: process_instruction_def processor_charge_def consume_def compute_budget_new_def
      DEFAULT_COMPUTE_UNITS_def native_vm_def Let_def)

lemma process_token:
  "program_id ins = fill32 2 \<Longrightarrow> process_instruction cx ins signer keys db =
   processor_finish (token_process_instruction cx (ins_data ins) (account_metas ins) signer keys (native_vm ins db))"
  using fill32_1_2
  by (simp add: process_instruction_def processor_charge_def consume_def compute_budget_new_def
      DEFAULT_COMPUTE_UNITS_def native_vm_def Let_def)

lemma process_other:
  assumes "program_id ins \<noteq> fill32 1" "program_id ins \<noteq> fill32 2"
  shows "\<not> ir_success (fst (process_instruction cx ins signer keys db)) \<and>
    snd (process_instruction cx ins signer keys db) = db \<and>
    compute_units_consumed (fst (process_instruction cx ins signer keys db)) \<in> {0, 500}"
  using assms
  by (simp add: process_instruction_def processor_charge_def consume_def compute_budget_new_def
      DEFAULT_COMPUTE_UNITS_def Let_def split: option.split)

lemma process_instruction_cases:
  assumes "process_instruction cx ins signer keys db = (res, db')"
  obtains (system) r t where "program_id ins = fill32 1"
      "system_process_instruction cx (ins_data ins) (account_metas ins) signer keys (native_vm ins db) = (r, t)"
      "res = fst (processor_finish (r, t))" "db' = vm_db t"
  | (token) r t where "program_id ins = fill32 2"
      "token_process_instruction cx (ins_data ins) (account_metas ins) signer keys (native_vm ins db) = (r, t)"
      "res = fst (processor_finish (r, t))" "db' = vm_db t"
  | (other) "program_id ins \<noteq> fill32 1" "program_id ins \<noteq> fill32 2" "db' = db" "\<not> ir_success res"
proof -
  consider "program_id ins = fill32 1" | "program_id ins = fill32 2"
    | "program_id ins \<noteq> fill32 1" "program_id ins \<noteq> fill32 2" by blast
  then show ?thesis
  proof cases
    case 1
    let ?x = "system_process_instruction cx (ins_data ins) (account_metas ins) signer keys (native_vm ins db)"
    have e: "processor_finish ?x = (res, db')"
      using 1 assms by (simp add: process_system)
    show ?thesis
      by (rule system[of "fst ?x" "snd ?x"]) (use 1 e processor_finish_sel(2)[of ?x] in simp_all)
  next
    case 2
    let ?x = "token_process_instruction cx (ins_data ins) (account_metas ins) signer keys (native_vm ins db)"
    have e: "processor_finish ?x = (res, db')"
      using 2 assms by (simp add: process_token)
    show ?thesis
      by (rule token[of "fst ?x" "snd ?x"]) (use 2 e processor_finish_sel(2)[of ?x] in simp_all)
  next
    case 3
    then show ?thesis using other process_other[OF 3, of cx signer keys db] assms by simp
  qed
qed

lemma process_instruction_failed:
  assumes "process_instruction cx ins signer keys db = (res, db')" "\<not> ir_success res"
  shows "db' = db"
  using assms(1)
proof (cases rule: process_instruction_cases)
  case (system r t)
  then show ?thesis using assms(2) system_process_err by (cases r) fastforce+
next
  case (token r t)
  then show ?thesis using assms(2) token_process_err by (cases r) fastforce+
qed

lemma process_instruction_inv:
  assumes "process_instruction cx ins signer keys db = (res, db')" "db_inv cx db"
  shows "db_inv cx db'"
  using assms(1)
  by (cases rule: process_instruction_cases)
    (use assms(2) in \<open>auto dest!: system_process_inv token_process_inv\<close>)

lemma process_instruction_frame:
  assumes "process_instruction cx ins signer keys db = (res, db')" "db_inv cx db"
    and "k \<notin> resolved_keys (account_metas ins) keys"
  shows "load cx db' k = load cx db k"
  using assms(1)
  by (cases rule: process_instruction_cases)
    (use assms(2,3) in \<open>auto dest!: system_process_frame token_process_frame\<close>)

lemma vm_agree_native:
  "db_inv cx d1 \<Longrightarrow> db_inv cx d2 \<Longrightarrow> (\<And>k. k \<in> K \<Longrightarrow> load cx d1 k = load cx d2 k) \<Longrightarrow>
   vm_agree cx K (native_vm ins d1) (native_vm ins d2)"
  by (simp add: vm_agree_def native_vm_def)

lemma processor_finish_sim:
  "vm_sim cx K x y \<Longrightarrow> fst (processor_finish x) = fst (processor_finish y) \<and>
   (\<forall>k\<in>K. load cx (snd (processor_finish x)) k = load cx (snd (processor_finish y)) k)"
  by (auto simp: vm_sim_def vm_agree_def processor_finish_def Let_def split: prod.splits sum.splits)

lemma process_instruction_local:
  assumes "db_inv cx d1" "db_inv cx d2" "resolved_keys (account_metas ins) keys \<subseteq> K" "program_id ins \<in> K"
    and "\<And>k. k \<in> K \<Longrightarrow> load cx d1 k = load cx d2 k"
  shows "fst (process_instruction cx ins signer keys d1) = fst (process_instruction cx ins signer keys d2) \<and>
    (\<forall>k\<in>K. load cx (snd (process_instruction cx ins signer keys d1)) k =
            load cx (snd (process_instruction cx ins signer keys d2)) k)"
proof -
  have agree: "vm_agree cx K (native_vm ins d1) (native_vm ins d2)"
    using assms by (intro vm_agree_native)
  consider "program_id ins = fill32 1" | "program_id ins = fill32 2"
    | "program_id ins \<noteq> fill32 1" "program_id ins \<noteq> fill32 2" by blast
  then show ?thesis
  proof cases
    case 1
    show ?thesis
      unfolding process_system[OF 1] by (rule processor_finish_sim[OF system_process_local[OF agree assms(3)]])
  next
    case 2
    show ?thesis
      unfolding process_token[OF 2] by (rule processor_finish_sim[OF token_process_local[OF agree assms(3)]])
  next
    case 3
    have "fst (process_instruction cx ins signer keys d1) = fst (process_instruction cx ins signer keys d2)"
      using 3 assms(4,5) by (auto simp: process_instruction_def processor_charge_def processor_finish_def Let_def
          split: option.split prod.split sum.split)
    then show ?thesis using process_other[OF 3, of cx signer keys d1]
        process_other[OF 3, of cx signer keys d2] assms(5) by simp
  qed
qed

subsection \<open>Token invariant, lamports and compute through the dispatch\<close>

text \<open>A write that keeps the data of an account, or adds one without token data.\<close>

definition token_neutral :: "account option \<Rightarrow> account \<Rightarrow> bool" where
  "token_neutral old a \<longleftrightarrow>
     (case old of Some b \<Rightarrow> acc_data a = acc_data b
      | None \<Rightarrow> (\<forall>M. token_units_of M (acc_data a) = 0) \<and> mint_units_of (acc_data a) = 0)"

lemma token_neutral_write:
  assumes "db_inv cx db" "token_inv (load cx db)" "token_neutral (load cx db k) a"
  shows "token_inv (load cx (store cx k a db))"
proof (rule token_inv_data_cong[OF _ _ assms(2)])
  fix q
  show "(\<forall>M. mval (\<lambda>a. token_units_of M (acc_data a)) (load cx (store cx k a db)) q =
      mval (\<lambda>a. token_units_of M (acc_data a)) (load cx db) q) \<and>
    mint_units q (load cx (store cx k a db)) = mint_units q (load cx db)"
    using assms(1,3)
    by (auto simp: load_store mval_def mint_units_def token_neutral_def split: option.splits)
qed (use assms(1) in \<open>simp_all add: db_inv_store\<close>)

lemma process_transfer_token_inv:
  assumes "process_transfer cx amount metas signer keys s = (Inr (), t)" "db_inv cx (vm_db s)"
    "token_inv (load cx (vm_db s))"
  shows "token_inv (load cx (vm_db t))"
  using assms(1)
proof (cases rule: process_transfer_ok)
  case (1 from_account to_account to_pubkey credited)
  let ?d = "store cx signer (from_account\<lparr>lamports := lamports from_account - amount\<rparr>) (vm_db s)"
  have "token_inv (load cx ?d)"
    using assms 1 by (intro token_neutral_write) (simp_all add: token_neutral_def)
  moreover have "token_neutral (load cx ?d to_pubkey) (to_account\<lparr>lamports := credited\<rparr>)"
    using assms(2) 1(6,8) by (auto simp: load_store token_neutral_def new_system_account_def split: option.splits)
  ultimately show ?thesis unfolding 1(10) by (rule token_neutral_write[OF db_inv_store[OF assms(2)]])
qed

lemma process_create_account_token_inv:
  assumes "process_create_account cx amount space ow metas signer keys s = (Inr (), t)" "db_inv cx (vm_db s)"
    "token_inv (load cx (vm_db s))"
  shows "token_inv (load cx (vm_db t))"
  using assms(1)
proof (cases rule: process_create_account_ok)
  case (1 payer new_pubkey funded)
  have "load cx (vm_db s) new_pubkey = None" using 1(7) db_exists_load[OF assms(2)] by simp
  then show ?thesis
    unfolding 1(11) using assms(2,3) 1(8)
    by (intro token_neutral_write db_inv_store) (auto simp: load_store token_neutral_def)
qed

lemma system_process_token_inv:
  assumes "system_process_instruction cx data metas signer keys s = (r, t)" "db_inv cx (vm_db s)"
    "token_inv (load cx (vm_db s))"
  shows "token_inv (load cx (vm_db t))"
proof (cases r)
  case (Inl e)
  then show ?thesis using system_process_err assms by metis
next
  case (Inr u)
  from assms(1) show ?thesis
    by (cases rule: system_process_cases)
      (use Inr assms(2,3) in \<open>auto intro: process_transfer_token_inv process_create_account_token_inv
        elim!: process_assign_ok intro!: token_neutral_write simp: token_neutral_def\<close>)
qed

lemma process_instruction_token_inv:
  assumes "process_instruction cx ins signer keys db = (res, db')" "db_inv cx db" "token_inv (load cx db)"
  shows "token_inv (load cx db')"
  using assms(1)
  by (cases rule: process_instruction_cases)
    (use assms(2,3) in \<open>auto dest!: system_process_token_inv token_process_token_inv\<close>)

lemma process_instruction_compute:
  "compute_units_consumed (fst (process_instruction cx ins signer keys db)) \<in> {0, 150, 250, 300, 350, 450, 500}"
proof -
  consider "program_id ins = fill32 1" | "program_id ins = fill32 2"
    | "program_id ins \<noteq> fill32 1" "program_id ins \<noteq> fill32 2" by blast
  then show ?thesis
  proof cases
    case 1
    show ?thesis
      using system_process_budget[of cx "ins_data ins" "account_metas ins" signer keys "native_vm ins db", OF refl]
      unfolding process_system[OF 1] by (auto simp: native_vm_def)
  next
    case 2
    show ?thesis
      using token_process_budget[of cx "ins_data ins" "account_metas ins" signer keys "native_vm ins db", OF refl]
      unfolding process_token[OF 2] by (auto simp: native_vm_def)
  next
    case 3
    then show ?thesis using process_other[OF 3, of cx signer keys db] by auto
  qed
qed

subsection \<open>Write sets\<close>

text \<open>
  The accounts an instruction may write: the metas its handler stores to, whatever their
  writable flags say.
\<close>

fun system_written :: "system_instruction \<Rightarrow> account_meta list \<Rightarrow> account_meta list" where
  "system_written (Sys_Transfer x) ms = take 2 ms"
| "system_written (Sys_CreateAccount x y z) ms = take 2 ms"
| "system_written (Sys_Assign z) ms = take 1 ms"
| "system_written Sys_NonceInitialize ms = []"

fun token_written :: "token_instruction \<Rightarrow> account_meta list \<Rightarrow> account_meta list" where
  "token_written Tok_InitializeMint ms = take 1 ms"
| "token_written (Tok_InitializeAccount z) ms = take 1 (drop 1 ms)"
| "token_written (Tok_Transfer x) ms = take 2 ms"
| "token_written (Tok_MintTo x) ms = take 2 ms"
| "token_written (Tok_Burn x) ms = take 2 ms"

definition written_metas :: "instruction \<Rightarrow> account_meta list" where
  "written_metas ins =
     (if program_id ins = fill32 1 then
        (case system_from_data (ins_data ins) of
           Inr i \<Rightarrow> system_written i (account_metas ins) | Inl _ \<Rightarrow> [])
      else if program_id ins = fill32 2 then
        (case token_from_data (ins_data ins) of
           Inr i \<Rightarrow> token_written i (account_metas ins) | Inl _ \<Rightarrow> [])
      else [])"

definition written_keys :: "instruction \<Rightarrow> pubkey list \<Rightarrow> pubkey set" where
  "written_keys ins keys = resolved_keys (written_metas ins) keys"

lemma resolved_keys_take:
  "i < n \<Longrightarrow> i < length metas \<Longrightarrow> meta_index (metas ! i) < length keys \<Longrightarrow>
   keys ! meta_index (metas ! i) \<in> resolved_keys (take n metas) keys"
  using resolved_keysI[of i "take n metas" keys] by simp

lemma resolved_keys_second:
  assumes "1 < length metas" "meta_index (metas ! 1) < length keys"
  shows "keys ! meta_index (metas ! 1) \<in> resolved_keys (take 1 (drop 1 metas)) keys"
  using resolved_keysI[of 0 "take 1 (drop 1 metas)" keys] assms by simp

lemma resolved_keys_mono: "set ms \<subseteq> set metas \<Longrightarrow> resolved_keys ms keys \<subseteq> resolved_keys metas keys"
  by (auto simp: resolved_keys_def)

lemma written_subset: "set (system_written i ms) \<subseteq> set ms" "set (token_written j ms) \<subseteq> set ms"
proof -
  show "set (system_written i ms) \<subseteq> set ms" by (cases i) (simp_all add: set_take_subset)
  have "set (take 1 (drop 1 ms)) \<subseteq> set ms"
    using set_take_subset[of 1 "drop 1 ms"] set_drop_subset[of 1 ms] by blast
  then show "set (token_written j ms) \<subseteq> set ms" by (cases j) (simp_all only: token_written.simps set_take_subset)
qed

lemma written_metas_subset: "set (written_metas ins) \<subseteq> set (account_metas ins)"
  unfolding written_metas_def
  by (cases "system_from_data (ins_data ins)"; cases "token_from_data (ins_data ins)")
    (simp_all only: sum.case written_subset list.set empty_subsetI simp_thms split: if_split)

lemma written_keys_resolved: "written_keys ins keys \<subseteq> resolved_keys (account_metas ins) keys"
  unfolding written_keys_def by (rule resolved_keys_mono[OF written_metas_subset])

lemma two_not_Nil: "2 \<le> length xs \<Longrightarrow> xs \<noteq> []" "3 \<le> length xs \<Longrightarrow> xs \<noteq> []"
  by auto

lemma process_instruction_writes:
  assumes "process_instruction cx ins signer keys db = (res, db')" "db_inv cx db"
    and "k \<notin> written_keys ins keys"
  shows "load cx db' k = load cx db k"
proof (cases "ir_success res")
  case False
  then show ?thesis using process_instruction_failed[OF assms(1)] by simp
next
  case True
  let ?ms = "account_metas ins"
  have take: "i < length ?ms \<Longrightarrow> i < n \<Longrightarrow> meta_index (?ms ! i) < length keys \<Longrightarrow>
      k \<notin> resolved_keys (take n ?ms) keys \<Longrightarrow> keys ! meta_index (?ms ! i) \<noteq> k" for i n
    using resolved_keys_take[of i n ?ms keys] by auto
  have second: "1 < length ?ms \<Longrightarrow> meta_index (?ms ! 1) < length keys \<Longrightarrow>
      k \<notin> resolved_keys (take 1 (drop 1 ?ms)) keys \<Longrightarrow> keys ! meta_index (?ms ! 1) \<noteq> k"
    using resolved_keys_second[of ?ms keys] by auto
  from assms(1) show ?thesis
  proof (cases rule: process_instruction_cases)
    case (system r t)
    then have r: "r = Inr ()" using True by simp
    from system(2) show ?thesis
      by (cases rule: system_process_cases)
        (use system(1,4) r assms(2,3) take[of 0 2] take[of 1 2] take[of 0 1] two_not_Nil[of ?ms] in
          \<open>auto elim!: process_transfer_ok process_create_account_ok process_assign_ok
            simp: db_inv_store load_store written_keys_def written_metas_def\<close>)
  next
    case (token r t)
    then have r: "r = Inr ()" using True by simp
    from token(2) show ?thesis
      by (cases rule: token_process_cases)
        (use token(1,4) r assms(2,3) take[of 0 2] take[of 1 2] take[of 0 1] second two_not_Nil[of ?ms] fill32_1_2 in
          \<open>auto elim!: token_ok_elims
            simp: db_inv_store load_store written_keys_def written_metas_def\<close>)
  qed (use True in simp)
qed

lemma process_instruction_keeps:
  assumes "process_instruction cx ins signer keys db = (res, db')" "db_inv cx db" "load cx db k \<noteq> None"
  shows "load cx db' k \<noteq> None"
proof (cases "ir_success res")
  case False
  then show ?thesis using process_instruction_failed[OF assms(1)] assms(3) by simp
next
  case True
  from assms(1) show ?thesis
  proof (cases rule: process_instruction_cases)
    case (system r t)
    then have r: "r = Inr ()" using True by simp
    from system(2) show ?thesis
      by (cases rule: system_process_cases)
        (use system(1,4) r assms(2,3) in \<open>auto elim!: process_transfer_ok process_create_account_ok process_assign_ok
            simp: db_inv_store load_store\<close>)
  next
    case (token r t)
    from assms(3) obtain a where "load cx (vm_db (native_vm ins db)) k = Some a" by auto
    from token_process_authorised[OF token(2) _ this] show ?thesis using token(4) assms(2) by auto
  qed (use True in simp)
qed
subsection \<open>Properties of the processor\<close>

text \<open>
  C28 Atomicity and footprint of an instruction: a failed instruction leaves the database
  exactly as it was; any instruction only changes accounts its metas resolve to, keeps the
  database and the token supply invariants, and charges at most 500 compute units.
\<close>

theorem process_instruction_safe:
  assumes "process_instruction cx ins signer keys db = (res, db')" "db_inv cx db"
  shows "(\<not> ir_success res \<longrightarrow> db' = db) \<and> db_inv cx db' \<and>
    (\<forall>k. k \<notin> resolved_keys (account_metas ins) keys \<longrightarrow> load cx db' k = load cx db k) \<and>
    (token_inv (load cx db) \<longrightarrow> token_inv (load cx db')) \<and>
    compute_units_consumed res \<le> 500"
proof -
  have "compute_units_consumed res \<in> {0, 150, 250, 300, 350, 450, 500}"
    using process_instruction_compute[of cx ins signer keys db] assms(1) by simp
  then have "compute_units_consumed res \<le> 500" by auto
  then show ?thesis
    using process_instruction_failed[OF assms(1)] process_instruction_inv[OF assms]
      process_instruction_frame[OF assms] process_instruction_token_inv[OF assms] by blast
qed

theorem process_instruction_safe_witness:
  "let ins = \<lparr>program_id = token_program_id, account_metas = [writable 0, writable 1],
      ins_data = token_to_data (Tok_Transfer 3)\<rparr> in
   token_inv (load demo_db (snd (process_instruction demo_db ins 5 [11, 12] (vm_db demo_tokens))))"
  unfolding Let_def
  using process_instruction_safe[OF prod.collapse[symmetric] demo_tokens_inv] demo_tokens_token_inv
  by blast

end
