(* ===== verification/Executor.thy ===== *)
theory Executor
  imports Scheduler Processor
begin

text \<open>
  The transaction executor (\<^verbatim>\<open>crates/tx-processor/src/executor.rs\<close>): fee payment, snapshot,
  execution of the instructions, rollback, and the lock lists of the concurrent batches.
  A transaction returns its result together with the executor's state; the lock objects are
  identified with the keys they guard.
\<close>

subsection \<open>State\<close>

record execution_context =
  ctx_compute_units :: u64
  max_compute_units :: u64
  ctx_logs :: "string list"

definition execution_context_new :: "u64 \<Rightarrow> execution_context" where
  "execution_context_new max_compute =
     \<lparr>ctx_compute_units = 0, max_compute_units = max_compute, ctx_logs = []\<rparr>"

definition consume_compute ::
    "u64 \<Rightarrow> execution_context \<Rightarrow> (transaction_error + unit) \<times> execution_context" where
  "consume_compute units ctx =
     (let ctx = ctx\<lparr>ctx_compute_units := ctx_compute_units ctx + units\<rparr>
      in (if max_compute_units ctx < ctx_compute_units ctx then Inl ComputeBudgetExceeded else Inr (), ctx))"

definition ctx_log :: "string \<Rightarrow> execution_context \<Rightarrow> execution_context" where
  "ctx_log msg ctx = ctx\<lparr>ctx_logs := ctx_logs ctx @ [msg]\<rparr>"

record executor =
  ex_db :: accounts_db
  total_executed :: u64
  ex_total_compute :: u64

definition executor_new :: "accounts_db \<Rightarrow> executor" where
  "executor_new db = \<lparr>ex_db = db, total_executed = 0, ex_total_compute = 0\<rparr>"

subsection \<open>Locks\<close>

text \<open>\<^verbatim>\<open>Vec::dedup_by\<close> on equal keys keeps the first of each run.\<close>

fun dedup_key :: "('k \<times> 'v) list \<Rightarrow> ('k \<times> 'v) list" where
  "dedup_key (x # y # xs) = (if fst x = fst y then dedup_key (x # xs) else x # dedup_key (y # xs))"
| "dedup_key xs = xs"

definition lock_accounts :: "transaction \<Rightarrow> (pubkey \<times> bool) list" where
  "lock_accounts tx =
     dedup_key (sort_key fst
       (map (\<lambda>key. (key, True)) (write_accounts tx) @ [(tx_signer tx, True)] @
        map (\<lambda>key. (key, False)) (read_accounts tx)))"

subsection \<open>Snapshot and rollback\<close>

definition mutable_accounts :: "transaction \<Rightarrow> pubkey list" where
  "mutable_accounts tx = remdups_adj (sort (tx_signer tx # write_accounts tx))"

definition snapshot_transaction ::
    "('z) db_ext_scheme \<Rightarrow> transaction \<Rightarrow> accounts_db \<Rightarrow> (pubkey \<times> account option) list" where
  "snapshot_transaction cx tx db = map (\<lambda>key. (key, load cx db key)) (mutable_accounts tx)"

definition rollback_transaction ::
    "('z) db_ext_scheme \<Rightarrow> (pubkey \<times> account option) list \<Rightarrow> accounts_db \<Rightarrow> accounts_db" where
  "rollback_transaction cx snapshot db =
     foldl (\<lambda>db (key, prev). case prev of Some account \<Rightarrow> store cx key account db | None \<Rightarrow> discard cx key db)
       db snapshot"

subsection \<open>Fees and instructions\<close>

definition execute_fee_payment ::
    "('z) db_ext_scheme \<Rightarrow> transaction \<Rightarrow> execution_context \<Rightarrow> accounts_db \<Rightarrow>
     (transaction_error + unit) \<times> execution_context \<times> accounts_db" where
  "execute_fee_payment cx tx ctx db =
     (case consume_compute 150 ctx of
        (Inl e, ctx) \<Rightarrow> (Inl e, ctx, db)
      | (Inr _, ctx) \<Rightarrow>
          (case load cx db (tx_signer tx) of
             None \<Rightarrow> (Inl (InsufficientLamports (tx_fee tx) 0), ctx, db)
           | Some account \<Rightarrow>
               if lamports account < tx_fee tx
               then (Inl (InsufficientLamports (tx_fee tx) (lamports account)), ctx, db)
               else
                 let account = account\<lparr>lamports := lamports account - tx_fee tx\<rparr>;
                     db = store cx (tx_signer tx) account db;
                     ctx = ctx_log (''Fee paid: '' @ show_word (tx_fee tx) @ '' lamports'') ctx
                 in (Inr (), ctx, db)))"

definition program_instruction :: "tx_instruction \<Rightarrow> instruction" where
  "program_instruction ix =
     \<lparr>program_id = ix_program_id ix,
      account_metas = map (\<lambda>m. account_meta_new (unat (tm_index m)) (tm_signer m) (tm_writable m)) (ix_accounts ix),
      ins_data = ix_data ix\<rparr>"

definition execute_instruction ::
    "('z) db_ext_scheme \<Rightarrow> transaction \<Rightarrow> tx_instruction \<Rightarrow> execution_context \<Rightarrow> accounts_db \<Rightarrow>
     (transaction_error + unit) \<times> execution_context \<times> accounts_db" where
  "execute_instruction cx tx ix ctx db =
     (let ctx = ctx_log (''Executing program: '' @ debug_key (ix_program_id ix)) ctx
      in if list_ex (\<lambda>m. tm_signer m \<and> list_get (account_keys tx) (unat (tm_index m)) \<noteq> Some (tx_signer tx))
              (ix_accounts ix)
         then (Inl InvalidSignature, ctx, db)
         else
           case process_instruction cx (program_instruction ix) (tx_signer tx) (account_keys tx) db of
             (result, db) \<Rightarrow>
               let ctx = foldl (\<lambda>ctx line. ctx_log line ctx) ctx (ir_logs result)
               in (case consume_compute (compute_units_consumed result) ctx of
                     (Inl e, ctx) \<Rightarrow> (Inl e, ctx, db)
                   | (Inr _, ctx) \<Rightarrow>
                       if \<not> ir_success result then
                         let msg = (case ir_error result of
                                      Some e \<Rightarrow> show_instruction_error e
                                    | None \<Rightarrow> ''program failed'')
                         in (Inl (TxProgramError msg), ctx, db)
                       else (Inr (), ctx, db)))"

text \<open>The loop over the instructions, up to the first that fails.\<close>

fun execute_instructions ::
    "('z) db_ext_scheme \<Rightarrow> transaction \<Rightarrow> tx_instruction list \<Rightarrow> execution_context \<Rightarrow> accounts_db \<Rightarrow>
     (transaction_error + unit) \<times> execution_context \<times> accounts_db" where
  "execute_instructions cx tx [] ctx db = (Inr (), ctx, db)"
| "execute_instructions cx tx (ix # ixs) ctx db =
     (case execute_instruction cx tx ix ctx db of
        (Inr _, ctx, db) \<Rightarrow> execute_instructions cx tx ixs ctx db
      | (Inl e, ctx, db) \<Rightarrow> (Inl e, ctx, db))"

definition execute_transaction ::
    "('z) db_ext_scheme \<Rightarrow> transaction \<Rightarrow> executor \<Rightarrow> transaction_result \<times> executor" where
  "execute_transaction cx tx ex =
     (let ctx = execution_context_new (tx_compute_budget tx)
      in case validate tx of
           Inl e \<Rightarrow> (tr_failure_new e 0, ex)
         | Inr _ \<Rightarrow>
             if \<not> verify_signature cx tx then (tr_failure_new InvalidSignature (ctx_compute_units ctx), ex)
             else
               (case execute_fee_payment cx tx ctx (ex_db ex) of
                  (Inl e, ctx, db) \<Rightarrow> (tr_failure_new e (ctx_compute_units ctx), ex\<lparr>ex_db := db\<rparr>)
                | (Inr _, ctx, db) \<Rightarrow>
                    let snapshot = snapshot_transaction cx tx db
                    in (case execute_instructions cx tx (instructions tx) ctx db of
                          (Inl e, ctx, db) \<Rightarrow>
                            let db = rollback_transaction cx snapshot db;
                                ctx = ctx_log (''Instruction failed: '' @ show_transaction_error e) ctx
                            in (tr_failure_new e (ctx_compute_units ctx), ex\<lparr>ex_db := db\<rparr>)
                        | (Inr _, ctx, db) \<Rightarrow>
                            let ctx = snd (consume_compute 150 ctx)
                            in (tr_success_new (ctx_compute_units ctx) (tx_fee tx),
                                ex\<lparr>ex_db := db, total_executed := total_executed ex + 1,
                                   ex_total_compute := ex_total_compute ex + ctx_compute_units ctx\<rparr>))))"

text \<open>
  A batch runs its transactions on one thread each; the locks make each of them a critical
  section, so a run is determined by the order in which they get through: a permutation of
  the positions of the batch. The handles are joined, and the results returned, in the
  order of the batch.
\<close>

definition execute_in_order ::
    "('z) db_ext_scheme \<Rightarrow> transaction list \<Rightarrow> executor \<Rightarrow> transaction_result list \<times> executor" where
  "execute_in_order cx txs ex = run_all (execute_transaction cx) txs ex"

definition execute_batch ::
    "('z) db_ext_scheme \<Rightarrow> nat list \<Rightarrow> execution_batch \<Rightarrow> executor \<Rightarrow> transaction_result list \<times> executor" where
  "execute_batch cx order b ex =
     (case execute_in_order cx (map (\<lambda>i. transactions b ! i) order) ex of
        (rs, ex') \<Rightarrow>
          (map (\<lambda>i. the (map_of (zip order rs) i)) [0..<length (transactions b)], ex'))"

record executor_stats =
  es_total_executed :: u64
  es_total_compute :: u64

definition executor_stats_of :: "executor \<Rightarrow> executor_stats" where
  "executor_stats_of ex = \<lparr>es_total_executed = total_executed ex, es_total_compute = ex_total_compute ex\<rparr>"

subsection \<open>Footprint of a transaction\<close>

definition tx_writes :: "transaction \<Rightarrow> pubkey set" where
  "tx_writes tx = insert (tx_signer tx) (set (write_accounts tx))"

definition tx_reads :: "transaction \<Rightarrow> pubkey set" where
  "tx_reads tx = set (read_accounts tx) \<union> set (map ix_program_id (instructions tx))"

text \<open>
  A transaction declares its writes if every account one of its instructions stores to is
  flagged writable or is the signer.
\<close>

definition declares_writes :: "transaction \<Rightarrow> bool" where
  "declares_writes tx \<longleftrightarrow>
     list_all (\<lambda>ix. written_keys (program_instruction ix) (account_keys tx) \<subseteq> tx_writes tx) (instructions tx)"

lemma mutable_accounts_set [simp]: "set (mutable_accounts tx) = tx_writes tx"
  by (simp add: mutable_accounts_def tx_writes_def del: sort_key_simps)

lemma resolved_keys_program_instruction:
  assumes "ix \<in> set (instructions tx)"
  shows "resolved_keys (account_metas (program_instruction ix)) (account_keys tx) \<subseteq> tx_reads tx \<union> tx_writes tx"
proof
  fix k assume "k \<in> resolved_keys (account_metas (program_instruction ix)) (account_keys tx)"
  then obtain m where m: "m \<in> set (ix_accounts ix)" "unat (tm_index m) < length (account_keys tx)"
    "k = account_keys tx ! unat (tm_index m)"
    by (auto simp: resolved_keys_def program_instruction_def account_meta_new_def)
  then have "resolve tx (tm_index m) = Some k" by (simp add: resolve_def list_get_def)
  with m(1) assms have "k \<in> set (read_accounts tx) \<or> k \<in> set (write_accounts tx)"
    by (cases "tm_writable m") (force simp: read_accounts_def write_accounts_def List.map_filter_def)+
  then show "k \<in> tx_reads tx \<union> tx_writes tx" by (auto simp: tx_reads_def tx_writes_def)
qed

lemma program_id_reads: "ix \<in> set (instructions tx) \<Longrightarrow> program_id (program_instruction ix) \<in> tx_reads tx"
  by (simp add: tx_reads_def program_instruction_def)

subsection \<open>Instructions of a transaction\<close>

lemma execute_instruction_cases:
  assumes "execute_instruction cx tx ix ctx db = (r, ctx', db')"
  obtains (unsigned) "r = Inl InvalidSignature" "db' = db"
  | (processed) res where
      "process_instruction cx (program_instruction ix) (tx_signer tx) (account_keys tx) db = (res, db')"
      "r = Inr () \<longrightarrow> ir_success res"
  using assms unfolding execute_instruction_def Let_def
  by (auto split: if_splits prod.splits sum.splits)

lemma execute_instruction_inv:
  assumes "execute_instruction cx tx ix ctx db = (r, ctx', db')" "db_inv cx db"
  shows "db_inv cx db'"
  using assms(1) by (cases rule: execute_instruction_cases) (use assms(2) process_instruction_inv in auto)

lemma execute_instruction_writes:
  assumes "execute_instruction cx tx ix ctx db = (r, ctx', db')" "db_inv cx db"
    and "k \<notin> written_keys (program_instruction ix) (account_keys tx)"
  shows "load cx db' k = load cx db k"
  using assms(1) by (cases rule: execute_instruction_cases) (use assms(2,3) process_instruction_writes in auto)

lemma execute_instruction_keeps:
  assumes "execute_instruction cx tx ix ctx db = (r, ctx', db')" "db_inv cx db" "load cx db k \<noteq> None"
  shows "load cx db' k \<noteq> None"
  using assms(1)
  by (cases rule: execute_instruction_cases) (use assms(2,3) in \<open>simp, metis process_instruction_keeps\<close>)

lemma execute_instruction_token_inv:
  assumes "execute_instruction cx tx ix ctx db = (r, ctx', db')" "db_inv cx db" "token_inv (load cx db)"
  shows "token_inv (load cx db')"
  using assms(1) by (cases rule: execute_instruction_cases) (use assms(2,3) process_instruction_token_inv in auto)

lemma execute_instruction_local:
  assumes "db_inv cx d1" "db_inv cx d2" "ix \<in> set (instructions tx)"
    and "\<And>k. k \<in> tx_reads tx \<union> tx_writes tx \<Longrightarrow> load cx d1 k = load cx d2 k"
    and "execute_instruction cx tx ix ctx d1 = (r1, ctx1, e1)" "execute_instruction cx tx ix ctx d2 = (r2, ctx2, e2)"
  shows "r1 = r2 \<and> ctx1 = ctx2 \<and> (\<forall>k\<in>tx_reads tx \<union> tx_writes tx. load cx e1 k = load cx e2 k)"
proof -
  let ?p = "\<lambda>d. process_instruction cx (program_instruction ix) (tx_signer tx) (account_keys tx) d"
  have same: "fst (?p d1) = fst (?p d2)" "\<forall>k\<in>tx_reads tx \<union> tx_writes tx. load cx (snd (?p d1)) k = load cx (snd (?p d2)) k"
    using process_instruction_local[OF assms(1,2) resolved_keys_program_instruction[OF assms(3)], of "tx_signer tx"]
      program_id_reads[OF assms(3)] assms(4) by auto
  obtain res f1 where f1: "?p d1 = (res, f1)" by fastforce
  obtain f2 where f2: "?p d2 = (res, f2)" using same(1) f1 by (metis fst_conv surj_pair)
  show ?thesis
    using assms(4-6) same(2) unfolding execute_instruction_def Let_def f1 f2
    by (auto split: if_splits prod.splits sum.splits)
qed

lemma execute_instructions_step:
  assumes "execute_instructions cx tx (ix # ixs) ctx db = (r, ctx', db')"
  obtains (stop) e where "execute_instruction cx tx ix ctx db = (Inl e, ctx', db')" "r = Inl e"
  | (go) ctx1 db1 where "execute_instruction cx tx ix ctx db = (Inr (), ctx1, db1)"
      "execute_instructions cx tx ixs ctx1 db1 = (r, ctx', db')"
  using assms by (auto split: prod.splits sum.splits)

lemma execute_instructions_inv:
  "execute_instructions cx tx ixs ctx db = (r, ctx', db') \<Longrightarrow> db_inv cx db \<Longrightarrow> db_inv cx db'"
proof (induction ixs arbitrary: ctx db)
  case (Cons ix ixs)
  from Cons.prems(1) show ?case
    by (cases rule: execute_instructions_step) (use Cons execute_instruction_inv in blast)+
qed simp

lemma execute_instructions_writes:
  "execute_instructions cx tx ixs ctx db = (r, ctx', db') \<Longrightarrow> db_inv cx db \<Longrightarrow>
   list_all (\<lambda>ix. k \<notin> written_keys (program_instruction ix) (account_keys tx)) ixs \<Longrightarrow>
   load cx db' k = load cx db k"
proof (induction ixs arbitrary: ctx db)
  case (Cons ix ixs)
  from Cons.prems(1) show ?case
  proof (cases rule: execute_instructions_step)
    case (stop e)
    then show ?thesis using execute_instruction_writes[OF stop(1)] Cons.prems by simp
  next
    case (go ctx1 db1)
    then show ?thesis
      using Cons execute_instruction_writes[OF go(1)] execute_instruction_inv[OF go(1)] by simp
  qed
qed simp

lemma execute_instructions_token_inv:
  "execute_instructions cx tx ixs ctx db = (r, ctx', db') \<Longrightarrow> db_inv cx db \<Longrightarrow> token_inv (load cx db) \<Longrightarrow>
   token_inv (load cx db')"
proof (induction ixs arbitrary: ctx db)
  case (Cons ix ixs)
  from Cons.prems(1) show ?case
    by (cases rule: execute_instructions_step)
      (use Cons execute_instruction_inv execute_instruction_token_inv in blast)+
qed simp

lemma execute_instructions_local:
  "set ixs \<subseteq> set (instructions tx) \<Longrightarrow> db_inv cx d1 \<Longrightarrow> db_inv cx d2 \<Longrightarrow>
   (\<And>k. k \<in> tx_reads tx \<union> tx_writes tx \<Longrightarrow> load cx d1 k = load cx d2 k) \<Longrightarrow>
   execute_instructions cx tx ixs ctx d1 = (r1, ctx1, e1) \<Longrightarrow>
   execute_instructions cx tx ixs ctx d2 = (r2, ctx2, e2) \<Longrightarrow>
   r1 = r2 \<and> ctx1 = ctx2 \<and> (\<forall>k\<in>tx_reads tx \<union> tx_writes tx. load cx e1 k = load cx e2 k)"
proof (induction ixs arbitrary: ctx d1 d2)
  case (Cons ix ixs)
  obtain q1 c1 f1 where x1: "execute_instruction cx tx ix ctx d1 = (q1, c1, f1)" by (metis surj_pair)
  obtain q2 c2 f2 where x2: "execute_instruction cx tx ix ctx d2 = (q2, c2, f2)" by (metis surj_pair)
  have ix: "ix \<in> set (instructions tx)" using Cons.prems(1) by simp
  have eq: "q1 = q2" "c1 = c2" and agree: "\<And>k. k \<in> tx_reads tx \<union> tx_writes tx \<Longrightarrow> load cx f1 k = load cx f2 k"
    using execute_instruction_local[OF Cons.prems(2,3) ix Cons.prems(4) x1 x2] by auto
  have inv: "db_inv cx f1" "db_inv cx f2"
    using execute_instruction_inv[OF x1] execute_instruction_inv[OF x2] Cons.prems(2,3) by auto
  show ?case
  proof (cases q2)
    case (Inl e)
    then show ?thesis using Cons.prems(5,6) x1 x2 eq agree by auto
  next
    case (Inr u)
    then show ?thesis
      using Cons.prems(1,5,6) Cons.IH[OF _ inv agree, of c2] x1 x2 eq by simp
  qed
qed simp

subsection \<open>Whole transactions\<close>

text \<open>The accounts once the fee is paid.\<close>

definition charge_fee :: "('z) db_ext_scheme \<Rightarrow> transaction \<Rightarrow> account \<Rightarrow> accounts_db \<Rightarrow> accounts_db" where
  "charge_fee cx tx account db = store cx (tx_signer tx) (account\<lparr>lamports := lamports account - tx_fee tx\<rparr>) db"

lemma execute_fee_payment_cases:
  assumes "execute_fee_payment cx tx ctx db = (r, ctx', db')"
  obtains (unpaid) e where "r = Inl e" "db' = db"
  | (paid) account where "r = Inr ()" "load cx db (tx_signer tx) = Some account" "tx_fee tx \<le> lamports account"
      "db' = charge_fee cx tx account db"
proof -
  obtain q c where c: "consume_compute 150 ctx = (q, c)" by fastforce
  show ?thesis
  proof (cases q)
    case (Inl e)
    with c assms have "r = Inl e" "db' = db" by (simp_all add: execute_fee_payment_def)
    then show ?thesis by (rule unpaid)
  next
    case (Inr u)
    show ?thesis
    proof (cases "load cx db (tx_signer tx)")
      case None
      with c assms Inr have "r = Inl (InsufficientLamports (tx_fee tx) 0)" "db' = db"
        by (simp_all add: execute_fee_payment_def)
      then show ?thesis by (rule unpaid)
    next
      case (Some account)
      show ?thesis
      proof (cases "lamports account < tx_fee tx")
        case True
        with c assms Inr Some have "r = Inl (InsufficientLamports (tx_fee tx) (lamports account))" "db' = db"
          by (simp_all add: execute_fee_payment_def)
        then show ?thesis by (rule unpaid)
      next
        case False
        with c assms Inr Some have "r = Inr ()" "db' = charge_fee cx tx account db"
          by (simp_all add: execute_fee_payment_def charge_fee_def Let_def)
        with Some False show ?thesis by (intro paid[of account]) simp_all
      qed
    qed
  qed
qed

lemma execute_transaction_cases:
  assumes "execute_transaction cx tx ex = (r, ex')"
  obtains (rejected) e c where "r = tr_failure_new e c" "ex' = ex"
  | (failed) account ctx1 e ctx2 db2 where "verify_signature cx tx"
      "load cx (ex_db ex) (tx_signer tx) = Some account" "tx_fee tx \<le> lamports account"
      "execute_instructions cx tx (instructions tx) ctx1 (charge_fee cx tx account (ex_db ex)) = (Inl e, ctx2, db2)"
      "r = tr_failure_new e (ctx_compute_units ctx2)"
      "ex' = ex\<lparr>ex_db := rollback_transaction cx (snapshot_transaction cx tx (charge_fee cx tx account (ex_db ex))) db2\<rparr>"
  | (succeeded) account ctx1 ctx2 db2 where "verify_signature cx tx"
      "load cx (ex_db ex) (tx_signer tx) = Some account" "tx_fee tx \<le> lamports account"
      "execute_instructions cx tx (instructions tx) ctx1 (charge_fee cx tx account (ex_db ex)) = (Inr (), ctx2, db2)"
      "r = tr_success_new (ctx_compute_units ctx2 + 150) (tx_fee tx)"
      "ex' = ex\<lparr>ex_db := db2, total_executed := total_executed ex + 1,
          ex_total_compute := ex_total_compute ex + (ctx_compute_units ctx2 + 150)\<rparr>"
proof (cases "validate tx")
  case (Inl e)
  then show ?thesis
    using assms by (intro rejected[of e 0]) (simp_all add: execute_transaction_def)
next
  case (Inr u)
  show ?thesis
  proof (cases "verify_signature cx tx")
    case False
    then show ?thesis
      using assms Inr
      by (intro rejected[of InvalidSignature 0])
        (simp_all add: execute_transaction_def Let_def execution_context_new_def)
  next
    case True
    obtain q ctx1 db1 where fee: "execute_fee_payment cx tx (execution_context_new (tx_compute_budget tx)) (ex_db ex) = (q, ctx1, db1)"
      by (metis surj_pair)
    from fee show ?thesis
    proof (cases rule: execute_fee_payment_cases)
      case (unpaid e)
      then show ?thesis
        using assms Inr True fee
        by (intro rejected[of e "ctx_compute_units ctx1"]) (simp_all add: execute_transaction_def Let_def)
    next
      case (paid account)
      obtain p ctx2 db2 where run: "execute_instructions cx tx (instructions tx) ctx1 db1 = (p, ctx2, db2)"
        by (metis surj_pair)
      show ?thesis
      proof (cases p)
        case (Inl e)
        then show ?thesis
          using assms Inr True fee paid run
          by (intro failed[of account ctx1 e ctx2 db2]) (auto simp: execute_transaction_def Let_def ctx_log_def)
      next
        case ok: (Inr v)
        then show ?thesis
          using assms Inr True fee paid run
          by (intro succeeded[of account ctx1 ctx2 db2]) (auto simp: execute_transaction_def Let_def consume_compute_def)
      qed
    qed
  qed
qed

lemma charge_fee_inv: "db_inv cx db \<Longrightarrow> db_inv cx (charge_fee cx tx a db)"
  by (simp add: charge_fee_def db_inv_store)

lemma load_charge_fee:
  "db_inv cx db \<Longrightarrow> load cx (charge_fee cx tx a db) = (load cx db)(tx_signer tx \<mapsto> a\<lparr>lamports := lamports a - tx_fee tx\<rparr>)"
  by (simp add: charge_fee_def load_store)

lemma rollback_inv: "db_inv cx db \<Longrightarrow> db_inv cx (rollback_transaction cx snap db)"
  unfolding rollback_transaction_def by (rule adb.restore_invar)

lemma rollback_load:
  assumes "db_inv cx db'" "\<And>k. k \<notin> tx_writes tx \<Longrightarrow> load cx db' k = load cx db k"
  shows "load cx (rollback_transaction cx (snapshot_transaction cx tx db) db') = load cx db"
  unfolding rollback_transaction_def snapshot_transaction_def
  by (rule adb.restore_snapshot) (use assms in simp_all)

lemma rollback_restores_mutable:
  assumes "db_inv cx db'" "k \<in> tx_writes tx"
  shows "load cx (rollback_transaction cx (snapshot_transaction cx tx db) db') k = load cx db k"
proof -
  have "map_of (rev (map (\<lambda>key. (key, load cx db key)) (mutable_accounts tx))) k = Some (load cx db k)"
    using assms(2) by (simp add: rev_map map_of_map_restrict restrict_map_def flip: comp_def)
  then show ?thesis
    unfolding rollback_transaction_def snapshot_transaction_def
    using adb.restore_lookup[OF assms(1)] by simp
qed

lemma rollback_frame:
  assumes "db_inv cx db'" "k \<notin> tx_writes tx"
  shows "load cx (rollback_transaction cx (snapshot_transaction cx tx db) db') k = load cx db' k"
proof -
  have "map_of (rev (map (\<lambda>key. (key, load cx db key)) (mutable_accounts tx))) k = None"
    using assms(2) by (simp add: rev_map map_of_map_restrict restrict_map_def flip: comp_def)
  then show ?thesis
    unfolding rollback_transaction_def snapshot_transaction_def
    using adb.restore_lookup[OF assms(1)] by simp
qed

lemma execute_transaction_inv:
  assumes "execute_transaction cx tx ex = (r, ex')" "db_inv cx (ex_db ex)"
  shows "db_inv cx (ex_db ex')"
  using assms(1)
  by (cases rule: execute_transaction_cases)
    (use assms(2) in \<open>auto intro: rollback_inv charge_fee_inv dest!: execute_instructions_inv\<close>)

lemma declared_writes:
  "declares_writes tx \<Longrightarrow> k \<notin> tx_writes tx \<Longrightarrow>
   list_all (\<lambda>ix. k \<notin> written_keys (program_instruction ix) (account_keys tx)) (instructions tx)"
  by (auto simp: declares_writes_def list_all_iff)

lemma execute_transaction_frame:
  assumes "execute_transaction cx tx ex = (r, ex')" "db_inv cx (ex_db ex)" "declares_writes tx" "k \<notin> tx_writes tx"
  shows "load cx (ex_db ex') k = load cx (ex_db ex) k"
  using assms(1)
proof (cases rule: execute_transaction_cases)
  case (failed account ctx1 e ctx2 db2)
  have inv: "db_inv cx (charge_fee cx tx account (ex_db ex))" using assms(2) by (rule charge_fee_inv)
  have "load cx db2 k = load cx (charge_fee cx tx account (ex_db ex)) k"
    by (rule execute_instructions_writes[OF failed(4) inv declared_writes[OF assms(3,4)]])
  then show ?thesis
    using failed(6) rollback_frame[OF execute_instructions_inv[OF failed(4) inv] assms(4)]
      assms(2,4) by (simp add: load_charge_fee tx_writes_def)
next
  case (succeeded account ctx1 ctx2 db2)
  have inv: "db_inv cx (charge_fee cx tx account (ex_db ex))" using assms(2) by (rule charge_fee_inv)
  show ?thesis
    using succeeded(6) execute_instructions_writes[OF succeeded(4) inv declared_writes[OF assms(3,4)]]
      assms(2,4) by (simp add: load_charge_fee tx_writes_def)
qed simp

text \<open>The result of a transaction and its effect depend on the accounts it names only.\<close>

lemma execute_fee_payment_local:
  assumes "db_inv cx d1" "db_inv cx d2" "\<And>k. k \<in> K \<Longrightarrow> load cx d1 k = load cx d2 k" "tx_signer tx \<in> K"
  shows "fst (execute_fee_payment cx tx ctx d1) = fst (execute_fee_payment cx tx ctx d2) \<and>
    fst (snd (execute_fee_payment cx tx ctx d1)) = fst (snd (execute_fee_payment cx tx ctx d2)) \<and>
    db_inv cx (snd (snd (execute_fee_payment cx tx ctx d1))) \<and> db_inv cx (snd (snd (execute_fee_payment cx tx ctx d2))) \<and>
    (\<forall>k\<in>K. load cx (snd (snd (execute_fee_payment cx tx ctx d1))) k = load cx (snd (snd (execute_fee_payment cx tx ctx d2))) k)"
proof -
  obtain q c where c: "consume_compute 150 ctx = (q, c)" by fastforce
  have eq: "load cx d1 (tx_signer tx) = load cx d2 (tx_signer tx)" using assms(3,4) by blast
  show ?thesis
    using assms(1-3) c eq
    by (cases q; cases "load cx d2 (tx_signer tx)")
      (simp_all add: execute_fee_payment_def Let_def db_inv_store load_store)
qed

lemma execute_transaction_agree:
  assumes "db_inv cx (ex_db x1)" "db_inv cx (ex_db x2)"
    and agree: "\<And>k. k \<in> tx_reads tx \<union> tx_writes tx \<Longrightarrow> load cx (ex_db x1) k = load cx (ex_db x2) k"
  shows "fst (execute_transaction cx tx x1) = fst (execute_transaction cx tx x2) \<and>
    (\<forall>k\<in>tx_writes tx. load cx (ex_db (snd (execute_transaction cx tx x1))) k =
      load cx (ex_db (snd (execute_transaction cx tx x2))) k)"
proof (cases "validate tx")
  case (Inl e)
  then show ?thesis using agree by (simp add: execute_transaction_def)
next
  case (Inr u)
  let ?ctx = "execution_context_new (tx_compute_budget tx)" and ?K = "tx_reads tx \<union> tx_writes tx"
  obtain q1 c1 d1 where f1: "execute_fee_payment cx tx ?ctx (ex_db x1) = (q1, c1, d1)" by (metis surj_pair)
  obtain q2 c2 d2 where f2: "execute_fee_payment cx tx ?ctx (ex_db x2) = (q2, c2, d2)" by (metis surj_pair)
  have fee: "q1 = q2" "c1 = c2" "db_inv cx d1" "db_inv cx d2" "\<And>k. k \<in> ?K \<Longrightarrow> load cx d1 k = load cx d2 k"
    using execute_fee_payment_local[of cx "ex_db x1" "ex_db x2" ?K tx ?ctx, OF assms(1,2) agree] f1 f2
    by (auto simp: tx_writes_def)
  obtain p1 e1 g1 where i1: "execute_instructions cx tx (instructions tx) c1 d1 = (p1, e1, g1)" by (metis surj_pair)
  obtain p2 e2 g2 where i2: "execute_instructions cx tx (instructions tx) c1 d2 = (p2, e2, g2)" by (metis surj_pair)
  have ixs: "p1 = p2" "e1 = e2" "\<And>k. k \<in> ?K \<Longrightarrow> load cx g1 k = load cx g2 k"
    using execute_instructions_local[OF _ fee(3-5) i1 i2] by auto
  have inv: "db_inv cx g1" "db_inv cx g2"
    using execute_instructions_inv[OF i1 fee(3)] execute_instructions_inv[OF i2 fee(4)] by auto
  have "k \<in> tx_writes tx \<Longrightarrow> load cx (rollback_transaction cx (snapshot_transaction cx tx d1) g1) k =
      load cx (rollback_transaction cx (snapshot_transaction cx tx d2) g2) k" for k
    using rollback_restores_mutable[OF inv(1)] rollback_restores_mutable[OF inv(2)] fee(5) by simp
  then show ?thesis
    using Inr agree f1 f2 fee i1 i2 ixs
    by (cases q2; cases p2) (auto simp: execute_transaction_def Let_def)
qed

lemma execute_transaction_local:
  assumes "declares_writes tx"
  shows "kv_local (\<lambda>ex. load cx (ex_db ex)) (\<lambda>ex. db_inv cx (ex_db ex)) (tx_reads tx) (tx_writes tx)
    (execute_transaction cx tx)"
  unfolding kv_local_def
proof (intro conjI allI impI)
  fix ex :: executor assume inv: "db_inv cx (ex_db ex)"
  show "db_inv cx (ex_db (snd (execute_transaction cx tx ex)))"
    by (rule execute_transaction_inv[OF prod.collapse[symmetric] inv])
  fix k assume "k \<notin> tx_writes tx"
  then show "load cx (ex_db (snd (execute_transaction cx tx ex))) k = load cx (ex_db ex) k"
    by (rule execute_transaction_frame[OF prod.collapse[symmetric] inv assms])
next
  fix x1 x2 :: executor
  assume "db_inv cx (ex_db x1)" "db_inv cx (ex_db x2)"
    "\<forall>k\<in>tx_reads tx \<union> tx_writes tx. load cx (ex_db x1) k = load cx (ex_db x2) k"
  from execute_transaction_agree[OF this(1,2)] this(3)
  show "fst (execute_transaction cx tx x1) = fst (execute_transaction cx tx x2)"
    "\<forall>k\<in>tx_writes tx. load cx (ex_db (snd (execute_transaction cx tx x1))) k =
      load cx (ex_db (snd (execute_transaction cx tx x2))) k" by auto
qed

subsection \<open>Lamports\<close>

text \<open>
  The two instructions that change the total of all balances: a system transfer to the
  signer itself and the creation of a mint.
\<close>

definition mints_lamports :: "transaction \<Rightarrow> tx_instruction \<Rightarrow> bool" where
  "mints_lamports tx ix \<longleftrightarrow>
     ix_program_id ix = system_program_id \<and>
       (case system_from_data (ix_data ix) of
          Inr (Sys_Transfer _) \<Rightarrow>
            list_get (account_keys tx) (unat (tm_index (ix_accounts ix ! 1))) = Some (tx_signer tx)
        | _ \<Rightarrow> False) \<or>
     ix_program_id ix = token_program_id \<and> token_from_data (ix_data ix) = Inr Tok_InitializeMint"

lemma supply_system:
  assumes "system_process_instruction cx data metas signer keys s = (r, t)" "db_inv cx (vm_db s)"
    and "\<And>amount. system_from_data data = Inr (Sys_Transfer amount) \<Longrightarrow> list_get keys (meta_index (metas ! 1)) \<noteq> Some signer"
  shows "lamport_supply cx (vm_db t) = lamport_supply cx (vm_db s)"
proof (cases r)
  case (Inl e)
  then show ?thesis using system_process_err assms(1) by metis
next
  case (Inr u)
  from assms(1) show ?thesis
  proof (cases rule: system_process_cases)
    case (1 amount)
    have ok: "process_transfer cx amount metas signer keys s = (Inr (), t)" using 1(2) Inr by simp
    then have "meta_index (metas ! 1) < length keys" by (rule process_transfer_ok)
    then have "keys ! meta_index (metas ! 1) \<noteq> signer" using assms(3)[OF 1(1)] by (simp add: list_get_def)
    then show ?thesis by (rule process_transfer_supply[OF ok assms(2)])
  qed (use Inr assms(2) in \<open>auto intro: process_create_account_supply process_assign_supply\<close>)
qed

lemma process_instruction_supply:
  assumes "process_instruction cx (program_instruction ix) (tx_signer tx) (account_keys tx) db = (res, db')"
    and "db_inv cx db" "\<not> mints_lamports tx ix"
  shows "lamport_supply cx db' = lamport_supply cx db"
proof (cases "ir_success res")
  case False
  then show ?thesis using process_instruction_failed[OF assms(1)] by simp
next
  case True
  from assms(1) show ?thesis
  proof (cases rule: process_instruction_cases)
    case (system r t)
    have "list_get (account_keys tx) (meta_index (account_metas (program_instruction ix) ! 1)) \<noteq> Some (tx_signer tx)"
      if "system_from_data (ix_data ix) = Inr (Sys_Transfer amount)" for amount
    proof -
      have "r = Inr ()" using system(3) True by simp
      then have "2 \<le> length (account_metas (program_instruction ix))"
        using system(2) that by (auto simp: system_process_instruction_def program_instruction_def elim!: process_transfer_ok)
      then show ?thesis
        using assms(3) that system(1)
        by (simp add: mints_lamports_def program_instruction_def account_meta_new_def system_program_id_def)
    qed
    then show ?thesis
      using supply_system[OF system(2)] system(4) assms(2) by (simp add: program_instruction_def)
  next
    case (token r t)
    then show ?thesis
      using token_process_supply[OF token(2)] assms(2,3)
      by (simp add: mints_lamports_def program_instruction_def token_program_id_def)
  qed simp
qed

lemma execute_instruction_supply:
  assumes "execute_instruction cx tx ix ctx db = (r, ctx', db')" "db_inv cx db" "\<not> mints_lamports tx ix"
  shows "lamport_supply cx db' = lamport_supply cx db"
  using assms(1)
  by (cases rule: execute_instruction_cases) (use assms(2,3) in \<open>auto dest: process_instruction_supply\<close>)

lemma execute_instructions_supply:
  "execute_instructions cx tx ixs ctx db = (r, ctx', db') \<Longrightarrow> db_inv cx db \<Longrightarrow>
   list_all (\<lambda>ix. \<not> mints_lamports tx ix) ixs \<Longrightarrow> lamport_supply cx db' = lamport_supply cx db"
proof (induction ixs arbitrary: ctx db)
  case (Cons ix ixs)
  from Cons.prems(1) show ?case
  proof (cases rule: execute_instructions_step)
    case (stop e)
    then show ?thesis using execute_instruction_supply[OF stop(1)] Cons.prems by simp
  next
    case (go ctx1 db1)
    then show ?thesis
      using Cons execute_instruction_supply[OF go(1)] execute_instruction_inv[OF go(1)] by simp
  qed
qed simp

lemma charge_fee_supply:
  assumes "db_inv cx db" "load cx db (tx_signer tx) = Some a" "tx_fee tx \<le> lamports a"
  shows "lamport_supply cx (charge_fee cx tx a db) + unat (tx_fee tx) = lamport_supply cx db"
  using adb.sum_put[OF assms(1), of "\<lambda>a. unat (lamports a)" "tx_signer tx" "a\<lparr>lamports := lamports a - tx_fee tx\<rparr>"]
    unat_minus_le[OF assms(3)] assms(2) by (simp add: lamport_supply_def charge_fee_def)

lemma lamport_supply_cong: "load cx d = load cx d' \<Longrightarrow> lamport_supply cx d = lamport_supply cx d'"
  by (simp add: lamport_supply_def)

lemma failed_load:
  assumes "execute_instructions cx tx (instructions tx) ctx1 (charge_fee cx tx a db) = (p, ctx2, db2)"
    and "db_inv cx db" "declares_writes tx"
  shows "load cx (rollback_transaction cx (snapshot_transaction cx tx (charge_fee cx tx a db)) db2) =
    load cx (charge_fee cx tx a db)"
  using assms execute_instructions_inv[OF assms(1) charge_fee_inv[OF assms(2)]]
  by (intro rollback_load) (auto intro!: execute_instructions_writes[OF assms(1)] charge_fee_inv declared_writes)

subsection \<open>Creation of mints\<close>

lemma initialize_mint_fails:
  assumes "load cx db signer \<noteq> None" "db_inv cx db" "program_id ins = token_program_id"
    "token_from_data (ins_data ins) = Inr Tok_InitializeMint"
  shows "\<not> ir_success (fst (process_instruction cx ins signer keys db))"
proof
  assume "ir_success (fst (process_instruction cx ins signer keys db))"
  then obtain t where "process_initialize_mint cx (account_metas ins) signer keys (native_vm ins db) = (Inr (), t)"
    using assms(3,4) by (auto simp: process_token token_program_id_def token_process_instruction_def prod_eq_iff)
  then show False
    by (rule process_initialize_mint_ok) (use assms(1,2) db_exists_load in auto)
qed

lemma execute_instructions_no_mint:
  "db_inv cx db \<Longrightarrow> load cx db (tx_signer tx) \<noteq> None \<Longrightarrow>
   list_ex (\<lambda>ix. ix_program_id ix = token_program_id \<and> token_from_data (ix_data ix) = Inr Tok_InitializeMint) ixs \<Longrightarrow>
   fst (execute_instructions cx tx ixs ctx db) \<noteq> Inr ()"
proof (induction ixs arbitrary: ctx db)
  case (Cons ix ixs)
  obtain r ctx' db' where run: "execute_instructions cx tx (ix # ixs) ctx db = (r, ctx', db')" by (metis surj_pair)
  show ?case
  proof
    assume "fst (execute_instructions cx tx (ix # ixs) ctx db) = Inr ()"
    with run have "r = Inr ()" by simp
    from run show False
    proof (cases rule: execute_instructions_step)
      case (stop e)
      then show ?thesis using \<open>r = Inr ()\<close> by simp
    next
      case (go ctx1 db1)
      from go(1) obtain res where res: "process_instruction cx (program_instruction ix) (tx_signer tx) (account_keys tx) db = (res, db1)"
        "ir_success res" by (cases rule: execute_instruction_cases) auto
      show ?thesis
      proof (cases "ix_program_id ix = token_program_id \<and> token_from_data (ix_data ix) = Inr Tok_InitializeMint")
        case True
        then show ?thesis
          using initialize_mint_fails[OF Cons.prems(2,1), of "program_instruction ix" "account_keys tx"] res
          by (simp add: program_instruction_def)
      next
        case False
        then show ?thesis
          using Cons.IH[OF execute_instruction_inv[OF go(1) Cons.prems(1)]
              execute_instruction_keeps[OF go(1) Cons.prems(1,2)], of ctx1] Cons.prems(3) go(2) \<open>r = Inr ()\<close> by auto
      qed
    qed
  qed
qed simp

end
