(* ===== verification/Batches.thy ===== *)
theory Batches
  imports Executor
begin

text \<open>
  What executing a transaction and a batch guarantees: a failure keeps the fee only, the
  supply falls by the fees, the order of a batch of independent transactions is irrelevant;
  and where the code falls short: writes that were not declared survive a rollback, and a
  mint cannot be created.
\<close>

subsection \<open>Batches\<close>

lemma map_of_zip_perm:
  assumes "distinct order" "length rs = length order" "j < length order"
  shows "map_of (zip order rs) (order ! j) = Some (rs ! j)"
  using assms by (auto simp: map_of_zip_nth)

lemma execute_batch_sel:
  "fst (execute_batch cx order b ex) =
     map (\<lambda>i. the (map_of (zip order (fst (execute_in_order cx (map (\<lambda>i. transactions b ! i) order) ex))) i))
       [0..<length (transactions b)]"
  "snd (execute_batch cx order b ex) = snd (execute_in_order cx (map (\<lambda>i. transactions b ! i) order) ex)"
  by (simp_all add: execute_batch_def split_beta)

text \<open>Transactions that pairwise leave each other's accounts alone.\<close>

definition independent :: "transaction list \<Rightarrow> bool" where
  "independent txs \<longleftrightarrow>
     sorted_wrt (\<lambda>x y. non_interfering (tx_reads x) (tx_writes x) (tx_reads y) (tx_writes y)) txs"

lemma independent_nth:
  assumes "independent txs" "i < length txs" "j < length txs" "i \<noteq> j"
  shows "non_interfering (tx_reads (txs ! i)) (tx_writes (txs ! i)) (tx_reads (txs ! j)) (tx_writes (txs ! j))"
proof (cases "i < j")
  case True
  then show ?thesis using assms unfolding independent_def by (simp add: sorted_wrt_iff_nth_less)
next
  case False
  then have "non_interfering (tx_reads (txs ! j)) (tx_writes (txs ! j)) (tx_reads (txs ! i)) (tx_writes (txs ! i))"
    using assms unfolding independent_def by (simp add: sorted_wrt_iff_nth_less)
  then show ?thesis by (auto simp: non_interfering_def)
qed

lemma execute_batch_closed:
  assumes inv: "db_inv cx (ex_db ex)" and decl: "list_all declares_writes (transactions b)"
    and ind: "independent (transactions b)"
    and perm: "mset order = mset [0..<length (transactions b)]"
  shows "fst (execute_batch cx order b ex) = map (\<lambda>tx. fst (execute_transaction cx tx ex)) (transactions b) \<and>
    (\<forall>tx\<in>set (transactions b). \<forall>k\<in>tx_writes tx.
      load cx (ex_db (snd (execute_batch cx order b ex))) k = load cx (ex_db (snd (execute_transaction cx tx ex))) k) \<and>
    (\<forall>k. (\<forall>tx\<in>set (transactions b). k \<notin> tx_writes tx) \<longrightarrow>
      load cx (ex_db (snd (execute_batch cx order b ex))) k = load cx (ex_db ex) k)"
proof -
  note ni = independent_nth[OF ind]
  let ?txs = "transactions b" and ?xs = "map (\<lambda>i. transactions b ! i) order"
  have set: "set order = {0..<length ?txs}" and dist: "distinct order"
    using perm mset_eq_setD[OF perm] mset_eq_imp_distinct_iff[OF perm] by auto
  have sxs: "set ?xs = set ?txs" unfolding set_map set by (simp add: set_conv_nth[of ?txs] image_def Bex_def conj_commute)
  have srt: "sorted_wrt (\<lambda>x y. non_interfering (tx_reads x) (tx_writes x) (tx_reads y) (tx_writes y)) ?xs"
    unfolding sorted_wrt_iff_nth_less
  proof (intro allI impI)
    fix i j assume ij: "i < j" "j < length ?xs"
    then have "order ! i \<noteq> order ! j" using dist by (simp add: nth_eq_iff_index_eq)
    moreover have "order ! i < length ?txs" "order ! j < length ?txs"
      using ij set nth_mem[of i order] nth_mem[of j order] by auto
    ultimately show "non_interfering (tx_reads (?xs ! i)) (tx_writes (?xs ! i)) (tx_reads (?xs ! j)) (tx_writes (?xs ! j))"
      using ni ij by simp
  qed
  have loc: "\<forall>x\<in>set ?xs. kv_local (\<lambda>ex. load cx (ex_db ex)) (\<lambda>ex. db_inv cx (ex_db ex)) (tx_reads x) (tx_writes x)
      (execute_transaction cx x)"
    using decl unfolding sxs by (auto simp: list_all_iff intro: execute_transaction_local)
  have run: "fst (execute_in_order cx ?xs ex) = map (\<lambda>x. fst (execute_transaction cx x ex)) ?xs"
    "\<forall>x\<in>set ?txs. \<forall>k\<in>tx_writes x. load cx (ex_db (snd (execute_in_order cx ?xs ex))) k = load cx (ex_db (snd (execute_transaction cx x ex))) k"
    "\<forall>k. (\<forall>x\<in>set ?txs. k \<notin> tx_writes x) \<longrightarrow> load cx (ex_db (snd (execute_in_order cx ?xs ex))) k = load cx (ex_db ex) k"
    unfolding execute_in_order_def sxs[symmetric] using run_all_closed[OF loc srt inv] by blast+
  have "the (map_of (zip order (fst (execute_in_order cx ?xs ex))) i) = fst (execute_transaction cx (?txs ! i) ex)"
    if "i < length ?txs" for i
  proof -
    have "i \<in> set order" using that set by simp
    then obtain j where j: "j < length order" "order ! j = i" by (auto simp: in_set_conv_nth)
    then show ?thesis using map_of_zip_perm[OF dist, of "fst (execute_in_order cx ?xs ex)" j] run(1) by simp
  qed
  then have "fst (execute_batch cx order b ex) = map (\<lambda>tx. fst (execute_transaction cx tx ex)) ?txs"
    by (intro nth_equalityI) (simp_all add: execute_batch_sel)
  with run(2,3) show ?thesis by (simp only: execute_batch_sel simp_thms)
qed

subsection \<open>Batches the scheduler builds\<close>

text \<open>
  The scheduler compares the accounts that the instructions list and neither the fee payers nor
  the programs. Transactions that declare their writes, list their payer as writable and run
  programs that none of them writes are independent wherever they do not conflict.
\<close>

definition well_declared :: "transaction list \<Rightarrow> bool" where
  "well_declared txs \<longleftrightarrow>
     list_all (\<lambda>tx. declares_writes tx \<and> tx_signer tx \<in> set (write_accounts tx) \<and>
       list_all (\<lambda>ix. list_all (\<lambda>u. ix_program_id ix \<notin> tx_writes u) txs) (instructions tx)) txs"

lemma well_declared_apart:
  assumes "well_declared txs" "x \<in> set txs" "y \<in> set txs" "\<not> conflicts_with x y"
  shows "non_interfering (tx_reads x) (tx_writes x) (tx_reads y) (tx_writes y)"
proof -
  have w: "tx_writes x = set (write_accounts x)" "tx_writes y = set (write_accounts y)"
    using assms(1-3) by (auto simp: well_declared_def list_all_iff tx_writes_def)
  have "ix_program_id ix \<notin> tx_writes y" if "ix \<in> set (instructions x)" for ix
    using assms(1-3) that by (simp add: well_declared_def list_all_iff)
  moreover have "ix_program_id ix \<notin> tx_writes x" if "ix \<in> set (instructions y)" for ix
    using assms(1-3) that by (simp add: well_declared_def list_all_iff)
  ultimately show ?thesis
    using assms(4) by (auto simp: non_interfering_def tx_reads_def conflicts_with_iff w)
qed

lemma schedule_independent:
  assumes "well_declared (pending s)" "batches s = []" "b \<in> set (batches (schedule s))"
  shows "list_all declares_writes (transactions b) \<and> independent (transactions b)"
proof -
  obtain bs where r: "loop_result (s\<lparr>pending := []\<rparr>) (pending s) bs (schedule s)"
    unfolding schedule_def using schedule_loop_ok by blast
  then have b: "b \<in> set bs" using assms(2,3) by (simp add: loop_result_def)
  then have srt: "sorted_wrt (\<lambda>t u. \<not> conflicts_with t u) (transactions b)"
    using r by (auto simp: loop_result_def list_all_iff batch_ok_def)
  have "mset (concat (map transactions bs)) \<subseteq># mset (pending s)"
    using r unfolding loop_result_def by (metis add_0 mset.simps(1) mset_subset_eq_add_left scheduler.select_convs(1) scheduler.surjective scheduler.update_convs(1))
  then have sub: "set (transactions b) \<subseteq> set (pending s)"
    using b set_mset_mono by fastforce
  have "independent (transactions b)"
    unfolding independent_def
    by (rule sorted_wrt_mono_rel[OF _ srt]) (use well_declared_apart[OF assms(1)] sub in blast)
  moreover have "list_all declares_writes (transactions b)"
    using assms(1) sub by (auto simp: well_declared_def list_all_iff)
  ultimately show ?thesis by blast
qed

subsection \<open>Properties of the executor\<close>

lemma failed_not_success [simp]: "\<not> tr_success (tr_failure_new e c)" "tr_success (tr_success_new c f)"
  by (simp_all add: tr_failure_new_def tr_success_new_def)

lemma execute_transaction_failing:
  assumes "validate tx = Inr ()" "verify_signature cx tx" "150 \<le> tx_compute_budget tx"
    and "load cx (ex_db ex) (tx_signer tx) = Some a" "tx_fee tx \<le> lamports a"
    and "\<And>ctx. ctx_compute_units ctx = 150 \<Longrightarrow> max_compute_units ctx = tx_compute_budget tx \<Longrightarrow>
      \<exists>e ctx'. execute_instructions cx tx (instructions tx) ctx (charge_fee cx tx a (ex_db ex)) = (Inl e, ctx', db')"
  shows "\<exists>e c. execute_transaction cx tx ex = (tr_failure_new e c,
    ex\<lparr>ex_db := rollback_transaction cx (snapshot_transaction cx tx (charge_fee cx tx a (ex_db ex))) db'\<rparr>)"
proof -
  let ?ctx = "ctx_log (''Fee paid: '' @ show_word (tx_fee tx) @ '' lamports'')
    ((execution_context_new (tx_compute_budget tx))\<lparr>ctx_compute_units := 150\<rparr>)"
  have fee: "execute_fee_payment cx tx (execution_context_new (tx_compute_budget tx)) (ex_db ex) =
      (Inr (), ?ctx, charge_fee cx tx a (ex_db ex))"
    using assms(3-5) by (simp add: execute_fee_payment_def consume_compute_def execution_context_new_def
      charge_fee_def Let_def not_less)
  obtain e ctx' where "execute_instructions cx tx (instructions tx) ?ctx (charge_fee cx tx a (ex_db ex)) = (Inl e, ctx', db')"
    using assms(6)[of ?ctx] by (auto simp: ctx_log_def execution_context_new_def)
  then show ?thesis
    using assms(1,2) fee by (auto simp: execute_transaction_def Let_def)
qed

text \<open>
  A transfer whose destination is flagged writable or not; and the latter followed by an
  instruction without data.
\<close>

definition transfer_ix :: "bool \<Rightarrow> u64 \<Rightarrow> tx_instruction" where
  "transfer_ix w amount =
     \<lparr>ix_program_id = fill32 1,
      ix_accounts = [\<lparr>tm_index = 0, tm_signer = True, tm_writable = True\<rparr>,
                     \<lparr>tm_index = 1, tm_signer = False, tm_writable = w\<rparr>],
      ix_data = system_to_data (Sys_Transfer amount)\<rparr>"

definition undeclared_transfer :: "u64 \<Rightarrow> tx_instruction list" where
  "undeclared_transfer amount =
     [transfer_ix False amount, \<lparr>ix_program_id = fill32 1, ix_accounts = [], ix_data = []\<rparr>]"

lemma ctx_log_sel [simp]:
  "ctx_compute_units (ctx_log line ctx) = ctx_compute_units ctx"
  "max_compute_units (ctx_log line ctx) = max_compute_units ctx"
  by (simp_all add: ctx_log_def)

lemma foldl_ctx_log [simp]:
  "ctx_compute_units (foldl (\<lambda>ctx line. ctx_log line ctx) ctx ls) = ctx_compute_units ctx"
  "max_compute_units (foldl (\<lambda>ctx line. ctx_log line ctx) ctx ls) = max_compute_units ctx"
  by (induction ls arbitrary: ctx) simp_all

lemma execute_instruction_ok:
  assumes "list_all (\<lambda>m. tm_signer m \<longrightarrow> list_get (account_keys tx) (unat (tm_index m)) = Some (tx_signer tx)) (ix_accounts ix)"
    and "process_instruction cx (program_instruction ix) (tx_signer tx) (account_keys tx) db = (res, db')" "ir_success res"
    and "ctx_compute_units ctx + compute_units_consumed res \<le> max_compute_units ctx"
  shows "\<exists>ctx'. execute_instruction cx tx ix ctx db = (Inr (), ctx', db')"
proof -
  have "\<not> list_ex (\<lambda>m. tm_signer m \<and> list_get (account_keys tx) (unat (tm_index m)) \<noteq> Some (tx_signer tx)) (ix_accounts ix)"
    using assms(1) by (auto simp: list_ex_iff list_all_iff)
  then show ?thesis
    using assms(2-4) by (simp add: execute_instruction_def Let_def consume_compute_def not_less)
qed

lemma execute_instruction_error:
  assumes "process_instruction cx (program_instruction ix) (tx_signer tx) (account_keys tx) db = (res, db')" "\<not> ir_success res"
  shows "\<exists>e ctx'. execute_instruction cx tx ix ctx db = (Inl e, ctx', db)"
proof -
  obtain r ctx' d where run: "execute_instruction cx tx ix ctx db = (r, ctx', d)" by (metis surj_pair)
  then show ?thesis
  proof (cases rule: execute_instruction_cases)
    case (processed res')
    then have "d = db" "r \<noteq> Inr ()" using assms process_instruction_failed by auto
    then show ?thesis using run by (cases r) auto
  qed (use run in auto)
qed


lemma transfer_ix_processed:
  assumes "db_inv cx db" "load cx db signer = Some a" "amount \<le> lamports a" "dest \<noteq> signer" "load cx db dest = None"
  obtains res db' where
    "process_instruction cx (program_instruction (transfer_ix w amount)) signer [signer, dest] db = (res, db')"
    "ir_success res" "compute_units_consumed res \<le> 500" "load cx db' dest = Some (new_system_account dest amount)"
proof -
  let ?ins = "program_instruction (transfer_ix w amount)"
  let ?m = "account_meta_new 1 False w"
  have metas: "account_metas ?ins = [signer_writable 0, ?m]" and prog: "program_id ?ins = fill32 1"
    and data: "ins_data ?ins = system_to_data (Sys_Transfer amount)"
    by (simp_all add: transfer_ix_def program_instruction_def account_meta_new_def signer_writable_def account_meta_new_def)
  obtain t where t: "process_transfer cx amount [signer_writable 0, ?m] signer [signer, dest] (native_vm ?ins db) = (Inr (), t)"
    using process_transfer_succeeds[of "native_vm ?ins db" "[signer, dest]" "signer_writable 0" signer "?m" cx a amount "[]"]
      assms unsigned_less[of amount, where 'a = nat] by (auto simp: native_vm_def signer_writable_def account_meta_new_def)
  then have run: "process_instruction cx ?ins signer [signer, dest] db = processor_finish (Inr (), t)"
    using system_from_to_data[of "Sys_Transfer amount" "[]"]
    by (simp add: process_system[OF prog] metas data system_process_instruction_def try_in_def)
  from t have "load cx (vm_db t) dest = Some (new_system_account dest amount)"
  proof (cases rule: process_transfer_ok)
    case (1 from_account to_account to_pubkey credited)
    have to: "to_pubkey = dest" "to_account = new_system_account dest 0"
      using 1(5,8) assms(5) by (simp_all add: account_meta_new_def)
    moreover have "credited = amount"
      using 1(9) unfolding to by (simp add: new_system_account_def word_unat_eq_iff)
    ultimately show ?thesis
      using 1(10) assms(1) by (simp add: load_store db_inv_store new_system_account_def)
  qed
  moreover have "compute_units_consumed (fst (process_instruction cx ?ins signer [signer, dest] db)) \<le> 500"
    using process_instruction_compute[of cx ?ins signer "[signer, dest]" db] by auto
  ultimately show ?thesis
    using that[of "fst (processor_finish (Inr (), t))" "vm_db t"] run by (simp add: prod_eq_iff)
qed

lemma mint_transaction_fails:
  assumes "db_inv cx (ex_db ex)" "ix \<in> set (instructions tx)" "ix_program_id ix = token_program_id"
    "token_from_data (ix_data ix) = Inr Tok_InitializeMint"
  shows "\<not> tr_success (fst (execute_transaction cx tx ex))"
proof
  assume ok: "tr_success (fst (execute_transaction cx tx ex))"
  obtain r ex' where run: "execute_transaction cx tx ex = (r, ex')" by fastforce
  from run show False
  proof (cases rule: execute_transaction_cases)
    case (succeeded account ctx1 ctx2 db2)
    have "load cx (charge_fee cx tx account (ex_db ex)) (tx_signer tx) \<noteq> None"
      using assms(1) by (simp add: load_charge_fee)
    moreover have "list_ex (\<lambda>ix. ix_program_id ix = token_program_id \<and> token_from_data (ix_data ix) = Inr Tok_InitializeMint)
        (instructions tx)" using assms(2-4) by (auto simp: list_ex_iff)
    ultimately have "fst (execute_instructions cx tx (instructions tx) ctx1 (charge_fee cx tx account (ex_db ex))) \<noteq> Inr ()"
      by (rule execute_instructions_no_mint[OF charge_fee_inv[OF assms(1)]])
    then show False using succeeded(4) by simp
  qed (use ok run in simp_all)
qed

lemma execute_transaction_succeeding:
  assumes "validate tx = Inr ()" "verify_signature cx tx" "150 \<le> tx_compute_budget tx"
    and "load cx (ex_db ex) (tx_signer tx) = Some a" "tx_fee tx \<le> lamports a"
    and "\<And>ctx. ctx_compute_units ctx = 150 \<Longrightarrow> max_compute_units ctx = tx_compute_budget tx \<Longrightarrow>
      \<exists>ctx'. execute_instructions cx tx (instructions tx) ctx (charge_fee cx tx a (ex_db ex)) = (Inr (), ctx', db')"
  shows "tr_success (fst (execute_transaction cx tx ex)) \<and> ex_db (snd (execute_transaction cx tx ex)) = db'"
proof -
  let ?ctx = "ctx_log (''Fee paid: '' @ show_word (tx_fee tx) @ '' lamports'')
    ((execution_context_new (tx_compute_budget tx))\<lparr>ctx_compute_units := 150\<rparr>)"
  have fee: "execute_fee_payment cx tx (execution_context_new (tx_compute_budget tx)) (ex_db ex) =
      (Inr (), ?ctx, charge_fee cx tx a (ex_db ex))"
    using assms(3-5) by (simp add: execute_fee_payment_def consume_compute_def execution_context_new_def
      charge_fee_def Let_def not_less)
  obtain ctx' where "execute_instructions cx tx (instructions tx) ?ctx (charge_fee cx tx a (ex_db ex)) = (Inr (), ctx', db')"
    using assms(6)[of ?ctx] by (auto simp: ctx_log_def execution_context_new_def)
  then show ?thesis
    using assms(1,2) fee by (simp add: execute_transaction_def Let_def)
qed

text \<open>A concrete executor and transactions for witnesses.\<close>

definition demo_executor :: executor where
  "demo_executor = executor_new (store demo_db 5 (new_system_account 5 1000000) db_new)"

definition demo_signed :: "pubkey list \<Rightarrow> tx_instruction list \<Rightarrow> transaction" where
  "demo_signed keys ixs = tx_sign demo_db 5 ((transaction_new 5 ixs 0)\<lparr>account_keys := keys\<rparr>)"

definition demo_mint_ix :: tx_instruction where
  "demo_mint_ix = \<lparr>ix_program_id = token_program_id,
     ix_accounts = [\<lparr>tm_index = 0, tm_signer = True, tm_writable = True\<rparr>],
     ix_data = token_to_data Tok_InitializeMint\<rparr>"

lemma demo_executor_inv: "db_inv demo_db (ex_db demo_executor)"
  by (simp add: demo_executor_def executor_new_def db_inv_store db_inv_new)

lemma demo_signed_sel [simp]:
  "instructions (demo_signed keys ixs) = ixs" "account_keys (demo_signed keys ixs) = keys"
  "tx_signer (demo_signed keys ixs) = 5" "tx_fee (demo_signed keys ixs) = 5000"
  "tx_compute_budget (demo_signed keys ixs) = 200000"
  by (simp_all add: demo_signed_def tx_sign_def transaction_new_def Let_def demo_db_def demo_crypto_def
      crypto.defs db_ext.defs)

lemma demo_signed_verifies: "verify_signature demo_db (demo_signed keys ixs)"
  by (simp add: verify_signature_def demo_signed_def tx_sign_def Let_def signature_ok_def tx_hash_def tx_message_def
      demo_db_def demo_crypto_def crypto.defs db_ext.defs)

lemma resolved_keys_subset: "resolved_keys metas keys \<subseteq> set keys"
  by (auto simp: resolved_keys_def)

lemma demo_signed_declares: "declares_writes (demo_signed [5] ixs)"
  using resolved_keys_subset[of _ "[5 :: pubkey]"]
  by (auto simp: declares_writes_def list_all_iff written_keys_def tx_writes_def)

text \<open>Two transfers of distinct payers to distinct accounts, and an executor in which both payers have funds.\<close>

definition demo_transfer :: "pubkey \<Rightarrow> pubkey \<Rightarrow> transaction" where
  "demo_transfer k dest = tx_sign demo_db k ((transaction_new k [transfer_ix True 300] 0)\<lparr>account_keys := [k, dest]\<rparr>)"

definition demo_funded :: executor where
  "demo_funded = executor_new (store demo_db 6 (new_system_account 6 2000000) (store demo_db 5 (new_system_account 5 1000000) db_new))"

definition demo_batch :: execution_batch where
  "demo_batch = \<lparr>batch_index = 0, transactions = [demo_transfer 5 7, demo_transfer 6 8], total_compute = 400000\<rparr>"

lemma demo_funded_inv: "db_inv demo_db (ex_db demo_funded)"
  by (simp add: demo_funded_def executor_new_def db_inv_store db_inv_new)

lemma demo_funded_load:
  "load demo_db (ex_db demo_funded) 5 = Some (new_system_account 5 1000000)"
  "load demo_db (ex_db demo_funded) 6 = Some (new_system_account 6 2000000)"
  "load demo_db (ex_db demo_funded) 7 = None" "load demo_db (ex_db demo_funded) 8 = None"
  by (simp_all add: demo_funded_def executor_new_def load_store load_new db_inv_store db_inv_new)

lemma demo_transfer_sel [simp]:
  "instructions (demo_transfer k dest) = [transfer_ix True 300]" "account_keys (demo_transfer k dest) = [k, dest]"
  "tx_signer (demo_transfer k dest) = k" "tx_fee (demo_transfer k dest) = 5000"
  "tx_compute_budget (demo_transfer k dest) = 200000"
  by (simp_all add: demo_transfer_def tx_sign_def transaction_new_def Let_def demo_db_def demo_crypto_def
      crypto.defs db_ext.defs)

lemma demo_transfer_verifies: "verify_signature demo_db (demo_transfer k dest)"
  by (simp add: verify_signature_def demo_transfer_def tx_sign_def Let_def signature_ok_def tx_hash_def tx_message_def
      demo_db_def demo_crypto_def crypto.defs db_ext.defs)

lemma demo_transfer_accounts [simp]:
  "write_accounts (demo_transfer k dest) = [k, dest]" "read_accounts (demo_transfer k dest) = []"
  "tx_writes (demo_transfer k dest) = {k, dest}" "tx_reads (demo_transfer k dest) = {fill32 1}"
  by (simp_all add: tx_writes_def tx_reads_def write_accounts_def read_accounts_def transfer_ix_def List.map_filter_def
      resolve_def list_get_def)

lemma demo_transfer_declares: "declares_writes (demo_transfer k dest)"
  using resolved_keys_subset[of _ "[k, dest]"]
  by (auto simp: declares_writes_def written_keys_def)

lemma demo_transfer_succeeds:
  assumes "db_inv demo_db (ex_db ex)" "load demo_db (ex_db ex) k = Some a" "10000 \<le> lamports a"
    and "dest \<noteq> k" "load demo_db (ex_db ex) dest = None"
  shows "tr_success (fst (execute_transaction demo_db (demo_transfer k dest) ex)) \<and>
    load demo_db (ex_db (snd (execute_transaction demo_db (demo_transfer k dest) ex))) dest = Some (new_system_account dest 300)"
proof -
  let ?tx = "demo_transfer k dest" and ?cx = demo_db
  let ?db = "charge_fee ?cx ?tx a (ex_db ex)"
  have inv: "db_inv ?cx ?db" using assms(1) by (rule charge_fee_inv)
  have fee: "tx_fee ?tx \<le> lamports a" "300 \<le> lamports a - 5000"
    using assms(3) by (simp_all add: word_le_nat_alt unat_sub)
  obtain res db' where first: "process_instruction ?cx (program_instruction (transfer_ix True 300)) k [k, dest] ?db = (res, db')"
      "ir_success res" "compute_units_consumed res \<le> 500" "load ?cx db' dest = Some (new_system_account dest 300)"
    using transfer_ix_processed[OF inv, of k "a\<lparr>lamports := lamports a - 5000\<rparr>" 300 dest True] assms fee
    by (auto simp: load_charge_fee)
  have run: "\<exists>ctx'. execute_instructions ?cx ?tx (instructions ?tx) ctx ?db = (Inr (), ctx', db')"
    if ctx: "ctx_compute_units ctx = 150" "max_compute_units ctx = tx_compute_budget ?tx" for ctx
  proof -
    have "150 + compute_units_consumed res \<le> 200000"
      using first(3) by (simp add: word_le_nat_alt unat_word_ariths)
    then obtain ctx1 where "execute_instruction ?cx ?tx (transfer_ix True 300) ctx ?db = (Inr (), ctx1, db')"
      using execute_instruction_ok[of ?tx "transfer_ix True 300" ?cx ?db res db' ctx] first ctx
      by (auto simp: transfer_ix_def list_get_def)
    then show ?thesis by simp
  qed
  have "validate ?tx = Inr ()" by (simp add: validate_def)
  then show ?thesis
    using execute_transaction_succeeding[OF _ demo_transfer_verifies _ _ _ run] assms(2) fee(1) first(4) by simp
qed

lemma fill32_1_large:
  "fill32 1 \<noteq> (5 :: hash32)" "fill32 1 \<noteq> (6 :: hash32)" "fill32 1 \<noteq> (7 :: hash32)" "fill32 1 \<noteq> (8 :: hash32)"
  by code_simp+

lemma demo_batch_independent:
  "list_all declares_writes (transactions demo_batch)" "independent (transactions demo_batch)"
  by (simp_all add: demo_batch_def demo_transfer_declares independent_def non_interfering_def fill32_1_large)

text \<open>
  The condition on the payers matters: two transactions of one payer whose instructions list no
  accounts do not conflict for the scheduler and share a batch, although both charge the payer.
\<close>

lemma shared_payer_batched:
  "let tx = demo_signed [5] [\<lparr>ix_program_id = fill32 1, ix_accounts = [], ix_data = []\<rparr>] in
   map transactions (batches (schedule (enqueue_batch [tx, tx] default_solana))) = [[tx, tx]] \<and> \<not> independent [tx, tx]"
  by (simp add: Let_def schedule_def schedule_loop.simps enqueue_batch_def enqueue_def default_solana_def scheduler_new_def build_batch_def
      schedule_step_def bb_place_def bb_defer_def list_ex_iff write_accounts_def read_accounts_def independent_def non_interfering_def tx_writes_def)

lemma execute_in_order_inv:
  "db_inv cx (ex_db ex) \<Longrightarrow> db_inv cx (ex_db (snd (execute_in_order cx txs ex)))"
  unfolding execute_in_order_def
proof (induction txs arbitrary: ex)
  case (Cons tx txs)
  then show ?case
    using execute_transaction_inv[OF prod.collapse[symmetric], of cx ex tx] by (simp add: split_beta)
qed simp

lemma execute_batch_load:
  assumes "db_inv cx (ex_db ex)" "list_all declares_writes (transactions b)" "independent (transactions b)"
    and "mset order = mset [0..<length (transactions b)]" "mset order' = mset [0..<length (transactions b)]"
  shows "load cx (ex_db (snd (execute_batch cx order b ex))) = load cx (ex_db (snd (execute_batch cx order' b ex)))"
proof
  fix k
  note closed = execute_batch_closed[OF assms(1-3)]
  show "load cx (ex_db (snd (execute_batch cx order b ex))) k = load cx (ex_db (snd (execute_batch cx order' b ex))) k"
  proof (cases "\<exists>tx\<in>set (transactions b). k \<in> tx_writes tx")
    case True
    then obtain tx where tx: "tx \<in> set (transactions b)" "k \<in> tx_writes tx" by blast
    then show ?thesis using closed[OF assms(4)] closed[OF assms(5)] by simp
  next
    case False
    then show ?thesis using closed[OF assms(4)] closed[OF assms(5)] by simp
  qed
qed

text \<open>
  C23 A failed transaction costs its fee and nothing else: if every account its instructions
  store to is declared writable or is the signer, a transaction that does not succeed
  leaves every account as it was, except that the signer may have paid the fee.
\<close>

theorem failed_transaction_keeps_fee_only:
  assumes "execute_transaction cx tx ex = (r, ex')" "\<not> tr_success r" "db_inv cx (ex_db ex)" "declares_writes tx"
  shows "load cx (ex_db ex') = load cx (ex_db ex) \<or>
    (\<exists>a. load cx (ex_db ex) (tx_signer tx) = Some a \<and> tx_fee tx \<le> lamports a \<and>
      load cx (ex_db ex') = (load cx (ex_db ex))(tx_signer tx \<mapsto> a\<lparr>lamports := lamports a - tx_fee tx\<rparr>))"
  using assms(1)
proof (cases rule: execute_transaction_cases)
  case (failed account ctx1 e ctx2 db2)
  then show ?thesis
    using failed_load[OF failed(4) assms(3,4)] assms(3) by (simp add: load_charge_fee)
qed (use assms(2) in simp_all)

theorem failed_transaction_keeps_fee_only_witness:
  "let tx = demo_signed [5] [demo_mint_ix]; ex' = snd (execute_transaction demo_db tx demo_executor) in
   load demo_db (ex_db ex') = load demo_db (ex_db demo_executor) \<or>
   load demo_db (ex_db ex') = (load demo_db (ex_db demo_executor))(5 \<mapsto> new_system_account 5 995000)"
proof -
  let ?tx = "demo_signed [5] [demo_mint_ix]"
  have fails: "\<not> tr_success (fst (execute_transaction demo_db ?tx demo_executor))"
    by (rule mint_transaction_fails[OF demo_executor_inv, of demo_mint_ix])
      (simp_all add: demo_mint_ix_def token_from_data_def)
  have "load demo_db (ex_db demo_executor) 5 = Some (new_system_account 5 1000000)"
    by (simp add: demo_executor_def executor_new_def load_store db_inv_new)
  then show ?thesis
    using failed_transaction_keeps_fee_only[OF prod.collapse[symmetric] fails demo_executor_inv demo_signed_declares]
    by (auto simp: Let_def new_system_account_def)
qed



text \<open>
  InitializeMint can never succeed in a transaction: the new mint must be the signer's
  own key and must not exist, but paying the fee requires the signer's account to exist.
  Every transaction that contains the instruction fails.
\<close>

theorem initialize_mint_unreachable:
  assumes "db_inv cx (ex_db ex)" "ix \<in> set (instructions tx)" "ix_program_id ix = token_program_id"
    "token_from_data (ix_data ix) = Inr Tok_InitializeMint"
  shows "\<not> tr_success (fst (execute_transaction cx tx ex))"
  using assms by (rule mint_transaction_fails)

theorem initialize_mint_unreachable_witness:
  "\<not> tr_success (fst (execute_transaction demo_db (demo_signed [5] [demo_mint_ix]) demo_executor))"
  by (rule initialize_mint_unreachable[OF demo_executor_inv, of demo_mint_ix])
    (simp_all add: demo_mint_ix_def token_from_data_def)

text \<open>
  The rollback restores the accounts declared writable only, while the system program
  never looks at the flag. A failing transaction that first transfers to an account flagged
  read-only gives the sender back everything but the fee and leaves the credit in place:
  the amount is created.
\<close>

theorem rollback_misses_undeclared_writes:
  assumes "db_inv cx (ex_db ex)" "validate tx = Inr ()" "verify_signature cx tx" "1000 \<le> tx_compute_budget tx"
    and "instructions tx = undeclared_transfer amount" "account_keys tx = [tx_signer tx, dest]" "dest \<noteq> tx_signer tx"
    and "load cx (ex_db ex) (tx_signer tx) = Some a" "tx_fee tx \<le> lamports a" "amount \<le> lamports a - tx_fee tx"
    and "load cx (ex_db ex) dest = None"
  shows "\<not> tr_success (fst (execute_transaction cx tx ex)) \<and>
    load cx (ex_db (snd (execute_transaction cx tx ex))) (tx_signer tx) = Some (a\<lparr>lamports := lamports a - tx_fee tx\<rparr>) \<and>
    load cx (ex_db (snd (execute_transaction cx tx ex))) dest = Some (new_system_account dest amount)"
proof -
  let ?db = "charge_fee cx tx a (ex_db ex)"
  have inv: "db_inv cx ?db" using assms(1) by (rule charge_fee_inv)
  obtain res db' where first: "process_instruction cx (program_instruction (transfer_ix False amount))
      (tx_signer tx) [tx_signer tx, dest] ?db = (res, db')" "ir_success res" "compute_units_consumed res \<le> 500"
      "load cx db' dest = Some (new_system_account dest amount)"
    using transfer_ix_processed[OF inv, of "tx_signer tx" "a\<lparr>lamports := lamports a - tx_fee tx\<rparr>" amount dest]
      assms by (auto simp: load_charge_fee)
  have second: "\<exists>e ctx'. execute_instruction cx tx (undeclared_transfer amount ! 1) ctx db' = (Inl e, ctx', db')" for ctx
    by (rule execute_instruction_error[OF prod.collapse[symmetric]])
      (simp add: process_system undeclared_transfer_def program_instruction_def system_process_instruction_def system_from_data_def)
  have run: "\<exists>e ctx'. execute_instructions cx tx (instructions tx) ctx ?db = (Inl e, ctx', db')"
    if ctx: "ctx_compute_units ctx = 150" "max_compute_units ctx = tx_compute_budget tx" for ctx
  proof -
    have "150 + compute_units_consumed res \<le> tx_compute_budget tx"
      using first(3) assms(4) by (simp add: word_le_nat_alt unat_word_ariths)
    then obtain ctx1 where "execute_instruction cx tx (transfer_ix False amount) ctx ?db = (Inr (), ctx1, db')"
      using execute_instruction_ok[of tx "transfer_ix False amount" cx ?db res db' ctx] first ctx assms(6)
      by (auto simp: transfer_ix_def list_get_def)
    then show ?thesis using second[of ctx1] assms(5) by (auto simp: undeclared_transfer_def)
  qed
  have dest: "dest \<notin> tx_writes tx"
    using assms(5-7) by (simp add: tx_writes_def write_accounts_def undeclared_transfer_def transfer_ix_def List.map_filter_def resolve_def list_get_def)
  have inv': "db_inv cx db'" using process_instruction_inv[OF first(1) inv] .
  have "150 \<le> tx_compute_budget tx" using assms(4) by (simp add: word_le_nat_alt)
  then obtain e c where "execute_transaction cx tx ex = (tr_failure_new e c,
      ex\<lparr>ex_db := rollback_transaction cx (snapshot_transaction cx tx ?db) db'\<rparr>)"
    using execute_transaction_failing[OF assms(2,3) _ assms(8,9) run] by blast
  then show ?thesis
    using assms(1,7) first(4) rollback_frame[OF inv' dest] rollback_restores_mutable[OF inv', of "tx_signer tx" tx]
    by (simp add: load_charge_fee tx_writes_def tr_failure_new_def)
qed


theorem rollback_misses_undeclared_writes_witness:
  "let tx = demo_signed [5, 7] (undeclared_transfer 300); ex' = snd (execute_transaction demo_db tx demo_executor) in
   load demo_db (ex_db demo_executor) 7 = None \<and>
   load demo_db (ex_db ex') 5 = Some (new_system_account 5 995000) \<and>
   load demo_db (ex_db ex') 7 = Some (new_system_account 7 300)"
proof -
  have loads: "load demo_db (ex_db demo_executor) 5 = Some (new_system_account 5 1000000)" "load demo_db (ex_db demo_executor) 7 = None"
    by (simp_all add: demo_executor_def executor_new_def load_store db_inv_new load_new)
  have "validate (demo_signed [5, 7] (undeclared_transfer 300)) = Inr ()"
    by (simp add: validate_def undeclared_transfer_def transfer_ix_def)
  then show ?thesis
    using rollback_misses_undeclared_writes[OF demo_executor_inv _ demo_signed_verifies, of "[5, 7]" "undeclared_transfer 300" 300 7
        "new_system_account 5 1000000"] loads
    by (simp add: Let_def new_system_account_def)
qed

text \<open>
  C7 The result of a batch does not depend on the schedule: for transactions that declare
  their writes and of which none writes an account, fee payer included, that another one
  reads or writes, every order in which the workers get through yields the same results in
  the same places, the same accounts and the same state root.
\<close>

theorem batch_order_irrelevant:
  assumes "db_inv cx (ex_db ex)" "list_all declares_writes (transactions b)" "independent (transactions b)"
    and "mset order = mset [0..<length (transactions b)]" "mset order' = mset [0..<length (transactions b)]"
  shows "fst (execute_batch cx order b ex) = fst (execute_batch cx order' b ex) \<and>
    load cx (ex_db (snd (execute_batch cx order b ex))) = load cx (ex_db (snd (execute_batch cx order' b ex))) \<and>
    compute_state_root cx (ex_db (snd (execute_batch cx order b ex))) =
    compute_state_root cx (ex_db (snd (execute_batch cx order' b ex)))"
proof -
  have inv: "db_inv cx (ex_db (snd (execute_batch cx o' b ex)))" for o'
    unfolding execute_batch_sel using assms(1) by (rule execute_in_order_inv)
  note closed = execute_batch_closed[OF assms(1-3)]
  have "fst (execute_batch cx order b ex) = fst (execute_batch cx order' b ex)"
    using closed[OF assms(4)] closed[OF assms(5)] by simp
  then show ?thesis
    using execute_batch_load[OF assms] compute_state_root_map[OF inv] by simp
qed

theorem batch_order_irrelevant_witness:
  "fst (execute_batch demo_db [0, 1] demo_batch demo_funded) = fst (execute_batch demo_db [1, 0] demo_batch demo_funded) \<and>
   load demo_db (ex_db (snd (execute_batch demo_db [0, 1] demo_batch demo_funded))) =
   load demo_db (ex_db (snd (execute_batch demo_db [1, 0] demo_batch demo_funded)))"
  using batch_order_irrelevant[OF demo_funded_inv demo_batch_independent, of "[0, 1]" "[1, 0]"]
  by (simp add: demo_batch_def numeral_2_eq_2 upt_rec)

end
