(* ===== verification/Locks.thy ===== *)
theory Locks
  imports Batches
begin

text \<open>
  The account locks of \<^verbatim>\<open>execute_transaction\<close> (\<^verbatim>\<open>crates/tx-processor/src/executor.rs\<close>): the
  lock list of a transaction and, as a step relation, the workers of a batch acquiring their
  lists concurrently and dropping their guards.
\<close>

subsection \<open>Lock lists\<close>

lemma map_of_first: "map_of xs k = map_option snd (find (\<lambda>p. fst p = k) xs)"
  by (induction xs) auto

lemma find_filter: "find P xs = (case filter P xs of [] \<Rightarrow> None | x # _ \<Rightarrow> Some x)"
  by (induction xs) auto

lemma map_of_sort_key_fst: "map_of (sort_key fst xs) k = map_of xs k"
  unfolding map_of_first find_filter by (simp add: sort_key_stable)

lemma dedup_key_map_of: "map_of (dedup_key xs) = map_of xs"
  by (induction xs rule: dedup_key.induct) (auto simp: fun_eq_iff)

lemma dedup_key_fst [simp]: "fst ` set (dedup_key xs) = fst ` set xs"
  by (induction xs rule: dedup_key.induct) auto

lemma dedup_key_sorted: "sorted (map fst xs) \<Longrightarrow> sorted_wrt (<) (map fst (dedup_key xs))"
proof (induction xs rule: dedup_key.induct)
  case (1 x y xs)
  have "fst x < fst z" if "fst x \<noteq> fst y" "z \<in> set (dedup_key (y # xs))" for z
  proof -
    have "fst z \<in> fst ` set (dedup_key (y # xs))" using that(2) by (rule imageI)
    then have "fst z \<in> fst ` set (y # xs)" by (simp only: dedup_key_fst)
    then show ?thesis using 1(3) that by fastforce
  qed
  then show ?case using 1 by auto
qed auto

lemma lock_accounts_sorted: "sorted_wrt (<) (map fst (lock_accounts tx))"
  unfolding lock_accounts_def by (rule dedup_key_sorted) simp

lemma map_of_const: "map_of (map (\<lambda>x. (x, c)) xs) k = (if k \<in> set xs then Some c else None)"
  by (induction xs) auto

lemma lock_accounts_map:
  "map_of (lock_accounts tx) k =
     (if k \<in> tx_writes tx then Some True else if k \<in> set (read_accounts tx) then Some False else None)"
  unfolding lock_accounts_def dedup_key_map_of map_of_sort_key_fst tx_writes_def
  by (auto simp: map_add_def map_of_const)

subsection \<open>Acquiring the locks\<close>

text \<open>
  A worker holds the locks it has acquired and waits for the next of its list; with the
  whole list acquired it runs its transaction and drops its guards.
\<close>

datatype worker =
    Acquiring (held: "(pubkey \<times> bool) list") (pending: "(pubkey \<times> bool) list")
  | Finished

definition holds :: "worker \<Rightarrow> pubkey \<Rightarrow> bool \<Rightarrow> bool" where
  "holds w k m = (case w of Acquiring h _ \<Rightarrow> (k, m) \<in> set h | Finished \<Rightarrow> False)"

text \<open>A write lock is granted if nobody holds the lock, a read lock if nobody holds it for writing.\<close>

definition grantable :: "worker list \<Rightarrow> pubkey \<Rightarrow> bool \<Rightarrow> bool" where
  "grantable ws k write \<longleftrightarrow> list_all (\<lambda>w. \<not> holds w k True \<and> (write \<longrightarrow> \<not> holds w k False)) ws"

inductive lock_step :: "worker list \<Rightarrow> worker list \<Rightarrow> bool" where
  acquire: "i < length ws \<Longrightarrow> ws ! i = Acquiring h ((k, m) # ks) \<Longrightarrow> grantable ws k m \<Longrightarrow>
    lock_step ws (ws[i := Acquiring (h @ [(k, m)]) ks])"
| release: "i < length ws \<Longrightarrow> ws ! i = Acquiring h [] \<Longrightarrow> lock_step ws (ws[i := Finished])"

inductive_cases lock_stepE: "lock_step ws ws'"

definition lock_start :: "transaction list \<Rightarrow> worker list" where
  "lock_start txs = map (\<lambda>tx. Acquiring [] (lock_accounts tx)) txs"

definition lock_work :: "worker list \<Rightarrow> nat" where
  "lock_work ws = sum_list (map (\<lambda>w. case w of Acquiring _ ks \<Rightarrow> Suc (length ks) | Finished \<Rightarrow> 0) ws)"

definition exclusive :: "worker list \<Rightarrow> bool" where
  "exclusive ws \<longleftrightarrow> (\<forall>i < length ws. \<forall>j < length ws. \<forall>k m. i \<noteq> j \<longrightarrow> holds (ws ! i) k True \<longrightarrow> \<not> holds (ws ! j) k m)"

text \<open>Every worker goes through the lock list of its transaction.\<close>

definition follows :: "transaction list \<Rightarrow> worker list \<Rightarrow> bool" where
  "follows txs ws \<longleftrightarrow>
     list_all2 (\<lambda>tx w. case w of Acquiring h ks \<Rightarrow> h @ ks = lock_accounts tx | Finished \<Rightarrow> True) txs ws"

lemma holds_simps [simp]:
  "holds (Acquiring h ks) k m \<longleftrightarrow> (k, m) \<in> set h" "\<not> holds Finished k m"
  by (simp_all add: holds_def)

lemma lock_step_exclusive:
  assumes "lock_step ws ws'" "exclusive ws"
  shows "exclusive ws'"
  using assms(1)
proof (cases rule: lock_step.cases)
  case (acquire i h k m ks)
  note 1 = acquire
  have free: "\<not> holds (ws ! j) k True" "m \<Longrightarrow> \<not> holds (ws ! j) k b" if "j < length ws" for j b
    using 1(4) that by (cases b; auto simp: grantable_def list_all_length)+
  have upd: "holds (ws' ! j) x b \<longleftrightarrow> holds (ws ! j) x b \<or> j = i \<and> x = k \<and> b = m" if "j < length ws" for j x b
    using 1(1-3) that by (cases "j = i") auto
  have len: "length ws' = length ws" using 1(1) by simp
  show ?thesis
    using assms(2) free unfolding exclusive_def len by (simp add: upd)
next
  case (release i h)
  have upd: "holds (ws' ! j) x b \<longleftrightarrow> holds (ws ! j) x b \<and> j \<noteq> i" if "j < length ws" for j x b
    using release that by (cases "j = i") auto
  have len: "length ws' = length ws" using release(1) by simp
  show ?thesis using assms(2) unfolding exclusive_def len by (simp add: upd)
qed

lemma lock_step_follows: "lock_step ws ws' \<Longrightarrow> follows txs ws \<Longrightarrow> follows txs ws'"
  unfolding follows_def list_all2_conv_all_nth
  by (erule lock_stepE) (auto simp: nth_list_update dest!: spec)

lemma follows_sorted:
  assumes "follows txs ws" "Acquiring h ks \<in> set ws"
  shows "sorted_wrt (<) (map fst (h @ ks))"
proof -
  obtain i where "i < length ws" "ws ! i = Acquiring h ks" using assms(2) by (auto simp: in_set_conv_nth)
  then have "h @ ks = lock_accounts (txs ! i)"
    using assms(1) list_all2_nthD2[of _ txs ws i] by (fastforce simp: follows_def)
  then show ?thesis using lock_accounts_sorted by metis
qed

lemma lock_step_work: "lock_step ws ws' \<Longrightarrow> lock_work ws = Suc (lock_work ws')"
proof (erule lock_step.cases, goal_cases)
  case (1 i ws h k m ks)
  then show ?case
    using sum_list_update[of i "map (\<lambda>w. case w of Acquiring _ ks \<Rightarrow> Suc (length ks) | Finished \<Rightarrow> 0) ws" "Suc (length ks)"]
      elem_le_sum_list[of i "map (\<lambda>w. case w of Acquiring _ ks \<Rightarrow> Suc (length ks) | Finished \<Rightarrow> 0) ws"]
    by (simp add: lock_work_def map_update)
next
  case (2 i ws h)
  then show ?case
    using sum_list_update[of i "map (\<lambda>w. case w of Acquiring _ ks \<Rightarrow> Suc (length ks) | Finished \<Rightarrow> 0) ws" 0]
      elem_le_sum_list[of i "map (\<lambda>w. case w of Acquiring _ ks \<Rightarrow> Suc (length ks) | Finished \<Rightarrow> 0) ws"]
    by (simp add: lock_work_def map_update)
qed

lemma lock_reachable:
  assumes "(lock_step ^^ n) (lock_start txs) ws"
  shows "exclusive ws \<and> follows txs ws \<and> n + lock_work ws = lock_work (lock_start txs)"
  using assms
proof (induction n arbitrary: ws)
  case 0
  have "follows txs (lock_start txs)"
    by (simp add: follows_def lock_start_def list_all2_conv_all_nth)
  moreover have "exclusive (lock_start txs)" by (simp add: exclusive_def lock_start_def)
  ultimately show ?case using 0 by simp
next
  case (Suc n)
  then obtain v where "(lock_step ^^ n) (lock_start txs) v" "lock_step v ws" by auto
  then show ?case
    using Suc.IH lock_step_exclusive lock_step_follows lock_step_work by fastforce
qed

text \<open>
  Of the workers that wait, the one waiting for the greatest key finds its lock unheld: a
  holder would itself be waiting for a greater key.
\<close>

lemma lock_not_stuck:
  assumes "follows txs ws" "\<not> list_all (\<lambda>w. w = Finished) ws" "\<not> list_ex (\<lambda>w. w \<noteq> Finished \<and> pending w = []) ws"
  shows "\<exists>i h k m ks. i < length ws \<and> ws ! i = Acquiring h ((k, m) # ks) \<and> (\<forall>w\<in>set ws. \<not> holds w k True \<and> \<not> holds w k False)"
proof -
  let ?A = "{w \<in> set ws. w \<noteq> Finished}"
  have ne: "?A \<noteq> {}" using assms(2) by (auto simp: list_all_iff)
  have pend: "pending w \<noteq> []" if "w \<in> ?A" for w using assms(3) that by (auto simp: list_ex_iff)
  define f where "f v = fst (hd (pending v))" for v
  have "finite (f ` ?A)" "f ` ?A \<noteq> {}" using ne by auto
  then obtain w where w: "w \<in> ?A" "\<And>v. v \<in> ?A \<Longrightarrow> f v \<le> f w"
    using Max_in[of "f ` ?A"] Max_ge[of "f ` ?A"] by (metis (no_types, lifting) imageE imageI)
  obtain h k m ks where wk: "w = Acquiring h ((k, m) # ks)"
    using w(1) pend[OF w(1)] by (cases w) (auto simp: neq_Nil_conv)
  have "\<not> holds v k b" if v: "v \<in> set ws" for v b
  proof
    assume hb: "holds v k b"
    then obtain h' ks' where v': "v = Acquiring h' ks'" "(k, b) \<in> set h'" by (cases v) auto
    then have "v \<in> ?A" using v by simp
    then have "ks' \<noteq> []" "fst (hd ks') \<le> k" using pend w(2)[of v] v' wk by (force simp: f_def)+
    moreover have "k < fst (hd ks')"
      using follows_sorted[OF assms(1), of h' ks'] v v' \<open>ks' \<noteq> []\<close> by (fastforce simp: sorted_wrt_append neq_Nil_conv)
    ultimately show False by simp
  qed
  moreover obtain i where "i < length ws" "ws ! i = w" using w(1) by (auto simp: in_set_conv_nth)
  ultimately show ?thesis using wk by blast
qed

lemma running_locks_disjoint:
  assumes "(lock_step ^^ n) (lock_start txs) ws" "i < length txs" "j < length txs" "i \<noteq> j"
    and "ws ! i = Acquiring h []" "ws ! j = Acquiring h' []"
  shows "tx_writes (txs ! i) \<inter> (set (read_accounts (txs ! j)) \<union> tx_writes (txs ! j)) = {}"
proof -
  have ex: "exclusive ws" and fol: "follows txs ws" using lock_reachable[OF assms(1)] by auto
  have len: "length ws = length txs" using fol by (simp add: follows_def list_all2_lengthD)
  have h: "h = lock_accounts (txs ! i)" "h' = lock_accounts (txs ! j)"
    using fol assms(2,3,5,6) list_all2_nthD[of _ txs ws i] list_all2_nthD[of _ txs ws j] by (fastforce simp: follows_def)+
  have "(k, True) \<in> set h" if "k \<in> tx_writes (txs ! i)" for k
    using that h map_of_SomeD[of h k True] by (simp add: lock_accounts_map)
  moreover have "\<exists>b. (k, b) \<in> set h'" if "k \<in> set (read_accounts (txs ! j)) \<union> tx_writes (txs ! j)" for k
    using that h map_of_SomeD[of h' k True] map_of_SomeD[of h' k False]
    by (cases "k \<in> tx_writes (txs ! j)") (auto simp: lock_accounts_map)
  moreover have "(k, b) \<notin> set h'" if "(k, True) \<in> set h" for k b
    using ex assms(2-6) that len by (fastforce simp: exclusive_def)
  ultimately show ?thesis by blast
qed



text \<open>
  C10 Workers cannot deadlock and every run ends: as long as not all workers are done, one of
  them has all its locks or waits for a lock that nobody holds, and a run of n steps leaves
  exactly n fewer than the total of the steps the lock lists call for.
\<close>

theorem locks_never_deadlock:
  assumes "(lock_step ^^ n) (lock_start txs) ws"
  shows "(list_all (\<lambda>w. w = Finished) ws \<or>
      (\<exists>i h ks. i < length ws \<and> ws ! i = Acquiring h ks \<and>
        (ks \<noteq> [] \<longrightarrow> list_all (\<lambda>w. \<not> holds w (fst (hd ks)) True \<and> \<not> holds w (fst (hd ks)) False) ws))) \<and>
    n + lock_work ws = (\<Sum>tx\<leftarrow>txs. Suc (length (lock_accounts tx)))"
proof -
  have fol: "follows txs ws" and work: "n + lock_work ws = lock_work (lock_start txs)"
    using lock_reachable[OF assms] by auto
  have "lock_work (lock_start txs) = (\<Sum>tx\<leftarrow>txs. Suc (length (lock_accounts tx)))"
    by (simp add: lock_work_def lock_start_def comp_def)
  moreover have "\<exists>i h ks. i < length ws \<and> ws ! i = Acquiring h ks \<and>
      (ks \<noteq> [] \<longrightarrow> list_all (\<lambda>w. \<not> holds w (fst (hd ks)) True \<and> \<not> holds w (fst (hd ks)) False) ws)"
    if busy: "\<not> list_all (\<lambda>w. w = Finished) ws"
  proof (cases "list_ex (\<lambda>w. w \<noteq> Finished \<and> pending w = []) ws")
    case True
    then obtain i where "i < length ws" "ws ! i \<noteq> Finished" "pending (ws ! i) = []"
      by (auto simp: list_ex_length)
    then show ?thesis by (metis worker.exhaust_sel)
  next
    case False
    then show ?thesis using lock_not_stuck[OF fol busy] by (fastforce simp: list_all_iff)
  qed
  ultimately show ?thesis using work by (cases "list_all (\<lambda>w. w = Finished) ws") simp_all
qed

theorem locks_never_deadlock_witness:
  "let ws = lock_start [transaction_new 1 [] 0, transaction_new 1 [] 0] in
   (\<exists>i h ks. i < length ws \<and> ws ! i = Acquiring h ks \<and> (ks = [] \<or>
      list_all (\<lambda>w. \<not> holds w (fst (hd ks)) True \<and> \<not> holds w (fst (hd ks)) False) ws)) \<and> lock_work ws = 4"
  using locks_never_deadlock[of 0 "[transaction_new 1 [] 0, transaction_new 1 [] 0]"]
  by (auto simp: Let_def lock_start_def lock_accounts_def write_accounts_def read_accounts_def transaction_new_def)

end
