(* ===== verification/OrderedMap.thy ===== *)
theory OrderedMap
  imports Prelude
begin

text \<open>
  The ordered maps (\<^verbatim>\<open>BTreeMap\<close>) of the standard library that several components keep: an
  association list with strictly ascending keys, in the order an iteration visits them.
\<close>

named_theorems omap_simps \<open>lookups in and contents of ordered maps\<close>

type_synonym ('k, 'v) omap = "('k \<times> 'v) list"

fun omap_insert :: "'k::linorder \<Rightarrow> 'v \<Rightarrow> ('k, 'v) omap \<Rightarrow> ('k, 'v) omap" where
  "omap_insert k v [] = [(k, v)]"
| "omap_insert k v ((k', v') # m) =
     (if k < k' then (k, v) # (k', v') # m
      else if k = k' then (k, v) # m
      else (k', v') # omap_insert k v m)"

definition omap_remove :: "'k \<Rightarrow> ('k, 'v) omap \<Rightarrow> ('k, 'v) omap" where
  "omap_remove k m = filter (\<lambda>p. fst p \<noteq> k) m"

definition omap_inv :: "('k::linorder, 'v) omap \<Rightarrow> bool" where
  "omap_inv m \<longleftrightarrow> sorted_wrt (<) (map fst m)"

lemma omap_inv_Nil [simp]: "omap_inv []"
  by (simp add: omap_inv_def)

lemma omap_inv_Cons [simp]: "omap_inv (p # m) \<longleftrightarrow> (\<forall>q\<in>set m. fst p < fst q) \<and> omap_inv m"
  by (simp add: omap_inv_def)

lemma omap_inv_filter: "omap_inv m \<Longrightarrow> omap_inv (filter P m)"
  by (simp add: omap_inv_def sorted_wrt_filter sorted_wrt_map)

lemma omap_inv_distinct: "omap_inv m \<Longrightarrow> distinct (map fst m)"
  by (auto simp: omap_inv_def strict_sorted_iff)

lemma omap_map_of: "omap_inv m \<Longrightarrow> map_of m k = Some v \<longleftrightarrow> (k, v) \<in> set m"
  by (simp add: omap_inv_distinct)

lemma omap_insert_set:
  "omap_inv m \<Longrightarrow> set (omap_insert k v m) = insert (k, v) {p \<in> set m. fst p \<noteq> k}"
  by (induction k v m rule: omap_insert.induct) auto

lemma omap_inv_insert [intro]: "omap_inv m \<Longrightarrow> omap_inv (omap_insert k v m)"
  by (induction k v m rule: omap_insert.induct) (auto simp: omap_insert_set)

lemma omap_inv_remove [intro]: "omap_inv m \<Longrightarrow> omap_inv (omap_remove k m)"
  by (simp add: omap_remove_def omap_inv_filter)

lemma map_of_omap_insert [omap_simps]: "map_of (omap_insert k v m) = (map_of m)(k \<mapsto> v)"
  by (induction k v m rule: omap_insert.induct) auto

lemma map_of_omap_remove [omap_simps]: "map_of (omap_remove k m) = (map_of m)(k := None)"
  by (induction m) (auto simp: omap_remove_def)

lemma omap_insert_last:
  "(\<And>p. p \<in> set m \<Longrightarrow> fst p < k) \<Longrightarrow> omap_insert k v m = m @ [(k, v)]"
  by (induction k v m rule: omap_insert.induct) force+

lemma length_omap_insert:
  "omap_inv m \<Longrightarrow> length (omap_insert k v m) = (if map_of m k = None then Suc (length m) else length m)"
  by (induction k v m rule: omap_insert.induct) (auto split: if_splits simp: map_of_eq_None_iff)

lemma omap_remove_absent: "map_of m k = None \<Longrightarrow> omap_remove k m = m"
  by (auto simp: omap_remove_def map_of_eq_None_iff filter_id_conv)

lemma omap_key_inj: "omap_inv m \<Longrightarrow> q \<in> set m \<Longrightarrow> r \<in> set m \<Longrightarrow> fst q = fst r \<Longrightarrow> q = r"
  using omap_inv_distinct[of m] by (auto simp: distinct_map dest: inj_onD)

lemma omap_filter_keys:
  assumes "omap_inv m"
  shows "filter (\<lambda>q. fst q \<notin> fst ` {x \<in> set m. P x}) m = filter (\<lambda>q. \<not> P q) m"
proof (rule filter_cong[OF refl])
  fix q assume q: "q \<in> set m"
  have "P q" if key: "fst q \<in> fst ` {x \<in> set m. P x}"
  proof -
    obtain r where r: "r \<in> set m" "P r" "fst q = fst r" using key by blast
    then show ?thesis using omap_key_inj[OF assms q] by metis
  qed
  then show "fst q \<notin> fst ` {x \<in> set m. P x} \<longleftrightarrow> \<not> P q" using q by auto
qed

lemma omap_remove_keys: "length (omap_remove k m) \<le> length m"
  by (simp add: omap_remove_def)

lemma omap_remove_length:
  assumes "omap_inv m" "q \<in> set m"
  shows "Suc (length (omap_remove (fst q) m)) = length m"
proof -
  have "filter (\<lambda>p. fst p = fst q) m = [q]"
    using assms by (induction m) (auto simp: filter_empty_conv)
  then show ?thesis using sum_length_filter_compl[of "\<lambda>p. fst p = fst q" m] by (simp add: omap_remove_def)
qed

end
