(* ===== verification/Machines.thy ===== *)
theory Machines
  imports Prelude
begin

text \<open>
  The interface of a component that is driven by a sequence of operations: an invariant that may
  speak about the operations so far and that every operation keeps. The clients of the
  interface are the transaction pool, the recorder, the fork tree, the gossip node, the RPC
  handler and the validator.
\<close>

locale traced_machine =
  fixes step :: "'op \<Rightarrow> 'st \<Rightarrow> 'st"
    and inv :: "'op list \<Rightarrow> 'st \<Rightarrow> bool"
  assumes inv_step: "inv ops s \<Longrightarrow> inv (ops @ [op]) (step op s)"
begin

lemma inv_fold: "inv ops s \<Longrightarrow> inv (ops @ ops') (fold step ops' s)"
proof (induction ops' arbitrary: ops s)
  case (Cons op ops')
  from Cons.IH[OF inv_step[OF Cons.prems, of op]] show ?case by simp
qed simp

lemma inv_run: "inv [] s \<Longrightarrow> inv ops (fold step ops s)"
  using inv_fold[of "[]" s ops] by simp

lemma inv_runl: "inv [] s \<Longrightarrow> inv ops (foldl (\<lambda>s op. step op s) s ops)"
  using inv_run by (simp add: foldl_conv_fold)

end

end
