(* ===== verification/Mempool.thy ===== *)
theory Mempool
  imports OrderedMap Machines Transaction AccountsLog "HOL-Library.Product_Lexorder"
begin

text \<open>
  The transaction pool (\<^verbatim>\<open>crates/mempool/src/lib.rs\<close>): admission, eviction, expiry and the
  fee-ordered drain, with the clock as an argument of \<^verbatim>\<open>insert\<close>.
\<close>

subsection \<open>State\<close>

record mempool_config =
  max_size :: nat
  max_age_ms :: u64
  min_fee :: u64

definition mempool_config_default :: mempool_config where
  "mempool_config_default = \<lparr>max_size = 10000, max_age_ms = 60000, min_fee = 5000\<rparr>"

datatype mempool_error = MInvalidSignature | MFeeTooLow | MDuplicate | MFull

fun show_mempool_error :: "mempool_error \<Rightarrow> string" where
  "show_mempool_error MInvalidSignature = ''invalid transaction signature''"
| "show_mempool_error MFeeTooLow = ''fee below mempool minimum''"
| "show_mempool_error MDuplicate = ''duplicate transaction''"
| "show_mempool_error MFull = ''mempool full''"

record mempool_entry =
  me_hash :: hash32
  me_tx :: transaction
  me_fee :: u64
  received_at :: u64

definition age_ms :: "mempool_entry \<Rightarrow> u64 \<Rightarrow> u64" where
  "age_ms e now = saturating_sub now (received_at e)"

record pool_inner =
  by_hash :: "(hash32 \<times> u64) list"
  by_seq :: "(u64, mempool_entry) omap"
  next_seq :: u64

definition inner_new :: pool_inner where
  "inner_new = \<lparr>by_hash = [], by_seq = [], next_seq = 0\<rparr>"

definition remove_seq :: "u64 \<Rightarrow> pool_inner \<Rightarrow> mempool_entry option \<times> pool_inner" where
  "remove_seq seq p =
     (case map_of (by_seq p) seq of
        None \<Rightarrow> (None, p)
      | Some entry \<Rightarrow>
          (Some entry, p\<lparr>by_seq := omap_remove seq (by_seq p),
                         by_hash := AList.delete (me_hash entry) (by_hash p)\<rparr>))"

record mempool =
  pool :: pool_inner
  pool_config :: mempool_config
  total_accepted :: u64
  total_rejected :: u64
  total_evicted :: u64
  total_expired :: u64

definition mempool_new :: "mempool_config \<Rightarrow> mempool" where
  "mempool_new config =
     \<lparr>pool = inner_new, pool_config = config, total_accepted = 0, total_rejected = 0,
      total_evicted = 0, total_expired = 0\<rparr>"

definition default_pool :: mempool where
  "default_pool = mempool_new mempool_config_default"

subsection \<open>Expiry\<close>

definition expire_locked :: "u64 \<Rightarrow> u64 \<Rightarrow> pool_inner \<Rightarrow> u64 \<Rightarrow> nat \<times> pool_inner \<times> u64" where
  "expire_locked max_age now p counter =
     (let stale = map fst (filter (\<lambda>(_, entry). max_age < age_ms entry now) (by_seq p));
          n = length stale;
          p = foldl (\<lambda>p seq. snd (remove_seq seq p)) p stale
      in (n, p, if 0 < n then counter + of_nat n else counter))"

definition mempool_expire :: "u64 \<Rightarrow> mempool \<Rightarrow> nat \<times> mempool" where
  "mempool_expire now mp =
     (case expire_locked (max_age_ms (pool_config mp)) now (pool mp) (total_expired mp) of
        (n, p, c) \<Rightarrow> (n, mp\<lparr>pool := p, total_expired := c\<rparr>))"

subsection \<open>Admission\<close>

text \<open>\<^verbatim>\<open>min_by\<close>: the first entry that no later one undercuts, by fee and then sequence.\<close>

definition evict_key :: "u64 \<times> mempool_entry \<Rightarrow> u64 \<times> u64" where
  "evict_key p = (me_fee (snd p), fst p)"

fun cheapest :: "(u64, mempool_entry) omap \<Rightarrow> (u64 \<times> mempool_entry) option" where
  "cheapest [] = None"
| "cheapest (p # ps) =
     (case cheapest ps of
        None \<Rightarrow> Some p
      | Some q \<Rightarrow> if evict_key p \<le> evict_key q then Some p else Some q)"

definition reject :: "mempool_error \<Rightarrow> mempool \<Rightarrow> (mempool_error + hash32) \<times> mempool" where
  "reject e mp = (Inl e, mp\<lparr>total_rejected := total_rejected mp + 1\<rparr>)"

definition park :: "hash32 \<Rightarrow> transaction \<Rightarrow> u64 \<Rightarrow> mempool \<Rightarrow> (mempool_error + hash32) \<times> mempool" where
  "park hash tx now mp =
     (let p = pool mp;
          seq = next_seq p;
          entry = \<lparr>me_hash = hash, me_tx = tx, me_fee = tx_fee tx, received_at = now\<rparr>
      in (Inr hash,
          mp\<lparr>pool := p\<lparr>by_hash := AList.update hash seq (by_hash p),
                       by_seq := omap_insert seq entry (by_seq p), next_seq := seq + 1\<rparr>,
             total_accepted := total_accepted mp + 1\<rparr>))"

definition mempool_insert ::
    "('z) crypto_scheme \<Rightarrow> transaction \<Rightarrow> u64 \<Rightarrow> mempool \<Rightarrow> (mempool_error + hash32) \<times> mempool" where
  "mempool_insert cx tx now mp =
     (if \<not> verify_signature cx tx then reject MInvalidSignature mp
      else if tx_fee tx < min_fee (pool_config mp) then reject MFeeTooLow mp
      else
        let hash = tx_hash cx tx
        in if map_of (by_hash (pool mp)) hash \<noteq> None then reject MDuplicate mp
           else
             let mp = snd (mempool_expire now mp)
             in if max_size (pool_config mp) \<le> length (by_seq (pool mp)) then
                  (case cheapest (by_seq (pool mp)) of
                     Some (seq, victim) \<Rightarrow>
                       if me_fee victim < tx_fee tx then
                         park hash tx now (mp\<lparr>pool := snd (remove_seq seq (pool mp)),
                                              total_evicted := total_evicted mp + 1\<rparr>)
                       else reject MFull mp
                   | None \<Rightarrow> reject MFull mp)
                else park hash tx now mp)"

subsection \<open>Removal\<close>

text \<open>Fee descending, then insertion order ascending.\<close>

definition drain_order :: "(u64, mempool_entry) omap \<Rightarrow> (u64 \<times> u64) list" where
  "drain_order m = sort_key (\<lambda>(fee, seq). (- int (unat fee), seq)) (map (\<lambda>(seq, entry). (me_fee entry, seq)) m)"

fun drain_loop :: "u64 list \<Rightarrow> pool_inner \<Rightarrow> transaction list \<times> pool_inner" where
  "drain_loop [] p = ([], p)"
| "drain_loop (seq # seqs) p =
     (case remove_seq seq p of
        (Some entry, p) \<Rightarrow> (case drain_loop seqs p of (out, p) \<Rightarrow> (me_tx entry # out, p))
      | (None, p) \<Rightarrow> drain_loop seqs p)"

definition drain :: "nat \<Rightarrow> mempool \<Rightarrow> transaction list \<times> mempool" where
  "drain limit mp =
     (if limit = 0 \<or> by_seq (pool mp) = [] then ([], mp)
      else
        let ordered = drain_order (by_seq (pool mp))
        in case drain_loop (map snd (take (min limit (length ordered)) ordered)) (pool mp) of
             (out, p) \<Rightarrow> (out, mp\<lparr>pool := p\<rparr>))"

definition mempool_remove :: "hash32 \<Rightarrow> mempool \<Rightarrow> transaction option \<times> mempool" where
  "mempool_remove hash mp =
     (case map_of (by_hash (pool mp)) hash of
        None \<Rightarrow> (None, mp)
      | Some seq \<Rightarrow> (case remove_seq seq (pool mp) of (entry, p) \<Rightarrow> (map_option me_tx entry, mp\<lparr>pool := p\<rparr>)))"

subsection \<open>Views\<close>

definition mempool_contains :: "hash32 \<Rightarrow> mempool \<Rightarrow> bool" where
  "mempool_contains hash mp \<longleftrightarrow> map_of (by_hash (pool mp)) hash \<noteq> None"

definition mempool_len :: "mempool \<Rightarrow> nat" where
  "mempool_len mp = length (by_seq (pool mp))"

definition mempool_is_empty :: "mempool \<Rightarrow> bool" where
  "mempool_is_empty mp \<longleftrightarrow> mempool_len mp = 0"

definition mempool_entries :: "mempool \<Rightarrow> mempool_entry list" where
  "mempool_entries mp = sort_key (\<lambda>e. (- int (unat (me_fee e)), received_at e)) (map snd (by_seq (pool mp)))"

record mempool_stats =
  st_len :: nat
  st_max_size :: nat
  st_accepted :: u64
  st_rejected :: u64
  st_evicted :: u64
  st_expired :: u64

definition mempool_stats_of :: "mempool \<Rightarrow> mempool_stats" where
  "mempool_stats_of mp =
     \<lparr>st_len = mempool_len mp, st_max_size = max_size (pool_config mp), st_accepted = total_accepted mp,
      st_rejected = total_rejected mp, st_evicted = total_evicted mp, st_expired = total_expired mp\<rparr>"

subsection \<open>Invariant\<close>

text \<open>
  The two indices describe the same entries; sequence numbers are below the next one; every
  entry carries its transaction's own hash and fee, a valid signature and the minimal fee.
\<close>

definition inner_inv :: "('z) crypto_scheme \<Rightarrow> u64 \<Rightarrow> pool_inner \<Rightarrow> bool" where
  "inner_inv cx fee_floor p \<longleftrightarrow>
     omap_inv (by_seq p) \<and> distinct (map fst (by_hash p)) \<and>
     set (by_hash p) = (\<lambda>(seq, e). (me_hash e, seq)) ` set (by_seq p) \<and>
     list_all (\<lambda>(seq, e). seq < next_seq p \<and> me_hash e = tx_hash cx (me_tx e) \<and> me_fee e = tx_fee (me_tx e) \<and>
       verify_signature cx (me_tx e) \<and> fee_floor \<le> me_fee e) (by_seq p)"

definition mempool_inv :: "('z) crypto_scheme \<Rightarrow> mempool \<Rightarrow> bool" where
  "mempool_inv cx mp \<longleftrightarrow>
     inner_inv cx (min_fee (pool_config mp)) (pool mp) \<and> length (by_seq (pool mp)) \<le> max_size (pool_config mp)"

lemma remove_seq_by_seq [simp]: "by_seq (snd (remove_seq s p)) = omap_remove s (by_seq p)"
  by (simp add: remove_seq_def omap_remove_absent split: option.splits)

lemma remove_seq_other [simp]:
  "fst (remove_seq s p) = map_of (by_seq p) s" "next_seq (snd (remove_seq s p)) = next_seq p"
  by (simp_all add: remove_seq_def split: option.splits)

lemma inner_invD:
  assumes "inner_inv cx f p"
  shows "omap_inv (by_seq p)" "distinct (map fst (by_hash p))"
    "set (by_hash p) = (\<lambda>(seq, e). (me_hash e, seq)) ` set (by_seq p)"
  using assms by (simp_all add: inner_inv_def)

lemma inner_inv_hash_inj:
  assumes "inner_inv cx f p" "(s, e) \<in> set (by_seq p)" "(s', e') \<in> set (by_seq p)" "me_hash e = me_hash e'"
  shows "s = s' \<and> e = e'"
proof -
  note inv = inner_invD[OF assms(1)]
  have "(me_hash e, s) \<in> set (by_hash p)" using assms(2) by (force simp: inv(3))
  moreover have "(me_hash e, s') \<in> set (by_hash p)" using assms(3,4) by (force simp: inv(3))
  ultimately have "s = s'" by (rule eq_key_imp_eq_value[OF inv(2)])
  then show ?thesis using eq_key_imp_eq_value[OF omap_inv_distinct[OF inv(1)], of s e e'] assms(2,3) by simp
qed

lemma remove_seq_inv:
  assumes "inner_inv cx f p"
  shows "inner_inv cx f (snd (remove_seq s p))"
proof (cases "map_of (by_seq p) s")
  case None
  then show ?thesis using assms by (simp add: remove_seq_def)
next
  case (Some e)
  note inv = inner_invD[OF assms]
  from Some have e: "(s, e) \<in> set (by_seq p)" by (rule map_of_SomeD)
  have same: "me_hash e' = me_hash e \<longleftrightarrow> s' = s" if "(s', e') \<in> set (by_seq p)" for s' e'
    using inner_inv_hash_inj[OF assms e that] eq_key_imp_eq_value[OF omap_inv_distinct[OF inv(1)], of s e e'] e that by auto
  have "set (AList.delete (me_hash e) (by_hash p)) = {q \<in> set (by_hash p). fst q \<noteq> me_hash e}"
    by (auto simp: AList.delete_eq)
  also have "\<dots> = (\<lambda>(seq, e). (me_hash e, seq)) ` set (omap_remove s (by_seq p))"
    unfolding inv(3) omap_remove_def using same by force
  finally have hash: "set (AList.delete (me_hash e) (by_hash p)) =
      (\<lambda>(seq, e). (me_hash e, seq)) ` set (omap_remove s (by_seq p))" .
  have "list_all P (omap_remove s (by_seq p))" if "list_all P (by_seq p)" for P
    using that by (auto simp: omap_remove_def list_all_iff)
  then show ?thesis
    using assms Some hash inv(1) AList.distinct_delete[OF inv(2)]
    unfolding inner_inv_def by (simp add: remove_seq_def omap_inv_remove)
qed

lemma foldl_remove_by_seq:
  "by_seq (foldl (\<lambda>p s. snd (remove_seq s p)) p ss) = filter (\<lambda>q. fst q \<notin> set ss) (by_seq p)"
proof (induction ss arbitrary: p)
  case (Cons s ss)
  show ?case unfolding foldl.simps Cons.IH by (auto simp: omap_remove_def intro: filter_cong)
qed simp

lemma foldl_remove_inv: "inner_inv cx f p \<Longrightarrow> inner_inv cx f (foldl (\<lambda>p s. snd (remove_seq s p)) p ss)"
  by (induction ss arbitrary: p) (simp_all add: remove_seq_inv)

lemma foldl_remove_next [simp]: "next_seq (foldl (\<lambda>p s. snd (remove_seq s p)) p ss) = next_seq p"
  by (induction ss arbitrary: p) simp_all

subsection \<open>Expiry and admission\<close>

definition fresh :: "u64 \<Rightarrow> mempool \<Rightarrow> (u64, mempool_entry) omap" where
  "fresh now mp = filter (\<lambda>(_, e). age_ms e now \<le> max_age_ms (pool_config mp)) (by_seq (pool mp))"

lemma mempool_expire_sel [simp]:
  "pool_config (snd (mempool_expire now mp)) = pool_config mp"
  "next_seq (pool (snd (mempool_expire now mp))) = next_seq (pool mp)"
  by (simp_all add: mempool_expire_def expire_locked_def Let_def)

lemma mempool_expire_by_seq:
  assumes "omap_inv (by_seq (pool mp))"
  shows "by_seq (pool (snd (mempool_expire now mp))) = fresh now mp"
  unfolding mempool_expire_def expire_locked_def Let_def fresh_def
  by (simp add: foldl_remove_by_seq omap_filter_keys[OF assms] case_prod_unfold not_less)

lemma mempool_expire_count:
  "fst (mempool_expire now mp) = length (by_seq (pool mp)) - length (fresh now mp)"
  using sum_length_filter_compl[of "\<lambda>(_, e). age_ms e now \<le> max_age_ms (pool_config mp)" "by_seq (pool mp)"]
  by (simp add: mempool_expire_def expire_locked_def Let_def fresh_def case_prod_unfold not_le)

lemma mempool_expire_inv:
  assumes "inner_inv cx f (pool mp)"
  shows "inner_inv cx f (pool (snd (mempool_expire now mp)))"
  using foldl_remove_inv[OF assms] by (simp add: mempool_expire_def expire_locked_def Let_def)

lemma cheapest_spec:
  "cheapest m = Some q \<Longrightarrow> q \<in> set m \<and> (\<forall>r\<in>set m. evict_key q \<le> evict_key r)"
proof (induction m arbitrary: q)
  case (Cons p m)
  show ?case
  proof (cases "cheapest m")
    case None
    then have "m = []" by (cases m) (auto split: option.splits if_splits)
    then show ?thesis using Cons.prems by simp
  next
    case (Some r)
    show ?thesis
    proof (cases "evict_key p \<le> evict_key r")
      case True
      then have "q = p" using Cons.prems Some by simp
      moreover have "evict_key p \<le> evict_key x" if "x \<in> set m" for x
        using order_trans[OF True] Cons.IH[OF Some] that by blast
      ultimately show ?thesis by simp
    next
      case False
      then have "q = r" using Cons.prems Some by simp
      moreover have "evict_key r \<le> evict_key p" using linear[of "evict_key r"] False by blast
      ultimately show ?thesis using Cons.IH[OF Some] by simp
    qed
  qed
qed simp

lemma cheapest_None: "cheapest m = None \<longleftrightarrow> m = []"
  by (cases m) (auto split: option.splits)

lemma park_inv:
  assumes "inner_inv cx f (pool mp)" "next_seq (pool mp) + 1 \<noteq> 0"
    and "verify_signature cx tx" "f \<le> tx_fee tx" "map_of (by_hash (pool mp)) (tx_hash cx tx) = None"
  shows "inner_inv cx f (pool (snd (park (tx_hash cx tx) tx now mp)))"
    "by_seq (pool (snd (park (tx_hash cx tx) tx now mp))) =
       by_seq (pool mp) @ [(next_seq (pool mp), \<lparr>me_hash = tx_hash cx tx, me_tx = tx, me_fee = tx_fee tx, received_at = now\<rparr>)]"
proof -
  let ?p = "pool mp" and ?e = "\<lparr>me_hash = tx_hash cx tx, me_tx = tx, me_fee = tx_fee tx, received_at = now\<rparr>"
  note inv = inner_invD[OF assms(1)]
  have below: "fst q < next_seq ?p" if "q \<in> set (by_seq ?p)" for q
    using assms(1) that by (auto simp: inner_inv_def list_all_iff)
  then have ins: "omap_insert (next_seq ?p) ?e (by_seq ?p) = by_seq ?p @ [(next_seq ?p, ?e)]"
    by (rule omap_insert_last)
  then show "by_seq (pool (snd (park (tx_hash cx tx) tx now mp))) = by_seq ?p @ [(next_seq ?p, ?e)]"
    by (simp add: park_def Let_def)
  have up: "next_seq ?p < next_seq ?p + 1" using assms(2) by (rule less_plus_1)
  have abs: "tx_hash cx tx \<notin> fst ` set (by_hash ?p)" using assms(5) by (simp add: map_of_eq_None_iff)
  then have "AList.update (tx_hash cx tx) (next_seq ?p) (by_hash ?p) = by_hash ?p @ [(tx_hash cx tx, next_seq ?p)]"
    by (rule alist_update_nonmem)
  moreover have "omap_inv (by_seq ?p @ [(next_seq ?p, ?e)])"
    using omap_inv_insert[OF inv(1), of "next_seq ?p" ?e] by (simp add: ins)
  moreover have "list_all (\<lambda>(seq, e). seq < next_seq ?p + 1 \<and> me_hash e = tx_hash cx (me_tx e) \<and>
      me_fee e = tx_fee (me_tx e) \<and> verify_signature cx (me_tx e) \<and> f \<le> me_fee e) (by_seq ?p)"
    using assms(1) up unfolding inner_inv_def list_all_iff by (auto intro: less_trans)
  ultimately show "inner_inv cx f (pool (snd (park (tx_hash cx tx) tx now mp)))"
    using assms(3,4) up inv(2,3) abs unfolding inner_inv_def by (simp add: park_def Let_def ins)
qed

text \<open>The outcomes of an admission.\<close>

lemma mempool_insert_cases:
  assumes "mempool_insert cx tx now mp = (r, mp')" "inner_inv cx (min_fee (pool_config mp)) (pool mp)"
  obtains (refused) e where "r = Inl e" "pool mp' = pool mp" "pool_config mp' = pool_config mp"
      "e = MInvalidSignature \<and> \<not> verify_signature cx tx \<or> e = MFeeTooLow \<and> tx_fee tx < min_fee (pool_config mp) \<or>
       e = MDuplicate \<and> map_of (by_hash (pool mp)) (tx_hash cx tx) \<noteq> None"
  | (full) "r = Inl MFull" "pool mp' = pool (snd (mempool_expire now mp))" "pool_config mp' = pool_config mp"
      "max_size (pool_config mp) \<le> length (fresh now mp)" "list_all (\<lambda>q. tx_fee tx \<le> me_fee (snd q)) (fresh now mp)"
  | (admitted) mp1 victims where "verify_signature cx tx" "min_fee (pool_config mp) \<le> tx_fee tx"
      "map_of (by_hash (pool mp)) (tx_hash cx tx) = None"
      "park (tx_hash cx tx) tx now mp1 = (r, mp')" "pool_config mp1 = pool_config mp" "next_seq (pool mp1) = next_seq (pool mp)"
      "victims = [] \<and> length (fresh now mp) < max_size (pool_config mp) \<and> pool mp1 = pool (snd (mempool_expire now mp)) \<or>
       (\<exists>v. victims = [v] \<and> max_size (pool_config mp) \<le> length (fresh now mp) \<and> v \<in> set (fresh now mp) \<and>
          me_fee (snd v) < tx_fee tx \<and> list_all (\<lambda>q. evict_key v \<le> evict_key q) (fresh now mp) \<and>
          pool mp1 = snd (remove_seq (fst v) (pool (snd (mempool_expire now mp)))))"
proof -
  let ?m = "snd (mempool_expire now mp)"
  have exp: "by_seq (pool ?m) = fresh now mp" using inner_invD(1)[OF assms(2)] by (rule mempool_expire_by_seq)
  consider (sig) "\<not> verify_signature cx tx" | (fee) "verify_signature cx tx" "tx_fee tx < min_fee (pool_config mp)"
    | (dup) "verify_signature cx tx" "\<not> tx_fee tx < min_fee (pool_config mp)" "map_of (by_hash (pool mp)) (tx_hash cx tx) \<noteq> None"
    | (go) "verify_signature cx tx" "\<not> tx_fee tx < min_fee (pool_config mp)" "map_of (by_hash (pool mp)) (tx_hash cx tx) = None"
    by blast
  then show ?thesis
  proof cases
    case sig
    then show ?thesis using assms(1) by (intro refused[of MInvalidSignature]) (auto simp: mempool_insert_def reject_def)
  next
    case fee
    then show ?thesis using assms(1) by (intro refused[of MFeeTooLow]) (auto simp: mempool_insert_def reject_def)
  next
    case dup
    then show ?thesis using assms(1) by (intro refused[of MDuplicate]) (auto simp: mempool_insert_def reject_def Let_def)
  next
    case go
    note ins = mempool_insert_def[of cx tx now mp] Let_def
    show ?thesis
    proof (cases "max_size (pool_config mp) \<le> length (fresh now mp)")
      case False
      then have "park (tx_hash cx tx) tx now ?m = (r, mp')" using assms(1) go by (simp add: ins exp)
      then show ?thesis using go False by (intro admitted[of ?m "[]"]) simp_all
    next
      case big: True
      show ?thesis
      proof (cases "cheapest (fresh now mp)")
        case None
        then show ?thesis using assms(1) go big by (intro full) (auto simp: ins exp reject_def cheapest_None)
      next
        case (Some v)
        have v: "v \<in> set (fresh now mp)" "list_all (\<lambda>q. evict_key v \<le> evict_key q) (fresh now mp)"
          using cheapest_spec[OF Some] by (auto simp: list_all_iff)
        show ?thesis
        proof (cases "me_fee (snd v) < tx_fee tx")
          case True
          then show ?thesis
            using assms(1) go big Some v
            by (intro admitted[of "?m\<lparr>pool := snd (remove_seq (fst v) (pool ?m)), total_evicted := total_evicted ?m + 1\<rparr>" "[v]"])
              (auto simp: ins exp split: prod.splits)
        next
          case False
          have "list_all (\<lambda>q. tx_fee tx \<le> me_fee (snd q)) (fresh now mp)"
            using v(2) False by (fastforce simp: list_all_iff evict_key_def)
          then show ?thesis
            using assms(1) go big Some False by (intro full) (auto simp: ins exp reject_def split: prod.splits)
        qed
      qed
    qed
  qed
qed

lemma park_config [simp]: "pool_config (snd (park h tx now mp)) = pool_config mp"
  by (simp add: park_def Let_def)

lemma by_hash_None:
  assumes "inner_inv cx f p"
  shows "map_of (by_hash p) h = None \<longleftrightarrow> list_all (\<lambda>q. me_hash (snd q) \<noteq> h) (by_seq p)"
  unfolding map_of_eq_None_iff inner_invD(3)[OF assms] by (force simp: list_all_iff)

lemma mempool_insert_admitted:
  assumes "mempool_inv cx mp" "next_seq (pool mp) + 1 \<noteq> 0" "park (tx_hash cx tx) tx now mp1 = (r, mp')"
    and "verify_signature cx tx" "min_fee (pool_config mp) \<le> tx_fee tx" "map_of (by_hash (pool mp)) (tx_hash cx tx) = None"
    and "pool_config mp1 = pool_config mp" "next_seq (pool mp1) = next_seq (pool mp)"
    and "pool mp1 = pool (snd (mempool_expire now mp)) \<or> pool mp1 = snd (remove_seq s (pool (snd (mempool_expire now mp))))"
  shows "inner_inv cx (min_fee (pool_config mp)) (pool mp')" "r = Inr (tx_hash cx tx)" "pool_config mp' = pool_config mp"
    "by_seq (pool mp') = by_seq (pool mp1) @
       [(next_seq (pool mp), \<lparr>me_hash = tx_hash cx tx, me_tx = tx, me_fee = tx_fee tx, received_at = now\<rparr>)]"
proof -
  let ?f = "min_fee (pool_config mp)"
  have inv: "inner_inv cx ?f (pool mp)" using assms(1) by (simp add: mempool_inv_def)
  have exp: "inner_inv cx ?f (pool (snd (mempool_expire now mp)))" using inv by (rule mempool_expire_inv)
  have inv1: "inner_inv cx ?f (pool mp1)" using assms(9) exp remove_seq_inv[OF exp] by auto
  have "set (by_seq (pool mp1)) \<subseteq> set (by_seq (pool mp))"
    using assms(9) mempool_expire_by_seq[OF inner_invD(1)[OF inv]] by (auto simp: omap_remove_def fresh_def)
  then have none: "map_of (by_hash (pool mp1)) (tx_hash cx tx) = None"
    using assms(6) unfolding by_hash_None[OF inv] by_hash_None[OF inv1] by (auto simp: list_all_iff)
  note parked = park_inv[OF inv1 _ assms(4,5) none, of now]
  show "inner_inv cx ?f (pool mp')" using parked(1) assms(2,3,8) by simp
  show "by_seq (pool mp') = by_seq (pool mp1) @
       [(next_seq (pool mp), \<lparr>me_hash = tx_hash cx tx, me_tx = tx, me_fee = tx_fee tx, received_at = now\<rparr>)]"
    using parked(2) assms(2,3,8) by simp
  show "r = Inr (tx_hash cx tx)" using assms(3) by (auto simp: park_def Let_def)
  show "pool_config mp' = pool_config mp" using assms(3,7) park_config by (metis snd_conv)
qed

lemma mempool_insert_inv:
  assumes "mempool_insert cx tx now mp = (r, mp')" "mempool_inv cx mp" "next_seq (pool mp) + 1 \<noteq> 0"
  shows "mempool_inv cx mp'"
proof -
  have inv: "inner_inv cx (min_fee (pool_config mp)) (pool mp)" and len: "length (by_seq (pool mp)) \<le> max_size (pool_config mp)"
    using assms(2) by (simp_all add: mempool_inv_def)
  have seq: "by_seq (pool (snd (mempool_expire now mp))) = fresh now mp"
    using inner_invD(1)[OF inv] by (rule mempool_expire_by_seq)
  have fresh: "omap_inv (fresh now mp)" "length (fresh now mp) \<le> max_size (pool_config mp)"
    using inner_invD(1)[OF inv] len le_trans[OF length_filter_le len] by (auto simp: fresh_def intro: omap_inv_filter)
  from assms(1) inv show ?thesis
  proof (cases rule: mempool_insert_cases)
    case (refused e)
    then show ?thesis using assms(2) by (simp add: mempool_inv_def)
  next
    case full
    then show ?thesis using mempool_expire_inv[OF inv] fresh by (simp add: mempool_inv_def seq)
  next
    case (admitted mp1 victims)
    have "\<exists>s. length (by_seq (pool mp1)) < max_size (pool_config mp) \<and>
        (pool mp1 = pool (snd (mempool_expire now mp)) \<or> pool mp1 = snd (remove_seq s (pool (snd (mempool_expire now mp)))))"
      using admitted(7)
    proof (elim disjE exE conjE, goal_cases)
      case (2 v)
      then show ?case using omap_remove_length[OF fresh(1), of v] fresh(2) by (intro exI[of _ "fst v"]) (simp add: seq)
    qed (simp add: seq)
    then obtain s where s: "length (by_seq (pool mp1)) < max_size (pool_config mp)" "pool mp1 = pool (snd (mempool_expire now mp)) \<or>
        pool mp1 = snd (remove_seq s (pool (snd (mempool_expire now mp))))" by blast
    show ?thesis
      using mempool_insert_admitted[OF assms(2,3) admitted(4,1-3,5,6) s(2)] s(1) by (simp add: mempool_inv_def)
  qed
qed

lemma mempool_expire_keeps:
  assumes "mempool_inv cx mp"
  shows "mempool_inv cx (snd (mempool_expire now mp))"
proof -
  have inv: "inner_inv cx (min_fee (pool_config mp)) (pool mp)" using assms by (simp add: mempool_inv_def)
  have "length (fresh now mp) \<le> length (by_seq (pool mp))" by (simp add: fresh_def)
  then show ?thesis
    using mempool_expire_inv[OF inv] mempool_expire_by_seq[OF inner_invD(1)[OF inv]] assms by (simp add: mempool_inv_def)
qed

lemma mempool_remove_inv:
  assumes "mempool_inv cx mp"
  shows "mempool_inv cx (snd (mempool_remove h mp))"
proof (cases "map_of (by_hash (pool mp)) h")
  case (Some s)
  have "length (omap_remove s (by_seq (pool mp))) \<le> length (by_seq (pool mp))" by (rule omap_remove_keys)
  then show ?thesis
    using assms Some remove_seq_inv[of cx "min_fee (pool_config mp)" "pool mp" s]
    by (simp add: mempool_inv_def mempool_remove_def split_beta)
qed (use assms in \<open>simp add: mempool_remove_def\<close>)

subsection \<open>Draining\<close>

definition drain_key :: "u64 \<times> mempool_entry \<Rightarrow> int \<times> u64" where
  "drain_key q = (- int (unat (me_fee (snd q))), fst q)"

definition ranked :: "mempool \<Rightarrow> (u64 \<times> mempool_entry) list" where
  "ranked mp = sort_key drain_key (by_seq (pool mp))"

lemma drain_order_ranked: "map snd (drain_order (by_seq (pool mp))) = map fst (ranked mp)"
proof -
  have "drain_key = (\<lambda>q. (- int (unat (me_fee (snd q))), fst q))" by (rule ext) (rule drain_key_def)
  then show ?thesis unfolding drain_order_def sort_key_map ranked_def by (simp add: case_prod_unfold comp_def)
qed

lemma drain_loop_spec:
  assumes "omap_inv (by_seq p)" "distinct qs" "set qs \<subseteq> set (by_seq p)"
  shows "fst (drain_loop (map fst qs) p) = map (\<lambda>q. me_tx (snd q)) qs \<and>
    snd (drain_loop (map fst qs) p) = foldl (\<lambda>p s. snd (remove_seq s p)) p (map fst qs)"
  using assms
proof (induction qs arbitrary: p)
  case (Cons q qs)
  have q: "map_of (by_seq p) (fst q) = Some (snd q)" using Cons.prems by (simp add: omap_map_of)
  define p' where "p' = snd (remove_seq (fst q) p)"
  have p': "remove_seq (fst q) p = (Some (snd q), p')" by (simp add: p'_def prod_eq_iff q)
  have seq: "by_seq p' = omap_remove (fst q) (by_seq p)" by (simp add: p'_def)
  have "set qs \<subseteq> set (by_seq p')"
  proof
    fix x assume x: "x \<in> set qs"
    then have "fst x \<noteq> fst q" using omap_key_inj[OF Cons.prems(1), of x q] Cons.prems by auto
    then show "x \<in> set (by_seq p')" using x Cons.prems(3) by (auto simp: seq omap_remove_def)
  qed
  then show ?case
    using Cons.IH[of p'] Cons.prems p' seq by (simp add: split_beta omap_inv_remove)
qed simp

lemma drain_spec:
  assumes "omap_inv (by_seq (pool mp))"
  shows "fst (drain n mp) = map (\<lambda>q. me_tx (snd q)) (take n (ranked mp)) \<and>
    pool (snd (drain n mp)) = foldl (\<lambda>p s. snd (remove_seq s p)) (pool mp) (map fst (take n (ranked mp))) \<and>
    pool_config (snd (drain n mp)) = pool_config mp"
proof (cases "n = 0 \<or> by_seq (pool mp) = []")
  case True
  then show ?thesis by (auto simp: drain_def ranked_def)
next
  case False
  let ?d = "drain_order (by_seq (pool mp))"
  have "map snd (take (min n (length ?d)) ?d) = map fst (take n (ranked mp))"
    by (simp add: take_map[symmetric] drain_order_ranked min_def)
      (metis drain_order_ranked length_map nat_le_linear take_all take_map)
  moreover have "distinct (take n (ranked mp))" "set (take n (ranked mp)) \<subseteq> set (by_seq (pool mp))"
    using omap_inv_distinct[OF assms] set_take_subset[of n "ranked mp"]
    by (auto simp: ranked_def distinct_map intro: distinct_take)
  ultimately show ?thesis
    using False drain_loop_spec[OF assms, of "take n (ranked mp)"] by (simp add: drain_def Let_def split_beta)
qed

lemma drain_by_seq:
  assumes "omap_inv (by_seq (pool mp))"
  shows "by_seq (pool (snd (drain n mp))) = filter (\<lambda>q. q \<notin> set (take n (ranked mp))) (by_seq (pool mp))"
proof -
  have sub: "set (take n (ranked mp)) \<subseteq> set (by_seq (pool mp))"
    using set_take_subset[of n "ranked mp"] by (simp add: ranked_def)
  have "fst q \<in> fst ` set (take n (ranked mp)) \<longleftrightarrow> q \<in> set (take n (ranked mp))" if "q \<in> set (by_seq (pool mp))" for q
    using that sub omap_key_inj[OF assms] by (smt (verit) image_iff subsetD)
  then show ?thesis
    using drain_spec[OF assms, of n] by (simp add: foldl_remove_by_seq cong: filter_cong)
qed

subsection \<open>Properties of the pool\<close>

datatype pool_op = PoolInsert transaction u64 | PoolDrain nat | PoolRemove hash32 | PoolExpire u64

fun pool_step :: "('z) crypto_scheme \<Rightarrow> mempool \<Rightarrow> pool_op \<Rightarrow> mempool" where
  "pool_step cx mp (PoolInsert tx now) = snd (mempool_insert cx tx now mp)"
| "pool_step cx mp (PoolDrain n) = snd (drain n mp)"
| "pool_step cx mp (PoolRemove h) = snd (mempool_remove h mp)"
| "pool_step cx mp (PoolExpire now) = snd (mempool_expire now mp)"

lemma drain_inv:
  assumes "mempool_inv cx mp"
  shows "mempool_inv cx (snd (drain n mp))" "next_seq (pool (snd (drain n mp))) = next_seq (pool mp)"
proof -
  have inv: "inner_inv cx (min_fee (pool_config mp)) (pool mp)" using assms by (simp add: mempool_inv_def)
  note om = inner_invD(1)[OF inv]
  have "length (by_seq (pool (snd (drain n mp)))) \<le> length (by_seq (pool mp))" by (simp add: drain_by_seq[OF om])
  then show "mempool_inv cx (snd (drain n mp))"
    using drain_spec[OF om, of n] foldl_remove_inv[OF inv] assms by (simp add: mempool_inv_def)
  show "next_seq (pool (snd (drain n mp))) = next_seq (pool mp)" using drain_spec[OF om, of n] by simp
qed

lemma mempool_insert_next_seq:
  assumes "mempool_inv cx mp"
  shows "next_seq (pool (snd (mempool_insert cx tx now mp))) \<in> {next_seq (pool mp), next_seq (pool mp) + 1}"
proof -
  have inv: "inner_inv cx (min_fee (pool_config mp)) (pool mp)" using assms by (simp add: mempool_inv_def)
  obtain r mp' where run: "mempool_insert cx tx now mp = (r, mp')" by fastforce
  from run inv show ?thesis
    by (cases rule: mempool_insert_cases) (auto simp: run park_def Let_def)
qed

lemma pool_step_inv:
  assumes "mempool_inv cx mp" "unat (next_seq (pool mp)) \<le> n" "Suc n < 2 ^ 64"
  shows "mempool_inv cx (pool_step cx mp op)" "unat (next_seq (pool (pool_step cx mp op))) \<le> Suc n"
proof -
  have "unat (next_seq (pool mp) + 1) = Suc (unat (next_seq (pool mp)))"
    using assms(2,3) by (simp add: unat_word_ariths)
  then have nz: "next_seq (pool mp) + 1 \<noteq> 0" and suc: "unat (next_seq (pool mp) + 1) \<le> Suc n"
    using assms(2) by (auto simp: unat_eq_0[symmetric] simp del: unat_eq_0)
  show "mempool_inv cx (pool_step cx mp op)"
    using assms(1) nz mempool_insert_inv[OF prod.collapse[symmetric]]
    by (cases op) (simp_all add: drain_inv mempool_remove_inv mempool_expire_keeps)
  have "next_seq (pool (pool_step cx mp op)) \<in> {next_seq (pool mp), next_seq (pool mp) + 1}"
    using mempool_insert_next_seq[OF assms(1)] drain_inv(2)[OF assms(1)]
    by (cases op) (simp_all add: mempool_remove_def split_beta split: option.split)
  then show "unat (next_seq (pool (pool_step cx mp op))) \<le> Suc n" using suc assms(2) by auto
qed

lemma mempool_new_inv: "mempool_inv cx (mempool_new config)" "next_seq (pool (mempool_new config)) = 0"
  by (simp_all add: mempool_inv_def mempool_new_def inner_new_def inner_inv_def)

interpretation pool_machine: traced_machine "\<lambda>op mp. pool_step cx mp op"
  "\<lambda>ops mp. length ops < 2 ^ 64 \<longrightarrow> mempool_inv cx mp \<and> unat (next_seq (pool mp)) \<le> length ops" for cx
  using pool_step_inv by unfold_locales force

lemma pool_steps_inv: "length ops < 2 ^ 64 \<Longrightarrow> mempool_inv cx (foldl (pool_step cx) (mempool_new config) ops)"
  using pool_machine.inv_runl[of cx "mempool_new config" ops] by (simp add: mempool_new_inv)


lemma pool_config_step [simp]: "pool_config (pool_step cx mp op) = pool_config mp"
  by (cases op) (auto simp: mempool_insert_def reject_def Let_def drain_def mempool_remove_def split: option.split prod.split)

lemma pool_config_steps [simp]: "pool_config (foldl (pool_step cx) mp ops) = pool_config mp"
  by (induction ops arbitrary: mp) simp_all

lemma inner_inv_hashes: "inner_inv cx f p \<Longrightarrow> distinct (map (\<lambda>q. me_hash (snd q)) (by_seq p))"
  using inner_inv_hash_inj[of cx f p] omap_inv_distinct[OF inner_invD(1), of cx f p]
  by (force simp: distinct_map inj_on_def)

text \<open>
  C13 Whatever is inserted, drained, removed and expired, in any order (up to 2^64
  operations), the pool stays within its size, holds no transaction twice, and every entry
  is a correctly signed transaction of at least the minimal fee, found under its own hash.
\<close>

theorem mempool_sound:
  assumes "length ops < 2 ^ 64"
  shows "let mp = foldl (pool_step cx) (mempool_new config) ops in
    mempool_len mp \<le> max_size config \<and> distinct (map (\<lambda>q. me_hash (snd q)) (by_seq (pool mp))) \<and>
    (\<forall>h. mempool_contains h mp \<longleftrightarrow> h \<in> (\<lambda>q. me_hash (snd q)) ` set (by_seq (pool mp))) \<and>
    list_all (\<lambda>(_, e). verify_signature cx (me_tx e) \<and> min_fee config \<le> tx_fee (me_tx e) \<and>
      me_fee e = tx_fee (me_tx e) \<and> me_hash e = tx_hash cx (me_tx e)) (by_seq (pool mp))"
proof -
  let ?mp = "foldl (pool_step cx) (mempool_new config) ops"
  have "mempool_inv cx ?mp"
    by (rule pool_steps_inv) (use assms in simp)
  then have inv: "inner_inv cx (min_fee config) (pool ?mp)" "mempool_len ?mp \<le> max_size config"
    by (simp_all add: mempool_inv_def mempool_len_def mempool_new_def)
  have "mempool_contains h ?mp \<longleftrightarrow> h \<in> (\<lambda>q. me_hash (snd q)) ` set (by_seq (pool ?mp))" for h
    using by_hash_None[OF inv(1), of h] by (auto simp: mempool_contains_def list_all_iff)
  then show ?thesis
    using inv inner_inv_hashes[OF inv(1)] by (auto simp: Let_def inner_inv_def list_all_iff)
qed

definition demo_pool :: mempool where
  "demo_pool = foldl (pool_step demo_crypto) (mempool_new \<lparr>max_size = 2, max_age_ms = 100, min_fee = 10\<rparr>)
     [PoolInsert (tx_sign demo_crypto 3 (transaction_new 3 [] 1)) 7]"

lemma demo_pool_inv: "mempool_inv demo_crypto demo_pool"
  unfolding demo_pool_def
  by (rule pool_steps_inv) simp

lemma demo_pool_tx:
  "verify_signature demo_crypto (tx_sign demo_crypto k (transaction_new k [] b))"
  "tx_fee (tx_sign demo_crypto k (transaction_new k [] b)) = 5000"
  using signature_ok_def by (simp_all add: verify_signature_def tx_sign_def transaction_new_def signature_ok_def Let_def
      tx_hash_def tx_message_def demo_crypto_def)

lemma demo_pool_parked:
  "by_seq (pool demo_pool) = [(0, \<lparr>me_hash = tx_hash demo_crypto (tx_sign demo_crypto 3 (transaction_new 3 [] 1)),
     me_tx = tx_sign demo_crypto 3 (transaction_new 3 [] 1), me_fee = 5000, received_at = 7\<rparr>)]"
  "next_seq (pool demo_pool) = 1"
  by (simp_all add: demo_pool_def mempool_insert_def demo_pool_tx mempool_new_def inner_new_def Let_def
      mempool_expire_def expire_locked_def park_def)

theorem mempool_sound_witness:
  "mempool_len demo_pool \<le> 2 \<and> distinct (map (\<lambda>q. me_hash (snd q)) (by_seq (pool demo_pool)))"
  using mempool_sound[of "[PoolInsert (tx_sign demo_crypto 3 (transaction_new 3 [] 1)) 7]" demo_crypto
      "\<lparr>max_size = 2, max_age_ms = 100, min_fee = 10\<rparr>"]
  by (simp add: Let_def demo_pool_def)

text \<open>Higher fee first, earlier admission first among equal fees.\<close>

definition outranks :: "u64 \<times> mempool_entry \<Rightarrow> u64 \<times> mempool_entry \<Rightarrow> bool" where
  "outranks p q \<longleftrightarrow> me_fee (snd q) < me_fee (snd p) \<or> me_fee (snd q) = me_fee (snd p) \<and> fst p < fst q"

lemma drain_key_less: "drain_key p < drain_key q \<longleftrightarrow> outranks p q"
  by (auto simp: drain_key_def outranks_def word_less_def word_uint_eq_iff)

lemma ranked_sorted:
  assumes "omap_inv (by_seq (pool mp))"
  shows "sorted_wrt outranks (ranked mp)"
proof -
  have inj: "inj_on drain_key (set (ranked mp))"
    using omap_key_inj[OF assms] by (auto simp: inj_on_def drain_key_def ranked_def)
  have "distinct (ranked mp)" using omap_inv_distinct[OF assms] by (simp add: ranked_def distinct_map)
  then have "sorted_wrt (<) (map drain_key (ranked mp))"
    using inj by (simp add: strict_sorted_iff distinct_map) (simp add: ranked_def)
  then show ?thesis by (simp add: sorted_wrt_map drain_key_less)
qed

text \<open>
  C31 A drain takes the best: it returns as many transactions as asked for or parked, in
  the order of fees with ties in order of admission, each of them outranks every one left
  behind, and those left behind keep their entries and order.
\<close>

theorem drain_takes_best:
  assumes "mempool_inv cx mp" "drain n mp = (txs, mp')"
  shows "\<exists>taken. txs = map (\<lambda>q. me_tx (snd q)) taken \<and> length taken = min n (mempool_len mp) \<and>
    sorted_wrt outranks taken \<and> list_all (\<lambda>p. list_all (outranks p) (by_seq (pool mp'))) taken \<and>
    set taken \<subseteq> set (by_seq (pool mp)) \<and>
    by_seq (pool mp') = filter (\<lambda>q. q \<notin> set taken) (by_seq (pool mp)) \<and> mempool_inv cx mp'"
proof -
  have om: "omap_inv (by_seq (pool mp))" using assms(1) inner_invD(1) by (auto simp: mempool_inv_def)
  let ?t = "take n (ranked mp)"
  have srt: "sorted_wrt outranks (take n (ranked mp) @ drop n (ranked mp))" using ranked_sorted[OF om] by simp
  have left: "by_seq (pool mp') = filter (\<lambda>q. q \<notin> set ?t) (by_seq (pool mp))"
    using drain_by_seq[OF om, of n] assms(2) by simp
  have "set (ranked mp) = set (by_seq (pool mp))" by (simp add: ranked_def)
  then have "set (by_seq (pool mp')) \<subseteq> set (drop n (ranked mp))" and sub: "set ?t \<subseteq> set (by_seq (pool mp))"
    unfolding left using set_append[of ?t "drop n (ranked mp)"] by auto
  then have "list_all (\<lambda>p. list_all (outranks p) (by_seq (pool mp'))) ?t"
    using srt unfolding sorted_wrt_append list_all_iff by blast
  moreover have "length ?t = min n (mempool_len mp)" by (simp add: ranked_def mempool_len_def min.commute)
  moreover have "txs = map (\<lambda>q. me_tx (snd q)) ?t" using drain_spec[OF om, of n] assms(2) by simp
  moreover have "mempool_inv cx mp'" using drain_inv(1)[OF assms(1), of n] assms(2) by simp
  ultimately show ?thesis using srt sub left by (intro exI[of _ ?t]) (simp add: sorted_wrt_append)
qed

theorem drain_takes_best_witness:
  "\<exists>taken :: (u64, mempool_entry) omap. fst (drain 5 demo_pool) = map (\<lambda>q. me_tx (snd q)) taken \<and> length taken = 1"
proof -
  have "mempool_len demo_pool = 1" by (simp add: mempool_len_def demo_pool_parked)
  then show ?thesis
    using drain_takes_best[OF demo_pool_inv prod.collapse[symmetric], of 5]
    by auto
qed

text \<open>
  Admission to a full pool: an accepted transaction enters behind the entries that have
  not expired, all of which stay unless the pool is full, when the cheapest gives way to a
  strictly higher fee. A pool that refuses for lack of room is full of entries that pay at
  least as much.
\<close>

theorem mempool_insert_evicts_cheapest:
  assumes "mempool_insert cx tx now mp = (r, mp')" "mempool_inv cx mp" "next_seq (pool mp) + 1 \<noteq> 0"
  shows "case r of
      Inr h \<Rightarrow> h = tx_hash cx tx \<and> (\<exists>kept. (kept = fresh now mp \<and> length kept < max_size (pool_config mp) \<or>
        (\<exists>v\<in>set (fresh now mp). kept = omap_remove (fst v) (fresh now mp) \<and> length (fresh now mp) = max_size (pool_config mp) \<and>
          me_fee (snd v) < tx_fee tx \<and> list_all (\<lambda>q. me_fee (snd v) \<le> me_fee (snd q)) (fresh now mp))) \<and>
        by_seq (pool mp') = kept @
          [(next_seq (pool mp), \<lparr>me_hash = h, me_tx = tx, me_fee = tx_fee tx, received_at = now\<rparr>)])
    | Inl MFull \<Rightarrow> by_seq (pool mp') = fresh now mp \<and> length (fresh now mp) = max_size (pool_config mp) \<and>
        list_all (\<lambda>q. tx_fee tx \<le> me_fee (snd q)) (fresh now mp)
    | Inl MInvalidSignature \<Rightarrow> \<not> verify_signature cx tx \<and> pool mp' = pool mp
    | Inl MFeeTooLow \<Rightarrow> tx_fee tx < min_fee (pool_config mp) \<and> pool mp' = pool mp
    | Inl MDuplicate \<Rightarrow> mempool_contains (tx_hash cx tx) mp \<and> pool mp' = pool mp"
proof -
  have inv: "inner_inv cx (min_fee (pool_config mp)) (pool mp)" using assms(2) by (simp add: mempool_inv_def)
  have seq: "by_seq (pool (snd (mempool_expire now mp))) = fresh now mp"
    using inner_invD(1)[OF inv] by (rule mempool_expire_by_seq)
  have small: "length (fresh now mp) \<le> max_size (pool_config mp)"
    using assms(2) le_trans[OF length_filter_le] by (auto simp: mempool_inv_def fresh_def)
  from assms(1) inv show ?thesis
  proof (cases rule: mempool_insert_cases)
    case (refused e)
    then show ?thesis by (auto simp: mempool_contains_def)
  next
    case full
    then show ?thesis using small by (simp add: seq)
  next
    case (admitted mp1 victims)
    note adm = mempool_insert_admitted[OF assms(2,3) admitted(4,1-3,5,6)]
    from admitted(7) show ?thesis
    proof (elim disjE exE conjE, goal_cases)
      case 1
      then show ?case using adm(2,4)[OF disjI1[OF 1(3)]] by (simp add: seq)
    next
      case (2 v)
      then have "list_all (\<lambda>q. me_fee (snd v) \<le> me_fee (snd q)) (fresh now mp)"
        by (fastforce simp: list_all_iff evict_key_def)
      then show ?case using 2 adm(2,4)[OF disjI2[OF 2(6)]] small by (auto simp: seq)
    qed
  qed
qed

theorem mempool_insert_evicts_cheapest_witness:
  "let tx = tx_sign demo_crypto 4 (transaction_new 4 [] 1) in
   case fst (mempool_insert demo_crypto tx 8 demo_pool) of
     Inl MFull \<Rightarrow> length (fresh 8 demo_pool) = 2 | _ \<Rightarrow> True"
proof -
  let ?tx = "tx_sign demo_crypto 4 (transaction_new 4 [] 1)"
  obtain r mp' where run: "mempool_insert demo_crypto ?tx 8 demo_pool = (r, mp')" by fastforce
  have nz: "next_seq (pool demo_pool) + 1 \<noteq> 0" by (simp add: demo_pool_parked)
  have "max_size (pool_config demo_pool) = 2"
    unfolding demo_pool_def pool_config_steps by (simp add: mempool_new_def)
  then show ?thesis
    using mempool_insert_evicts_cheapest[OF run demo_pool_inv nz] unfolding Let_def run fst_conv
    by (cases r) (simp_all split: mempool_error.split_asm mempool_error.split)
qed

text \<open>
  The pool forgets what it hands out: right after a drain, every drained transaction is
  admitted again. Nothing later checks for a repeated transaction, so a copy resent after
  its block executes, and is charged, a second time.
\<close>

theorem drained_transaction_readmitted:
  assumes "mempool_inv cx mp" "drain n mp = (txs, mp')" "tx \<in> set txs" "next_seq (pool mp) + 1 \<noteq> 0"
  shows "fst (mempool_insert cx tx now mp') = Inr (tx_hash cx tx)"
proof -
  have inv: "inner_inv cx (min_fee (pool_config mp)) (pool mp)" using assms(1) by (simp add: mempool_inv_def)
  note om = inner_invD(1)[OF inv]
  have left: "by_seq (pool mp') = filter (\<lambda>q. q \<notin> set (take n (ranked mp))) (by_seq (pool mp))" and cfg: "pool_config mp' = pool_config mp"
    using drain_by_seq[OF om, of n] drain_spec[OF om, of n] assms(2) by simp_all
  obtain q where q: "q \<in> set (take n (ranked mp))" "tx = me_tx (snd q)" "q \<in> set (by_seq (pool mp))"
    using assms(2,3) drain_spec[OF om, of n] set_take_subset[of n "ranked mp"] by (auto simp: ranked_def)
  have tx: "verify_signature cx tx" "\<not> tx_fee tx < min_fee (pool_config mp)" "me_hash (snd q) = tx_hash cx tx"
    using inv q by (auto simp: inner_inv_def list_all_iff)
  have inv': "inner_inv cx (min_fee (pool_config mp)) (pool mp')"
    using drain_inv(1)[OF assms(1), of n] assms(2) cfg by (simp add: mempool_inv_def)
  have "me_hash (snd r) \<noteq> tx_hash cx tx" if "r \<in> set (by_seq (pool mp'))" for r
  proof
    assume "me_hash (snd r) = tx_hash cx tx"
    then have "r = q"
      using that q(3) tx(3) inner_inv_hash_inj[OF inv, of "fst r" "snd r" "fst q" "snd q"] by (simp add: left prod_eq_iff)
    then show False using that q(1) by (simp add: left)
  qed
  then have new: "map_of (by_hash (pool mp')) (tx_hash cx tx) = None" by (simp add: by_hash_None[OF inv'] list_all_iff)
  have "length (by_seq (pool mp')) < length (by_seq (pool mp))"
    unfolding left using q length_filter_less[of q "by_seq (pool mp)" "\<lambda>q. q \<notin> set (take n (ranked mp))"] by simp
  then have "length (fresh now mp') < max_size (pool_config mp)"
    using assms(1) length_filter_le[of _ "by_seq (pool mp')"] unfolding mempool_inv_def fresh_def by (meson le_less_trans less_le_trans)
  then show ?thesis
    using tx new mempool_expire_by_seq[OF inner_invD(1)[OF inv']] by (simp add: mempool_insert_def Let_def cfg park_def)
qed

theorem drained_transaction_readmitted_witness:
  "let tx = tx_sign demo_crypto 3 (transaction_new 3 [] 1) in
   fst (mempool_insert demo_crypto tx 9 (snd (drain 1 demo_pool))) = Inr (tx_hash demo_crypto tx)"
proof -
  have "tx_sign demo_crypto 3 (transaction_new 3 [] 1) \<in> set (fst (drain 1 demo_pool))"
    by (simp add: drain_def demo_pool_parked drain_order_def remove_seq_def split_beta)
  then show ?thesis
    using drained_transaction_readmitted[OF demo_pool_inv prod.collapse[symmetric]] by (simp add: Let_def demo_pool_parked)
qed

end
