(* ===== verification/PoH.thy ===== *)
theory PoH
  imports Crypto Machines "HOL-Library.Sublist"
begin

text \<open>
  Proof of History (\<^verbatim>\<open>crates/poh\<close>): the hash chain, entries and blocks, the recorder that
  extends the chain and the verifier that replays it. The recorder's channel is the list of
  the entries sent; its timed loop, which only calls \<^verbatim>\<open>record_tick\<close>, is not modelled.
\<close>

subsection \<open>The hash chain\<close>

definition poh_from_seed :: "('z) crypto_scheme \<Rightarrow> string \<Rightarrow> hash32" where
  "poh_from_seed cx seed = sha256 cx (ascii seed)"

definition poh_to_hex :: "hash32 \<Rightarrow> string" where
  "poh_to_hex h = hex_encode (bytes32 h)"

definition poh_zero :: hash32 where
  "poh_zero = fill32 0"

definition show_poh_hash :: "hash32 \<Rightarrow> string" where
  "show_poh_hash h = take 16 (poh_to_hex h)"

record poh_hasher =
  hasher_current :: hash32
  hasher_count :: u64
  hasher_slot :: u64

definition poh_hasher_new :: "hash32 \<Rightarrow> u64 \<Rightarrow> poh_hasher" where
  "poh_hasher_new seed slot = \<lparr>hasher_current = seed, hasher_count = 0, hasher_slot = slot\<rparr>"

definition hasher_genesis :: poh_hasher where
  "hasher_genesis = poh_hasher_new poh_zero 0"

definition hasher_hash :: "('z) crypto_scheme \<Rightarrow> poh_hasher \<Rightarrow> hash32 \<times> poh_hasher" where
  "hasher_hash cx h =
     (let next = sha256 cx (bytes32 (hasher_current h))
      in (next, h\<lparr>hasher_current := next, hasher_count := hasher_count h + 1\<rparr>))"

primrec hasher_loop :: "('z) crypto_scheme \<Rightarrow> nat \<Rightarrow> poh_hasher \<Rightarrow> poh_hasher" where
  "hasher_loop cx 0 h = h"
| "hasher_loop cx (Suc n) h = hasher_loop cx n (snd (hasher_hash cx h))"

definition hasher_hash_n :: "('z) crypto_scheme \<Rightarrow> u64 \<Rightarrow> poh_hasher \<Rightarrow> hash32 \<times> poh_hasher" where
  "hasher_hash_n cx n h = (let h = hasher_loop cx (unat n) h in (hasher_current h, h))"

definition hasher_hash_with :: "('z) crypto_scheme \<Rightarrow> bytes \<Rightarrow> poh_hasher \<Rightarrow> hash32 \<times> poh_hasher" where
  "hasher_hash_with cx data h =
     (let next = sha256 cx (bytes32 (hasher_current h) @ data)
      in (next, h\<lparr>hasher_current := next, hasher_count := hasher_count h + 1\<rparr>))"

definition hasher_new_slot :: "u64 \<Rightarrow> poh_hasher \<Rightarrow> poh_hasher" where
  "hasher_new_slot slot h = h\<lparr>hasher_slot := slot, hasher_count := 0\<rparr>"

definition hash_chain :: "('z) crypto_scheme \<Rightarrow> hash32 \<Rightarrow> u64 \<Rightarrow> hash32" where
  "hash_chain cx start steps = fst (hasher_hash_n cx steps (poh_hasher_new start 0))"

definition hasher_verify :: "('z) crypto_scheme \<Rightarrow> hash32 \<Rightarrow> u64 \<Rightarrow> hash32 \<Rightarrow> bool" where
  "hasher_verify cx start_hash steps end_hash \<longleftrightarrow> hash_chain cx start_hash steps = end_hash"

subsection \<open>Entries and blocks\<close>

record transaction_entry =
  te_transaction :: bytes
  te_signature :: bytes

datatype entry_data = Tick | Transactions "transaction_entry list"

record poh_entry =
  pe_hash :: hash32
  prev_hash :: hash32
  num_hashes :: u64
  pe_slot :: u64
  pe_index :: u64
  pe_data :: entry_data

fun entry_payload :: "entry_data \<Rightarrow> bytes" where
  "entry_payload Tick = ascii ''tick''"
| "entry_payload (Transactions txs) = concat (map (\<lambda>tx. te_transaction tx @ te_signature tx) txs)"

definition entry_compute_hash :: "('z) crypto_scheme \<Rightarrow> poh_entry \<Rightarrow> hash32" where
  "entry_compute_hash cx e =
     (let chained = hash_chain cx (prev_hash e) (num_hashes e)
      in sha256 cx (bytes32 chained @ le_u64 (pe_slot e) @ le_u64 (pe_index e) @ entry_payload (pe_data e)))"

definition entry_verify :: "('z) crypto_scheme \<Rightarrow> poh_entry \<Rightarrow> bool" where
  "entry_verify cx e \<longleftrightarrow> pe_hash e = entry_compute_hash cx e"

definition hashed_entry ::
    "('z) crypto_scheme \<Rightarrow> hash32 \<Rightarrow> u64 \<Rightarrow> u64 \<Rightarrow> u64 \<Rightarrow> entry_data \<Rightarrow> poh_entry" where
  "hashed_entry cx prev n slot i d =
     (let entry = \<lparr>pe_hash = poh_zero, prev_hash = prev, num_hashes = n, pe_slot = slot, pe_index = i, pe_data = d\<rparr>
      in entry\<lparr>pe_hash := entry_compute_hash cx entry\<rparr>)"

definition entry_tick :: "('z) crypto_scheme \<Rightarrow> hash32 \<Rightarrow> u64 \<Rightarrow> u64 \<Rightarrow> u64 \<Rightarrow> poh_entry" where
  "entry_tick cx prev n slot i = hashed_entry cx prev n slot i Tick"

definition entry_transaction ::
    "('z) crypto_scheme \<Rightarrow> hash32 \<Rightarrow> u64 \<Rightarrow> u64 \<Rightarrow> u64 \<Rightarrow> bytes \<Rightarrow> bytes \<Rightarrow> poh_entry" where
  "entry_transaction cx prev n slot i tx sig =
     hashed_entry cx prev n slot i (Transactions [\<lparr>te_transaction = tx, te_signature = sig\<rparr>])"

record poh_block =
  block_hash :: hash32
  block_slot :: u64
  parent_hash :: hash32
  block_entries :: "poh_entry list"
  block_height :: u64
  block_timestamp :: u64

definition poh_block_new :: "hash32 \<Rightarrow> u64 \<Rightarrow> hash32 \<Rightarrow> poh_entry list \<Rightarrow> u64 \<Rightarrow> u64 \<Rightarrow> poh_block" where
  "poh_block_new h slot parent es ht ts =
     \<lparr>block_hash = h, block_slot = slot, parent_hash = parent, block_entries = es,
      block_height = ht, block_timestamp = ts\<rparr>"

text \<open>The loop of \<^verbatim>\<open>verify_poh_chain\<close>, with the previous entry where there is one.\<close>

fun verify_entries :: "('z) crypto_scheme \<Rightarrow> poh_entry option \<Rightarrow> poh_entry list \<Rightarrow> bool" where
  "verify_entries cx prev [] = True"
| "verify_entries cx prev (e # es) =
     (if \<not> entry_verify cx e then False
      else if (case prev of Some p \<Rightarrow> prev_hash e \<noteq> pe_hash p | None \<Rightarrow> False) then False
      else verify_entries cx (Some e) es)"

definition verify_poh_chain :: "('z) crypto_scheme \<Rightarrow> poh_block \<Rightarrow> bool" where
  "verify_poh_chain cx b =
     (if block_entries b = [] then False
      else if \<not> verify_entries cx None (block_entries b) then False
      else prev_hash (hd (block_entries b)) = parent_hash b)"

definition block_transactions :: "poh_block \<Rightarrow> transaction_entry list" where
  "block_transactions b =
     concat (map (\<lambda>e. case pe_data e of Transactions txs \<Rightarrow> txs | Tick \<Rightarrow> []) (block_entries b))"

definition block_compute_hash :: "('z) crypto_scheme \<Rightarrow> poh_block \<Rightarrow> hash32" where
  "block_compute_hash cx b =
     sha256 cx (bytes32 (parent_hash b) @ le_u64 (block_slot b) @ le_u64 (block_height b) @
       concat (map (\<lambda>e. bytes32 (pe_hash e)) (block_entries b)))"

subsection \<open>Recorder\<close>

record poh_config =
  hashes_per_tick :: u64
  target_tick_rate :: u64
  max_hashes_per_tick :: u64

definition poh_config_default :: poh_config where
  "poh_config_default = \<lparr>hashes_per_tick = 6000, target_tick_rate = 160, max_hashes_per_tick = 12000\<rparr>"

record recorded_entry =
  re_entry :: poh_entry
  re_tick_height :: u64

record poh_recorder =
  rec_config :: poh_config
  rec_slot :: u64
  tick_height :: u64
  rec_hash_count :: u64
  current_entries :: "poh_entry list"
  entry_index :: u64
  sent_entries :: "recorded_entry list"
  pending_transactions :: "transaction_entry list"
  rec_prev_hash :: hash32

definition poh_recorder_new :: "poh_config \<Rightarrow> hash32 \<Rightarrow> poh_recorder" where
  "poh_recorder_new config genesis_hash =
     \<lparr>rec_config = config, rec_slot = 0, tick_height = 0, rec_hash_count = 0, current_entries = [],
      entry_index = 0, sent_entries = [], pending_transactions = [], rec_prev_hash = genesis_hash\<rparr>"

text \<open>What every recording does with its entry: count the work, move the head, keep and send it.\<close>

definition push_entry :: "u64 \<Rightarrow> poh_entry \<Rightarrow> poh_recorder \<Rightarrow> poh_recorder" where
  "push_entry work entry r =
     r\<lparr>rec_hash_count := rec_hash_count r + work, rec_prev_hash := pe_hash entry,
       entry_index := entry_index r + 1, current_entries := current_entries r @ [entry],
       sent_entries := sent_entries r @ [\<lparr>re_entry = entry, re_tick_height = tick_height r\<rparr>]\<rparr>"

definition record_transaction :: "('z) crypto_scheme \<Rightarrow> bytes \<Rightarrow> bytes \<Rightarrow> poh_recorder \<Rightarrow> poh_recorder" where
  "record_transaction cx tx sig r =
     push_entry 1 (entry_transaction cx (rec_prev_hash r) 1 (rec_slot r) (entry_index r) tx sig) r"

definition record_tick :: "('z) crypto_scheme \<Rightarrow> poh_recorder \<Rightarrow> poh_recorder" where
  "record_tick cx r =
     (let r = r\<lparr>tick_height := tick_height r + 1\<rparr>;
          n = hashes_per_tick (rec_config r)
      in push_entry n (entry_tick cx (rec_prev_hash r) n (rec_slot r) (entry_index r)) r)"

definition flush_transactions :: "('z) crypto_scheme \<Rightarrow> poh_recorder \<Rightarrow> poh_recorder" where
  "flush_transactions cx r =
     (if pending_transactions r = [] then r
      else
        let txs = pending_transactions r;
            r = r\<lparr>pending_transactions := []\<rparr>;
            num_txs = of_nat (length txs)
        in push_entry num_txs
             (hashed_entry cx (rec_prev_hash r) num_txs (rec_slot r) (entry_index r) (Transactions txs)) r)"

definition recorder_new_slot :: "u64 \<Rightarrow> poh_recorder \<Rightarrow> poh_entry list \<times> poh_recorder" where
  "recorder_new_slot slot r =
     (current_entries r, r\<lparr>current_entries := [], rec_slot := slot, entry_index := 0\<rparr>)"

subsection \<open>Verifier\<close>

record verification_result =
  vr_valid :: bool
  vr_errors :: "string list"
  entries_verified :: u64
  total_hashes_verified :: u64

definition vr_ok :: "u64 \<Rightarrow> u64 \<Rightarrow> verification_result" where
  "vr_ok es hs = \<lparr>vr_valid = True, vr_errors = [], entries_verified = es, total_hashes_verified = hs\<rparr>"

definition vr_fail :: "string \<Rightarrow> verification_result" where
  "vr_fail error = \<lparr>vr_valid = False, vr_errors = [error], entries_verified = 0, total_hashes_verified = 0\<rparr>"

definition vr_add_error :: "string \<Rightarrow> verification_result \<Rightarrow> verification_result" where
  "vr_add_error error v = v\<lparr>vr_errors := vr_errors v @ [error], vr_valid := False\<rparr>"

definition debug_poh_hash :: "hash32 \<Rightarrow> string" where
  "debug_poh_hash h = ''PohHash('' @ debug_key h @ '')''"

text \<open>The first loop of \<^verbatim>\<open>verify_slot_entries\<close>, from entry number i on.\<close>

fun check_entries :: "('z) crypto_scheme \<Rightarrow> nat \<Rightarrow> u64 \<Rightarrow> poh_entry list \<Rightarrow> string + u64" where
  "check_entries cx i hashes [] = Inr hashes"
| "check_entries cx i hashes (e # es) =
     (if \<not> entry_verify cx e then Inl (''Entry '' @ show_nat i @ '' hash verification failed'')
      else check_entries cx (Suc i) (hashes + num_hashes e) es)"

fun check_windows :: "poh_entry list \<Rightarrow> string + unit" where
  "check_windows (c # n # es) =
     (if prev_hash n \<noteq> pe_hash c
      then Inl (''Chain break: next.prev_hash '' @ debug_poh_hash (prev_hash n) @ '' != current.hash '' @
        debug_poh_hash (pe_hash c))
      else check_windows (n # es))"
| "check_windows es = Inr ()"

definition verify_slot_entries :: "('z) crypto_scheme \<Rightarrow> poh_entry list \<Rightarrow> verification_result" where
  "verify_slot_entries cx es =
     (if es = [] then vr_fail ''Empty entries''
      else case check_entries cx 0 0 es of
             Inl e \<Rightarrow> vr_fail e
           | Inr hashes \<Rightarrow>
               (case check_windows es of
                  Inl e \<Rightarrow> vr_fail e
                | Inr _ \<Rightarrow> vr_ok (of_nat (length es)) hashes))"

definition verify_block :: "('z) crypto_scheme \<Rightarrow> poh_block \<Rightarrow> verification_result" where
  "verify_block cx b =
     (let result = verify_slot_entries cx (block_entries b)
      in if \<not> vr_valid result then result
         else if block_entries b \<noteq> [] \<and> pe_hash (last (block_entries b)) \<noteq> block_hash b
         then vr_add_error (''Block hash mismatch: expected '' @ debug_poh_hash (block_hash b) @ '', got '' @
                debug_poh_hash (pe_hash (last (block_entries b)))) result
         else result)"

definition verify_chain_link :: "poh_block \<Rightarrow> poh_block \<Rightarrow> verification_result" where
  "verify_chain_link parent child =
     (if block_hash parent \<noteq> parent_hash child
      then vr_fail (''Chain link broken: parent hash '' @ debug_poh_hash (block_hash parent) @
             '' != child parent_hash '' @ debug_poh_hash (parent_hash child))
      else if block_slot child \<noteq> block_slot parent + 1
      then vr_fail (''Slot discontinuity: parent='' @ show_word (block_slot parent) @ '', child='' @
             show_word (block_slot child))
      else if block_height child \<noteq> block_height parent + 1
      then vr_fail (''Height discontinuity: parent='' @ show_word (block_height parent) @ '', child='' @
             show_word (block_height child))
      else vr_ok 0 0)"

subsection \<open>The chain as a function\<close>

definition rehash :: "('z) crypto_scheme \<Rightarrow> hash32 \<Rightarrow> hash32" where
  "rehash cx h = sha256 cx (bytes32 h)"

lemma hasher_loop_sel:
  "hasher_current (hasher_loop cx n h) = (rehash cx ^^ n) (hasher_current h)"
  "hasher_count (hasher_loop cx n h) = hasher_count h + of_nat n"
  "hasher_slot (hasher_loop cx n h) = hasher_slot h"
  by (induction n arbitrary: h) (simp_all add: hasher_hash_def Let_def rehash_def funpow_swap1)

lemma hash_chain_funpow: "hash_chain cx start n = (rehash cx ^^ unat n) start"
  by (simp add: hash_chain_def hasher_hash_n_def Let_def hasher_loop_sel poh_hasher_new_def)

lemma hashed_entry_sel [simp]:
  "prev_hash (hashed_entry cx p n s i d) = p" "num_hashes (hashed_entry cx p n s i d) = n"
  "pe_slot (hashed_entry cx p n s i d) = s" "pe_index (hashed_entry cx p n s i d) = i" "pe_data (hashed_entry cx p n s i d) = d"
  by (simp_all add: hashed_entry_def Let_def)

lemma hashed_entry_verify [simp]: "entry_verify cx (hashed_entry cx p n s i d)"
  by (simp add: entry_verify_def hashed_entry_def Let_def entry_compute_hash_def)

text \<open>Entries that verify and continue a given hash.\<close>

fun linked :: "('z) crypto_scheme \<Rightarrow> hash32 \<Rightarrow> poh_entry list \<Rightarrow> bool" where
  "linked cx h [] = True"
| "linked cx h (e # es) = (entry_verify cx e \<and> prev_hash e = h \<and> linked cx (pe_hash e) es)"

definition chain_end :: "hash32 \<Rightarrow> poh_entry list \<Rightarrow> hash32" where
  "chain_end h es = (if es = [] then h else pe_hash (last es))"

lemma chain_end_simps [simp]:
  "chain_end h [] = h" "chain_end h (es @ [e]) = pe_hash e" "chain_end h (e # es) = chain_end (pe_hash e) es"
  by (simp_all add: chain_end_def)

lemma linked_append: "linked cx h (xs @ ys) \<longleftrightarrow> linked cx h xs \<and> linked cx (chain_end h xs) ys"
  by (induction xs arbitrary: h) auto

lemma verify_entries_linked:
  "verify_entries cx prev es \<longleftrightarrow>
     linked cx (case prev of Some p \<Rightarrow> pe_hash p | None \<Rightarrow> (case es of [] \<Rightarrow> 0 | e # _ \<Rightarrow> prev_hash e)) es"
  by (induction es arbitrary: prev) (auto split: option.splits)

lemma check_entries_ok:
  "check_entries cx i hashes es = Inr t \<longleftrightarrow> list_all (entry_verify cx) es \<and> t = hashes + sum_list (map num_hashes es)"
  by (induction cx i hashes es rule: check_entries.induct) (auto simp: add.assoc)

lemma check_windows_linked:
  "check_windows es = Inr () \<longleftrightarrow> (list_all (entry_verify cx) es \<longrightarrow> linked cx (case es of [] \<Rightarrow> 0 | e # _ \<Rightarrow> prev_hash e) es)"
  if "list_all (entry_verify cx) es"
  using that by (induction es rule: check_windows.induct) auto

lemma verify_slot_entries_ok:
  "vr_valid (verify_slot_entries cx es) \<longleftrightarrow> es \<noteq> [] \<and> linked cx (prev_hash (hd es)) es"
proof -
  have all: "linked cx h es \<Longrightarrow> list_all (entry_verify cx) es" for h es by (induction es arbitrary: h) auto
  show ?thesis
  proof (cases "list_all (entry_verify cx) es")
    case True
    then have "check_entries cx 0 0 es = Inr (sum_list (map num_hashes es))" by (simp add: check_entries_ok)
    then show ?thesis
      using check_windows_linked[OF True] True
      by (cases es; cases "check_windows es") (auto simp: verify_slot_entries_def vr_fail_def vr_ok_def)
  next
    case False
    then have "\<exists>e. check_entries cx 0 0 es = Inl e" using check_entries_ok[of cx 0 0 es] by (cases "check_entries cx 0 0 es") auto
    then show ?thesis using False all by (auto simp: verify_slot_entries_def vr_fail_def)
  qed
qed

lemma verify_poh_chain_ok:
  "verify_poh_chain cx b \<longleftrightarrow> block_entries b \<noteq> [] \<and> linked cx (parent_hash b) (block_entries b)"
  by (cases "block_entries b") (auto simp: verify_poh_chain_def verify_entries_linked)

lemma verify_block_ok:
  "vr_valid (verify_block cx b) \<longleftrightarrow>
     vr_valid (verify_slot_entries cx (block_entries b)) \<and> pe_hash (last (block_entries b)) = block_hash b"
  by (auto simp: verify_block_def Let_def vr_add_error_def verify_slot_entries_ok)

subsection \<open>Recording\<close>

datatype rec_op = RecTransaction bytes bytes | RecTick | RecFlush | RecNewSlot u64

fun rec_step :: "('z) crypto_scheme \<Rightarrow> poh_recorder \<Rightarrow> rec_op \<Rightarrow> poh_recorder" where
  "rec_step cx r (RecTransaction tx sig) = record_transaction cx tx sig r"
| "rec_step cx r RecTick = record_tick cx r"
| "rec_step cx r RecFlush = flush_transactions cx r"
| "rec_step cx r (RecNewSlot slot) = snd (recorder_new_slot slot r)"

definition recorded :: "poh_recorder \<Rightarrow> poh_entry list" where
  "recorded r = map re_entry (sent_entries r)"

definition rec_inv :: "('z) crypto_scheme \<Rightarrow> hash32 \<Rightarrow> poh_recorder \<Rightarrow> bool" where
  "rec_inv cx g r \<longleftrightarrow>
     linked cx g (recorded r) \<and> rec_prev_hash r = chain_end g (recorded r) \<and>
     suffix (current_entries r) (recorded r) \<and>
     map (\<lambda>e. (pe_slot e, pe_index e)) (current_entries r) =
       map (\<lambda>i. (rec_slot r, of_nat i)) [0..<length (current_entries r)] \<and>
     entry_index r = of_nat (length (current_entries r)) \<and>
     rec_hash_count r = sum_list (map num_hashes (recorded r)) \<and>
     tick_height r = of_nat (length (filter (\<lambda>e. pe_data e = Tick) (recorded r))) \<and> pending_transactions r = []"

lemma push_entry_inv:
  assumes "rec_inv cx g r" "tick_height r' = tick_height r + (if d = Tick then 1 else 0)"
    and "r' = r\<lparr>tick_height := tick_height r'\<rparr>"
  shows "rec_inv cx g (push_entry n (hashed_entry cx (rec_prev_hash r) n (rec_slot r) (entry_index r) d) r')"
proof -
  have "recorded r' = recorded r" by (subst assms(3)) (simp add: recorded_def)
  then have "recorded (push_entry n e r') = recorded r @ [e]" for e
    by (simp add: recorded_def push_entry_def)
  moreover have "current_entries r' = current_entries r" "rec_slot r' = rec_slot r" "entry_index r' = entry_index r"
    "rec_hash_count r' = rec_hash_count r" "pending_transactions r' = pending_transactions r"
    by (subst assms(3), simp)+
  ultimately show ?thesis
    using assms(1,2) unfolding rec_inv_def
    by (simp add: push_entry_def linked_append suffix_def del: upt_Suc) (auto simp: upt_Suc_append)
qed

lemma rec_step_inv:
  assumes "rec_inv cx g r"
  shows "rec_inv cx g (rec_step cx r op)"
proof (cases op)
  case (RecTransaction tx sig)
  then show ?thesis
    using push_entry_inv[OF assms, of r "Transactions [\<lparr>te_transaction = tx, te_signature = sig\<rparr>]" 1]
    by (simp add: record_transaction_def entry_transaction_def)
next
  case RecTick
  then show ?thesis
    using push_entry_inv[OF assms, of "r\<lparr>tick_height := tick_height r + 1\<rparr>" Tick "hashes_per_tick (rec_config r)"]
    by (simp add: record_tick_def entry_tick_def Let_def)
next
  case RecFlush
  then show ?thesis using assms by (simp add: flush_transactions_def rec_inv_def)
next
  case (RecNewSlot slot)
  then show ?thesis using assms by (simp add: recorder_new_slot_def rec_inv_def recorded_def)
qed

interpretation recorder: traced_machine "\<lambda>op r. rec_step cx r op" "\<lambda>_. rec_inv cx g" for cx g
  using rec_step_inv by unfold_locales

lemma rec_steps_inv: "rec_inv cx g (foldl (rec_step cx) (poh_recorder_new config g) ops)"
  by (rule recorder.inv_runl) (simp add: rec_inv_def recorded_def poh_recorder_new_def)

subsection \<open>What a chain commits to\<close>

text \<open>The messages an entry's hash is computed from.\<close>

definition entry_inputs :: "('z) crypto_scheme \<Rightarrow> poh_entry \<Rightarrow> bytes set" where
  "entry_inputs cx e = insert (bytes32 (hash_chain cx (prev_hash e) (num_hashes e)) @ le_u64 (pe_slot e) @ le_u64 (pe_index e) @
      entry_payload (pe_data e))
     ((\<lambda>i. bytes32 ((rehash cx ^^ i) (prev_hash e))) ` {..<unat (num_hashes e)})"

definition chain_inputs :: "('z) crypto_scheme \<Rightarrow> poh_entry list \<Rightarrow> bytes set" where
  "chain_inputs cx es = (\<Union>e\<in>set es. entry_inputs cx e)"

definition entry_content :: "poh_entry \<Rightarrow> hash32 \<times> hash32 \<times> u64 \<times> u64 \<times> bytes" where
  "entry_content e = (pe_hash e, prev_hash e, pe_slot e, pe_index e, entry_payload (pe_data e))"

lemma rehash_funpow_inj:
  assumes "collision_free cx A" "(\<lambda>i. bytes32 ((rehash cx ^^ i) x)) ` {..<n} \<subseteq> A"
    and "(\<lambda>i. bytes32 ((rehash cx ^^ i) y)) ` {..<n} \<subseteq> A" "(rehash cx ^^ n) x = (rehash cx ^^ n) y"
  shows "x = y"
  using assms(2-)
proof (induction n)
  case (Suc n)
  have "rehash cx ((rehash cx ^^ n) x) = rehash cx ((rehash cx ^^ n) y)" using Suc.prems(3) by simp
  then have "bytes32 ((rehash cx ^^ n) x) = bytes32 ((rehash cx ^^ n) y)"
    using Suc.prems(1,2) unfolding rehash_def by (intro collision_freeD[OF assms(1)]) (auto simp: rehash_def)
  then have "(rehash cx ^^ n) x = (rehash cx ^^ n) y" by simp
  then show ?case using Suc.prems(1,2) by (intro Suc.IH) (auto simp: lessThan_Suc)
qed simp

lemma entry_binding:
  assumes "entry_verify cx e" "entry_verify cx f" "pe_hash e = pe_hash f" "num_hashes e = num_hashes f"
    and "collision_free cx A" "entry_inputs cx e \<union> entry_inputs cx f \<subseteq> A"
  shows "entry_content e = entry_content f"
proof -
  let ?in = "\<lambda>e. bytes32 (hash_chain cx (prev_hash e) (num_hashes e)) @ le_u64 (pe_slot e) @ le_u64 (pe_index e) @
      entry_payload (pe_data e)"
  have "sha256 cx (?in e) = sha256 cx (?in f)"
    using assms(1-3) by (simp add: entry_verify_def entry_compute_hash_def Let_def)
  then have "?in e = ?in f"
    by (rule collision_freeD[OF assms(5), rotated 2]) (use assms(6) in \<open>auto simp: entry_inputs_def\<close>)
  then have "hash_chain cx (prev_hash e) (num_hashes e) = hash_chain cx (prev_hash f) (num_hashes f)"
    and rest: "pe_slot e = pe_slot f" "pe_index e = pe_index f" "entry_payload (pe_data e) = entry_payload (pe_data f)"
    by simp_all
  then have "(rehash cx ^^ unat (num_hashes e)) (prev_hash e) = (rehash cx ^^ unat (num_hashes e)) (prev_hash f)"
    using assms(4) by (simp add: hash_chain_funpow)
  then have "prev_hash e = prev_hash f"
    by (rule rehash_funpow_inj[OF assms(5), rotated 2]) (use assms(4,6) in \<open>auto simp: entry_inputs_def\<close>)
  then show ?thesis using rest assms(3) by (simp add: entry_content_def)
qed

lemma chain_binding:
  assumes "linked cx h xs" "linked cx h' ys" "map num_hashes xs = map num_hashes ys" "chain_end h xs = chain_end h' ys"
    and "collision_free cx (chain_inputs cx xs \<union> chain_inputs cx ys)"
  shows "map entry_content xs = map entry_content ys \<and> h = h'"
  using assms
proof (induction xs arbitrary: ys rule: rev_induct)
  case (snoc e es)
  obtain fs f where ys: "ys = fs @ [f]" using snoc.prems(3) by (cases ys rule: rev_cases) auto
  have "entry_content e = entry_content f"
    by (rule entry_binding[where A = "chain_inputs cx (es @ [e]) \<union> chain_inputs cx ys"])
      (use snoc.prems in \<open>auto simp: ys linked_append chain_inputs_def\<close>)
  moreover from this have "chain_end h es = chain_end h' fs"
    using snoc.prems(1,2) by (simp add: ys linked_append entry_content_def)
  then have "map entry_content es = map entry_content fs \<and> h = h'"
    by (intro snoc.IH) (use snoc.prems in \<open>auto simp: ys linked_append chain_inputs_def elim: collision_free_mono\<close>)
  ultimately show ?case by (simp add: ys)
qed simp

text \<open>
  C16 What the recorder records, the verifier accepts: after any sequence of recordings and
  new slots, the entries sent so far form one chain of verified entries from the genesis
  hash to the current head, the entries of the current slot carry the slot and consecutive
  indices, make a block that both verifiers accept, and the counters are the work and the
  ticks in the chain.
\<close>

theorem recorder_chain_verifies:
  assumes "r = foldl (rec_step cx) (poh_recorder_new config g) ops"
  shows "linked cx g (recorded r) \<and> rec_prev_hash r = chain_end g (recorded r) \<and>
    rec_hash_count r = sum_list (map num_hashes (recorded r)) \<and>
    tick_height r = of_nat (length (filter (\<lambda>e. pe_data e = Tick) (recorded r))) \<and>
    (\<exists>before. recorded r = before @ current_entries r \<and>
      map (\<lambda>e. (pe_slot e, pe_index e)) (current_entries r) =
        map (\<lambda>i. (rec_slot r, of_nat i)) [0..<length (current_entries r)] \<and>
      (let b = poh_block_new (rec_prev_hash r) (rec_slot r) (chain_end g before) (current_entries r) ht ts in
       current_entries r \<noteq> [] \<longrightarrow> verify_poh_chain cx b \<and> vr_valid (verify_block cx b)))"
proof -
  have inv: "rec_inv cx g r" unfolding assms by (rule rec_steps_inv)
  then obtain before where split: "recorded r = before @ current_entries r" by (auto simp: rec_inv_def suffix_def)
  let ?b = "poh_block_new (rec_prev_hash r) (rec_slot r) (chain_end g before) (current_entries r) ht ts"
  have "verify_poh_chain cx ?b \<and> vr_valid (verify_block cx ?b)" if ne: "current_entries r \<noteq> []"
  proof -
    have lk: "linked cx (chain_end g before) (current_entries r)" and hd: "rec_prev_hash r = pe_hash (last (current_entries r))"
      using inv ne by (simp_all add: rec_inv_def split linked_append) (simp add: chain_end_def)
    moreover have "prev_hash (hd (current_entries r)) = chain_end g before"
      using lk ne by (cases "current_entries r") auto
    ultimately show ?thesis
      using ne by (simp add: verify_poh_chain_ok verify_block_ok verify_slot_entries_ok poh_block_new_def)
  qed
  then show ?thesis using inv split by (auto simp: rec_inv_def Let_def)
qed

theorem recorder_chain_verifies_witness:
  "\<exists>before. let r = foldl (rec_step demo_crypto) (poh_recorder_new \<lparr>hashes_per_tick = 2, target_tick_rate = 1, max_hashes_per_tick = 4\<rparr> 9)
       [RecTick, RecNewSlot 1, RecTransaction [1] [2], RecTick];
     b = poh_block_new (rec_prev_hash r) (rec_slot r) (chain_end 9 before) (current_entries r) 1 0
   in verify_poh_chain demo_crypto b \<and> vr_valid (verify_block demo_crypto b)"
  using recorder_chain_verifies[OF refl, where cx = demo_crypto and g = 9 and ht = 1 and ts = 0
      and config = "\<lparr>hashes_per_tick = 2, target_tick_rate = 1, max_hashes_per_tick = 4\<rparr>"
      and ops = "[RecTick, RecNewSlot 1, RecTransaction [1] [2], RecTick]"]
  by (auto simp: Let_def record_tick_def record_transaction_def recorder_new_slot_def push_entry_def)



text \<open>
  Some tampering goes unnoticed: an entry still verifies with one hash less of work and
  its predecessor's hash advanced by one, and with any payload of the same bytes. A tick
  may become a transaction, and bytes may move between transactions and signatures.
\<close>

theorem tampered_entry_verifies:
  assumes "entry_verify cx e"
  shows "(0 < num_hashes e \<longrightarrow>
      entry_verify cx (e\<lparr>prev_hash := sha256 cx (bytes32 (prev_hash e)), num_hashes := num_hashes e - 1\<rparr>)) \<and>
    (entry_payload d = entry_payload (pe_data e) \<longrightarrow> entry_verify cx (e\<lparr>pe_data := d\<rparr>))"
proof -
  have "hash_chain cx (sha256 cx (bytes32 h)) (n - 1) = hash_chain cx h n" if "0 < n" for h n
  proof -
    have "0 < unat n" using that by (simp add: word_less_nat_alt)
    then have "unat n = Suc (unat (n - 1))" using that by (simp add: unat_minus_one word_greater_zero_iff)
    then show ?thesis by (simp add: hash_chain_funpow funpow_swap1 flip: rehash_def)
  qed
  then show ?thesis using assms by (simp add: entry_verify_def entry_compute_hash_def Let_def)
qed

theorem tampered_entry_verifies_witness:
  "let e = entry_tick demo_crypto 5 3 1 0 in
   entry_verify demo_crypto (e\<lparr>prev_hash := sha256 demo_crypto (bytes32 5), num_hashes := 2\<rparr>) \<and>
   entry_verify demo_crypto (e\<lparr>pe_data := Transactions [\<lparr>te_transaction = ascii ''ti'', te_signature = ascii ''ck''\<rparr>]\<rparr>)"
  using tampered_entry_verifies[of demo_crypto "entry_tick demo_crypto 5 3 1 0"
      "Transactions [\<lparr>te_transaction = ascii ''ti'', te_signature = ascii ''ck''\<rparr>]"]
  by (simp add: Let_def entry_tick_def ascii_def)

text \<open>
  The block verifier does not tie a block's entries to its parent: a block that verifies,
  relabelled as the child of any other block, verifies and links to it.
\<close>

theorem unrelated_child_accepted:
  assumes "vr_valid (verify_block cx b)"
  shows "let c = b\<lparr>parent_hash := block_hash p, block_slot := block_slot p + 1, block_height := block_height p + 1\<rparr> in
    vr_valid (verify_block cx c) \<and> vr_valid (verify_chain_link p c) \<and>
    (verify_poh_chain cx c \<longleftrightarrow> prev_hash (hd (block_entries b)) = block_hash p)"
  using assms
  by (cases "block_entries b") (auto simp: Let_def verify_block_ok verify_slot_entries_ok verify_chain_link_def vr_ok_def verify_poh_chain_ok)

end
