(* ===== verification/Blockstore.thy ===== *)
theory Blockstore
  imports Transaction "HOL-Library.Sublist"
begin

text \<open>
  The block ledger (\<^verbatim>\<open>crates/blockstore\<close>): block records, the framed append-only file, its
  replay and truncation on opening. The file is its list of bytes. The JSON codec and the
  number of bytes a failing write leaves behind are parameters; reading the file and
  shortening it are taken to succeed.
\<close>

subsection \<open>Records\<close>

definition GENESIS_PARENT :: hash32 where
  "GENESIS_PARENT = fill32 0"

record block_record =
  br_slot :: u64
  br_height :: u64
  br_parent_hash :: hash32
  br_block_hash :: hash32
  poh_hash :: hash32
  state_root :: hash32
  entry_count :: u64
  tx_count :: u64
  br_transactions :: "transaction list"
  timestamp_ms :: u64

definition br_message ::
    "('z) crypto_scheme \<Rightarrow> hash32 \<Rightarrow> u64 \<Rightarrow> u64 \<Rightarrow> hash32 \<Rightarrow> u64 \<Rightarrow> u64 \<Rightarrow> hash32 \<Rightarrow> transaction list \<Rightarrow> bytes" where
  "br_message cx parent slot ht poh entries txc root txs =
     bytes32 parent @ le_u64 slot @ le_u64 ht @ bytes32 poh @ le_u64 entries @ le_u64 txc @ bytes32 root @
     concat (map (\<lambda>tx. bytes32 (tx_hash cx tx)) txs)"

definition br_compute_hash ::
    "('z) crypto_scheme \<Rightarrow> hash32 \<Rightarrow> u64 \<Rightarrow> u64 \<Rightarrow> hash32 \<Rightarrow> u64 \<Rightarrow> u64 \<Rightarrow> hash32 \<Rightarrow> transaction list \<Rightarrow> hash32" where
  "br_compute_hash cx parent slot ht poh entries txc root txs =
     sha256 cx (br_message cx parent slot ht poh entries txc root txs)"

definition block_record_new ::
    "('z) crypto_scheme \<Rightarrow> u64 \<Rightarrow> hash32 \<Rightarrow> u64 \<Rightarrow> u64 \<Rightarrow> hash32 \<Rightarrow> u64 \<Rightarrow> hash32 \<Rightarrow> transaction list \<Rightarrow> block_record" where
  "block_record_new cx now parent slot ht poh entries root txs =
     (let txc = of_nat (length txs);
          h = br_compute_hash cx parent slot ht poh entries txc root txs
      in \<lparr>br_slot = slot, br_height = ht, br_parent_hash = parent, br_block_hash = h, poh_hash = poh,
          state_root = root, entry_count = entries, tx_count = txc, br_transactions = txs, timestamp_ms = now\<rparr>)"

definition record_message :: "('z) crypto_scheme \<Rightarrow> block_record \<Rightarrow> bytes" where
  "record_message cx r =
     br_message cx (br_parent_hash r) (br_slot r) (br_height r) (poh_hash r) (entry_count r) (tx_count r)
       (state_root r) (br_transactions r)"

definition verify_hash :: "('z) crypto_scheme \<Rightarrow> block_record \<Rightarrow> bool" where
  "verify_hash cx r \<longleftrightarrow> br_block_hash r = sha256 cx (record_message cx r)"

subsection \<open>Frames\<close>

record ledger_ext = crypto +
  record_to_json :: "block_record \<Rightarrow> bytes option"
  record_from_json :: "bytes \<Rightarrow> block_record option"
  write_all :: "bytes \<Rightarrow> bytes \<Rightarrow> nat option" \<comment> \<open>bytes a failing write leaves in the file\<close>

definition MAGIC :: bytes where
  "MAGIC = ascii ''TNBL''"

definition MAX_FRAME_PAYLOAD :: u32 where
  "MAX_FRAME_PAYLOAD = 16 * 1024 * 1024"

definition HEADER_LEN :: nat where
  "HEADER_LEN = 8"

definition HASH_LEN :: nat where
  "HASH_LEN = 32"

datatype chunk = Chunk_Ok bytes | Chunk_CleanEof | Chunk_Torn

definition fill_buf :: "nat \<Rightarrow> bytes \<Rightarrow> chunk \<times> bytes" where
  "fill_buf n file =
     (if n \<le> length file then (Chunk_Ok (take n file), drop n file)
      else if file = [] then (Chunk_CleanEof, []) else (Chunk_Torn, []))"

text \<open>One turn of the replay loop up to decoding: the record, its frame's length and what follows.\<close>

definition read_frame :: "('z) ledger_ext_scheme \<Rightarrow> bytes \<Rightarrow> (block_record \<times> nat \<times> bytes) option" where
  "read_frame cx file =
     (case fill_buf 4 file of
        (Chunk_Ok magic, file) \<Rightarrow>
          if magic \<noteq> MAGIC then None
          else (case fill_buf 4 file of
            (Chunk_Ok len_buf, file) \<Rightarrow>
              let payload_len = (le_val len_buf :: u32)
              in if payload_len = 0 \<or> MAX_FRAME_PAYLOAD < payload_len then None
                 else (case fill_buf (unat payload_len) file of
                   (Chunk_Ok payload, file) \<Rightarrow>
                     (case fill_buf HASH_LEN file of
                        (Chunk_Ok expected_sum, file) \<Rightarrow>
                          if bytes32 (sha256 cx payload) \<noteq> expected_sum then None
                          else (case record_from_json cx payload of
                                  None \<Rightarrow> None
                                | Some r \<Rightarrow> Some (r, HEADER_LEN + length payload + HASH_LEN, file))
                      | _ \<Rightarrow> None)
                 | _ \<Rightarrow> None)
          | _ \<Rightarrow> None)
      | _ \<Rightarrow> None)"

definition expected_parent :: "block_record list \<Rightarrow> hash32" where
  "expected_parent records = (if records = [] then GENESIS_PARENT else br_block_hash (last records))"

lemma length_MAGIC [simp]: "length MAGIC = 4"
  by (simp add: MAGIC_def)

lemma fill_buf_Ok: "fill_buf n f = (Chunk_Ok b, g) \<longleftrightarrow> f = b @ g \<and> length b = n"
  by (auto simp: fill_buf_def)

lemma read_frame_Some:
  "read_frame cx f = Some (r, n, g) \<longleftrightarrow>
     (\<exists>len_buf payload. f = MAGIC @ len_buf @ payload @ bytes32 (sha256 cx payload) @ g \<and> length len_buf = 4 \<and>
        unat (le_val len_buf :: u32) = length payload \<and> payload \<noteq> [] \<and>
        (le_val len_buf :: u32) \<le> MAX_FRAME_PAYLOAD \<and> record_from_json cx payload = Some r \<and>
        n = HEADER_LEN + length payload + HASH_LEN)"
proof
  show "read_frame cx f = Some (r, n, g) \<Longrightarrow> \<exists>len_buf payload. f = MAGIC @ len_buf @ payload @ bytes32 (sha256 cx payload) @ g \<and> length len_buf = 4 \<and>
        unat (le_val len_buf :: u32) = length payload \<and> payload \<noteq> [] \<and>
        (le_val len_buf :: u32) \<le> MAX_FRAME_PAYLOAD \<and> record_from_json cx payload = Some r \<and>
        n = HEADER_LEN + length payload + HASH_LEN"
  proof -
    assume run: "read_frame cx f = Some (r, n, g)"
    obtain f1 lb f2 p f3 where steps: "fill_buf 4 f = (Chunk_Ok MAGIC, f1)" "fill_buf 4 f1 = (Chunk_Ok lb, f2)"
        "fill_buf (unat (le_val lb :: u32)) f2 = (Chunk_Ok p, f3)" "fill_buf HASH_LEN f3 = (Chunk_Ok (bytes32 (sha256 cx p)), g)"
        "(le_val lb :: u32) \<noteq> 0" "(le_val lb :: u32) \<le> MAX_FRAME_PAYLOAD" "record_from_json cx p = Some r"
        "n = HEADER_LEN + length p + HASH_LEN"
      using run unfolding read_frame_def Let_def
      by (auto simp: not_less split: prod.splits chunk.splits if_splits option.splits)
    moreover have "p \<noteq> []" using steps(3,5) by (auto simp: fill_buf_Ok unat_eq_zero)
    ultimately show ?thesis
      by (intro exI[of _ lb] exI[of _ p]) (auto simp: fill_buf_Ok)
  qed
next
  assume "\<exists>len_buf payload. f = MAGIC @ len_buf @ payload @ bytes32 (sha256 cx payload) @ g \<and> length len_buf = 4 \<and>
        unat (le_val len_buf :: u32) = length payload \<and> payload \<noteq> [] \<and>
        (le_val len_buf :: u32) \<le> MAX_FRAME_PAYLOAD \<and> record_from_json cx payload = Some r \<and>
        n = HEADER_LEN + length payload + HASH_LEN"
  then obtain lb p where f: "f = MAGIC @ lb @ p @ bytes32 (sha256 cx p) @ g" "length lb = 4"
      "unat (le_val lb :: u32) = length p" "p \<noteq> []" "(le_val lb :: u32) \<le> MAX_FRAME_PAYLOAD"
      "record_from_json cx p = Some r" "n = HEADER_LEN + length p + HASH_LEN" by blast
  have "fill_buf 4 f = (Chunk_Ok MAGIC, lb @ p @ bytes32 (sha256 cx p) @ g)"
    by (simp add: fill_buf_Ok f(1))
  moreover have "fill_buf 4 (lb @ p @ bytes32 (sha256 cx p) @ g) = (Chunk_Ok lb, p @ bytes32 (sha256 cx p) @ g)"
    by (simp add: fill_buf_Ok f(2))
  moreover have "fill_buf (unat (le_val lb :: u32)) (p @ bytes32 (sha256 cx p) @ g) = (Chunk_Ok p, bytes32 (sha256 cx p) @ g)"
    by (simp add: fill_buf_Ok f(3))
  moreover have "fill_buf HASH_LEN (bytes32 (sha256 cx p) @ g) = (Chunk_Ok (bytes32 (sha256 cx p)), g)"
    by (simp add: fill_buf_Ok HASH_LEN_def)
  moreover have "(le_val lb :: u32) \<noteq> 0" using f(3,4) by auto
  ultimately show "read_frame cx f = Some (r, n, g)"
    using f(5-7) by (simp add: read_frame_def Let_def not_less)
qed

lemma read_frame_length: "read_frame cx f = Some (r, n, g) \<Longrightarrow> length g < length f"
  by (auto simp: read_frame_Some)

lemma read_frame_split:
  assumes "read_frame cx f = Some (r, n, g)"
  shows "f = take n f @ g" "length (take n f) = n" "0 < n" "read_frame cx (take n f @ g') = Some (r, n, g')"
proof -
  obtain lb p where f: "f = MAGIC @ lb @ p @ bytes32 (sha256 cx p) @ g" "length lb = 4" "p \<noteq> []"
    "unat (le_val lb :: u32) = length p" "(le_val lb :: u32) \<le> MAX_FRAME_PAYLOAD" "record_from_json cx p = Some r"
    "n = HEADER_LEN + length p + HASH_LEN"
    using assms by (auto simp: read_frame_Some)
  have take: "take n f = MAGIC @ lb @ p @ bytes32 (sha256 cx p)"
    using f(2,7) by (simp add: f(1) HEADER_LEN_def HASH_LEN_def)
  then show "f = take n f @ g" by (simp add: f(1))
  show "length (take n f) = n" "0 < n" unfolding take using f(2,7) by (simp_all add: HEADER_LEN_def HASH_LEN_def)
  show "read_frame cx (take n f @ g') = Some (r, n, g')"
    unfolding read_frame_Some take by (intro exI[of _ lb] exI[of _ p]) (use f in simp)
qed

lemma read_frame_torn:
  assumes "read_frame cx f = Some (r, n, g)" "k < n"
  shows "read_frame cx (take k f) = None"
proof (rule ccontr)
  assume "read_frame cx (take k f) \<noteq> None"
  then obtain r' m h where h: "read_frame cx (take k f) = Some (r', m, h)" by (metis not_None_eq prod_cases3)
  have "read_frame cx (take m (take k f) @ (h @ drop k f)) = Some (r', m, h @ drop k f)"
    by (rule read_frame_split(4)[OF h])
  moreover have "take m (take k f) @ (h @ drop k f) = f"
    using read_frame_split(1)[OF h] by (metis append.assoc append_take_drop_id)
  ultimately have "m = n" using assms(1) by simp
  moreover have "m \<le> k" using read_frame_split(2)[OF h] by (metis length_take min.bounded_iff order_refl)
  ultimately show False using assms(2) by simp
qed

subsection \<open>Opening and appending\<close>

function replay_log :: "('z) ledger_ext_scheme \<Rightarrow> block_record list \<Rightarrow> nat \<Rightarrow> bytes \<Rightarrow> block_record list \<times> nat" where
  "replay_log cx records valid_len file =
     (case read_frame cx file of
        None \<Rightarrow> (records, valid_len)
      | Some (r, frame_len, file') \<Rightarrow>
          if br_parent_hash r \<noteq> expected_parent records \<or> \<not> verify_hash cx r then (records, valid_len)
          else replay_log cx (records @ [r]) (valid_len + frame_len) file')"
  by pat_completeness auto
termination
  by (relation "measure (\<lambda>(_, _, _, file). length file)") (auto dest: read_frame_length)

declare replay_log.simps [simp del]

record blockstore =
  bs_file :: bytes
  bs_records :: "block_record list"

definition bs_open :: "('z) ledger_ext_scheme \<Rightarrow> bytes \<Rightarrow> blockstore" where
  "bs_open cx file =
     (case replay_log cx [] 0 file of
        (records, valid_len) \<Rightarrow>
          \<lparr>bs_file = (if length file \<noteq> valid_len then take valid_len file else file), bs_records = records\<rparr>)"

datatype ledger_error = ParentMismatch hash32 hash32 | HashMismatch | EncodeFailed | WriteFailed

definition bs_frame :: "('z) ledger_ext_scheme \<Rightarrow> bytes \<Rightarrow> bytes" where
  "bs_frame cx payload = MAGIC @ len_u32 payload @ payload @ bytes32 (sha256 cx payload)"

definition append_record ::
    "('z) ledger_ext_scheme \<Rightarrow> block_record \<Rightarrow> blockstore \<Rightarrow> (ledger_error + unit) \<times> blockstore" where
  "append_record cx r bs =
     (let parent = expected_parent (bs_records bs)
      in if br_parent_hash r \<noteq> parent then (Inl (ParentMismatch (br_parent_hash r) parent), bs)
         else if \<not> verify_hash cx r then (Inl HashMismatch, bs)
         else (case record_to_json cx r of
                 None \<Rightarrow> (Inl EncodeFailed, bs)
               | Some payload \<Rightarrow>
                   let frame = bs_frame cx payload
                   in (case write_all cx (bs_file bs) frame of
                         Some k \<Rightarrow> (Inl WriteFailed, bs\<lparr>bs_file := bs_file bs @ take k frame\<rparr>)
                       | None \<Rightarrow> (Inr (), bs\<lparr>bs_file := bs_file bs @ frame, bs_records := bs_records bs @ [r]\<rparr>))))"

definition bs_append ::
    "('z) ledger_ext_scheme \<Rightarrow> u64 \<Rightarrow> u64 \<Rightarrow> u64 \<Rightarrow> u64 \<Rightarrow> hash32 \<Rightarrow> hash32 \<Rightarrow> transaction list \<Rightarrow> blockstore \<Rightarrow>
     (ledger_error + block_record) \<times> blockstore" where
  "bs_append cx now slot ht entries poh root txs bs =
     (let r = block_record_new cx now (expected_parent (bs_records bs)) slot ht poh entries root txs
      in case append_record cx r bs of
           (Inl e, bs) \<Rightarrow> (Inl e, bs)
         | (Inr _, bs) \<Rightarrow> (Inr (last (bs_records bs)), bs))"

definition bs_last :: "blockstore \<Rightarrow> block_record option" where
  "bs_last bs = (if bs_records bs = [] then None else Some (last (bs_records bs)))"

definition bs_len :: "blockstore \<Rightarrow> nat" where
  "bs_len bs = length (bs_records bs)"

text \<open>Records that continue a list of records.\<close>

fun chained :: "('z) crypto_scheme \<Rightarrow> block_record list \<Rightarrow> block_record list \<Rightarrow> bool" where
  "chained cx before [] = True"
| "chained cx before (r # rs) =
     (br_parent_hash r = expected_parent before \<and> verify_hash cx r \<and> chained cx (before @ [r]) rs)"

text \<open>Frames that read back as given records, whatever follows them.\<close>

definition frames_for :: "('z) ledger_ext_scheme \<Rightarrow> bytes list \<Rightarrow> block_record list \<Rightarrow> bool" where
  "frames_for cx = list_all2 (\<lambda>fr r. \<forall>rest. read_frame cx (fr @ rest) = Some (r, length fr, rest))"

lemma chained_append: "chained cx bs (rs @ rs') \<longleftrightarrow> chained cx bs rs \<and> chained cx (bs @ rs) rs'"
  by (induction rs arbitrary: bs) auto

lemma replay_frames:
  "frames_for cx fs rs \<Longrightarrow> chained cx recs rs \<Longrightarrow>
   replay_log cx recs v (concat fs @ rest) = replay_log cx (recs @ rs) (v + length (concat fs)) rest"
proof (induction fs arbitrary: rs recs v)
  case Nil
  then show ?case by (simp add: frames_for_def)
next
  case (Cons fr fs)
  then obtain r rs' where rs: "rs = r # rs'" "frames_for cx fs rs'"
      "\<forall>rest. read_frame cx (fr @ rest) = Some (r, length fr, rest)"
    by (auto simp: frames_for_def list_all2_Cons1)
  then show ?case
    using Cons.IH[OF rs(2), of "recs @ [r]" "v + length fr"] Cons.prems(2)
    by (subst replay_log.simps) (simp add: add.assoc)
qed

lemma replay_stops:
  assumes "read_frame cx f = None"
  shows "replay_log cx recs v f = (recs, v)"
  using assms by (subst replay_log.simps) simp

lemma replay_result:
  "\<exists>fs rs. replay_log cx recs v f = (recs @ rs, v + length (concat fs)) \<and> frames_for cx fs rs \<and>
     chained cx recs rs \<and> prefix (concat fs) f"
proof (induction cx recs v f rule: replay_log.induct)
  case (1 cx recs v f)
  have stop: ?case if "replay_log cx recs v f = (recs, v)"
    using that by (intro exI[of _ "[]"]) (simp add: frames_for_def)
  show ?case
  proof (cases "read_frame cx f")
    case None
    then show ?thesis by (intro stop replay_stops)
  next
    case (Some q)
    obtain r n g where q: "read_frame cx f = Some (r, n, g)" using Some by (cases q) auto
    show ?thesis
    proof (cases "br_parent_hash r \<noteq> expected_parent recs \<or> \<not> verify_hash cx r")
      case True
      then show ?thesis using q by (intro stop) (subst replay_log.simps, simp)
    next
      case False
      then obtain fs rs where rec: "replay_log cx (recs @ [r]) (v + n) g = ((recs @ [r]) @ rs, v + n + length (concat fs))"
          "frames_for cx fs rs" "chained cx (recs @ [r]) rs" "prefix (concat fs) g"
        using 1[OF q refl refl] by blast
      note sp = read_frame_split[OF q]
      have "replay_log cx recs v f = (recs @ (r # rs), v + length (concat (take n f # fs)))"
        using q False rec(1) sp(2) by (subst replay_log.simps) simp
      moreover have "frames_for cx (take n f # fs) (r # rs)" using rec(2) sp(2,4) by (simp add: frames_for_def)
      moreover have "prefix (concat (take n f # fs)) f"
        using rec(4) sp(1) by (metis concat.simps(2) same_prefix_prefix)
      ultimately show ?thesis using False rec(3) by (intro exI[of _ "take n f # fs"] exI[of _ "r # rs"]) simp
    qed
  qed
qed

lemma bs_open_cases:
  obtains fs rs where "bs_open cx f = \<lparr>bs_file = concat fs, bs_records = rs\<rparr>" "frames_for cx fs rs" "chained cx [] rs"
    "prefix (concat fs) f"
proof -
  obtain fs rs where r: "replay_log cx [] 0 f = (rs, length (concat fs))" "frames_for cx fs rs" "chained cx [] rs" "prefix (concat fs) f"
    using replay_result[of cx "[]" 0 f] by auto
  then have "bs_open cx f = \<lparr>bs_file = concat fs, bs_records = rs\<rparr>"
    by (auto simp: bs_open_def prefix_def)
  with r that show ?thesis by blast
qed

lemma bs_open_frames:
  assumes "frames_for cx fs rs" "chained cx [] rs" "read_frame cx rest = None"
  shows "bs_open cx (concat fs @ rest) = \<lparr>bs_file = concat fs, bs_records = rs\<rparr>"
proof -
  have "replay_log cx [] 0 (concat fs @ rest) = (rs, length (concat fs))"
    using replay_frames[OF assms(1,2)] replay_stops[OF assms(3)] by simp
  then show ?thesis by (simp add: bs_open_def)
qed

lemma read_frame_Nil [simp]: "read_frame cx [] = None"
  by (simp add: read_frame_def fill_buf_def)

subsection \<open>Durability\<close>

text \<open>What the ledger relies on of the JSON codec: a record that encodes decodes to itself.\<close>

definition ledger_json_ok :: "('z) ledger_ext_scheme \<Rightarrow> bool" where
  "ledger_json_ok cx \<longleftrightarrow> (\<forall>r p. record_to_json cx r = Some p \<longrightarrow> p \<noteq> [] \<and> record_from_json cx p = Some r)"

lemma read_bs_frame:
  assumes "ledger_json_ok cx" "record_to_json cx r = Some p" "length p \<le> unat MAX_FRAME_PAYLOAD"
  shows "read_frame cx (bs_frame cx p @ rest) = Some (r, length (bs_frame cx p), rest)"
proof -
  have p: "p \<noteq> []" "record_from_json cx p = Some r" using assms(1,2) by (auto simp: ledger_json_ok_def)
  have small: "length p < 2 ^ 32" using assms(3) by (simp add: MAX_FRAME_PAYLOAD_def)
  then have len: "unat (of_nat (length p) :: u32) = length p" by (simp add: unat_of_nat)
  then have "(of_nat (length p) :: u32) \<le> MAX_FRAME_PAYLOAD" using assms(3) by (simp add: word_le_nat_alt)
  then show ?thesis
    unfolding read_frame_Some bs_frame_def using p len
    by (intro exI[of _ "len_u32 p"] exI[of _ p]) (simp add: len_u32_def HEADER_LEN_def HASH_LEN_def)
qed

lemma append_record_ok:
  assumes "append_record cx r bs = (Inr (), bs')"
  obtains p where "record_to_json cx r = Some p" "br_parent_hash r = expected_parent (bs_records bs)" "verify_hash cx r"
    "bs' = bs\<lparr>bs_file := bs_file bs @ bs_frame cx p, bs_records := bs_records bs @ [r]\<rparr>"
  using assms by (auto simp: append_record_def Let_def split: if_splits option.splits)

text \<open>A concrete codec and ledger, for witnesses: one record and its encoding.\<close>

definition demo_record :: block_record where
  "demo_record = block_record_new demo_crypto 7 GENESIS_PARENT 1 1 2 3 4 []"

definition demo_ledger :: ledger_ext where
  "demo_ledger = crypto.extend demo_crypto
     (ledger_ext.fields (\<lambda>r. if r = demo_record then Some [9] else None) (\<lambda>_. Some demo_record) (\<lambda>_ _. None))"

lemma demo_ledger_simps [simp]:
  "record_to_json demo_ledger = (\<lambda>r. if r = demo_record then Some [9] else None)"
  "record_from_json demo_ledger = (\<lambda>_. Some demo_record)" "write_all demo_ledger = (\<lambda>_ _. None)"
  "sha256 demo_ledger = sha256 demo_crypto"
  by (simp_all add: demo_ledger_def demo_crypto_def crypto.defs ledger_ext.defs)

lemma demo_ledger_ok: "ledger_json_ok demo_ledger"
  by (simp add: ledger_json_ok_def)

lemma demo_record_ok: "verify_hash demo_ledger demo_record" "br_parent_hash demo_record = GENESIS_PARENT"
  by (simp_all add: demo_record_def block_record_new_def Let_def verify_hash_def record_message_def br_compute_hash_def br_message_def)

lemma bs_open_empty: "bs_open cx [] = \<lparr>bs_file = [], bs_records = []\<rparr>"
  using bs_open_frames[of cx "[]" "[]" "[]"] by (simp add: frames_for_def)

lemma demo_append:
  "append_record demo_ledger demo_record \<lparr>bs_file = [], bs_records = []\<rparr> =
     (Inr (), \<lparr>bs_file = bs_frame demo_ledger [9], bs_records = [demo_record]\<rparr>)"
  using demo_record_ok by (simp add: append_record_def Let_def expected_parent_def)

lemma append_record_frames:
  assumes "ledger_json_ok cx" "bs_open cx (bs_file bs) = bs" "append_record cx r bs = (Inr (), bs')"
    and "record_to_json cx r = Some p" "length p \<le> unat MAX_FRAME_PAYLOAD"
  obtains fs where "bs = \<lparr>bs_file = concat fs, bs_records = bs_records bs\<rparr>" "frames_for cx fs (bs_records bs)" "chained cx [] (bs_records bs)"
    "bs' = \<lparr>bs_file = concat fs @ bs_frame cx p, bs_records = bs_records bs @ [r]\<rparr>" "bs_open cx (bs_file bs') = bs'"
proof -
  let ?fr = "bs_frame cx p"
  obtain fs rs where bs: "bs = \<lparr>bs_file = concat fs, bs_records = rs\<rparr>" "frames_for cx fs rs" "chained cx [] rs"
    using bs_open_cases[of cx "bs_file bs"] assms(2) by metis
  have app: "br_parent_hash r = expected_parent rs" "verify_hash cx r" "bs' = \<lparr>bs_file = concat fs @ ?fr, bs_records = rs @ [r]\<rparr>"
    using assms(3,4) by (auto elim!: append_record_ok simp: bs(1))
  have frs: "frames_for cx (fs @ [?fr]) (rs @ [r])"
    using bs(2) read_bs_frame[OF assms(1,4,5)] by (simp add: frames_for_def list_all2_appendI)
  have ch: "chained cx [] (rs @ [r])" using bs(3) app(1,2) by (simp add: chained_append)
  have "bs_open cx (bs_file bs') = bs'"
    using bs_open_frames[OF frs ch, of "[]"] by (simp add: app(3))
  with bs app(3) that[of fs] show ?thesis by simp
qed

text \<open>
  C20 An acknowledged block survives, and a crash costs at most the block being written:
  appending to a ledger in the state its file opens to yields another such ledger, with the
  block added; and if only part of the frame reaches the disk, opening the file yields the
  ledger as it was before.
\<close>

theorem ledger_append_durable:
  assumes "ledger_json_ok cx" "bs_open cx (bs_file bs) = bs" "append_record cx r bs = (Inr (), bs')"
    and "record_to_json cx r = Some p" "length p \<le> unat MAX_FRAME_PAYLOAD"
  shows "bs_records bs' = bs_records bs @ [r] \<and> bs_open cx (bs_file bs') = bs' \<and>
    bs_open cx (bs_file bs @ take k (bs_frame cx p)) = (if k < length (bs_frame cx p) then bs else bs')"
proof -
  let ?fr = "bs_frame cx p"
  from assms obtain fs where bs: "bs = \<lparr>bs_file = concat fs, bs_records = bs_records bs\<rparr>" "frames_for cx fs (bs_records bs)"
    "chained cx [] (bs_records bs)" "bs' = \<lparr>bs_file = concat fs @ ?fr, bs_records = bs_records bs @ [r]\<rparr>" "bs_open cx (bs_file bs') = bs'"
    by (rule append_record_frames)
  have bytes: "bs_file bs = concat fs" using bs(1) by (metis blockstore.select_convs(1))
  have "read_frame cx (take k ?fr) = None" if "k < length ?fr"
    using read_frame_torn[OF read_bs_frame[OF assms(1,4,5), of "[]"] that] by simp
  then have torn: "bs_open cx (concat fs @ take k ?fr) = bs" if "k < length ?fr"
    using bs_open_frames[OF bs(2,3)] that bs(1) by simp
  have "bs_open cx (concat fs @ ?fr) = bs'" using bs(4,5) by simp
  then show ?thesis using torn bs(4,5) bytes by simp
qed

theorem ledger_append_durable_witness:
  "let bs = \<lparr>bs_file = [], bs_records = []\<rparr>; bs' = \<lparr>bs_file = bs_frame demo_ledger [9], bs_records = [demo_record]\<rparr> in
   bs_open demo_ledger (bs_file bs') = bs' \<and> bs_open demo_ledger (take 5 (bs_frame demo_ledger [9])) = bs"
proof -
  have len: "length (bs_frame demo_ledger [9]) = 41" by (simp add: bs_frame_def)
  show ?thesis
    using ledger_append_durable[OF demo_ledger_ok _ demo_append, of "[9]" 5] len
    by (simp add: Let_def bs_open_empty MAX_FRAME_PAYLOAD_def)
qed

text \<open>
  C6 Whatever bytes the file holds, opening it keeps a prefix of the file whose records
  form a chain of correctly hashed blocks from the genesis parent, and opening the kept
  file again finds the same ledger.
\<close>

theorem ledger_open_sound:
  "prefix (bs_file (bs_open cx file)) file \<and> chained cx [] (bs_records (bs_open cx file)) \<and>
   bs_open cx (bs_file (bs_open cx file)) = bs_open cx file"
proof -
  obtain fs rs where o: "bs_open cx file = \<lparr>bs_file = concat fs, bs_records = rs\<rparr>" "frames_for cx fs rs" "chained cx [] rs"
    "prefix (concat fs) file" by (rule bs_open_cases)
  then show ?thesis using bs_open_frames[OF o(2,3), of "[]"] by simp
qed

subsection \<open>What the last hash commits to\<close>

definition consensus_content :: "('z) crypto_scheme \<Rightarrow> block_record \<Rightarrow> block_record \<times> hash32 list" where
  "consensus_content cx r =
     (r\<lparr>br_transactions := [], timestamp_ms := 0\<rparr>, map (tx_hash cx) (br_transactions r))"

lemma concat_bytes32_inj: "concat (map bytes32 xs) = concat (map bytes32 ys) \<Longrightarrow> xs = ys"
proof (induction xs arbitrary: ys)
  case Nil
  then show ?case by (cases ys) auto
next
  case (Cons x xs)
  then show ?case by (cases ys) (auto dest: arg_cong[where f = length])
qed

lemma record_message_inj:
  assumes "record_message cx r = record_message cx r'" "br_block_hash r = br_block_hash r'"
  shows "consensus_content cx r = consensus_content cx r'"
proof -
  have "concat (map bytes32 (map (tx_hash cx) (br_transactions r))) = concat (map bytes32 (map (tx_hash cx) (br_transactions r')))"
    using assms(1) by (simp add: record_message_def br_message_def comp_def)
  then have "map (tx_hash cx) (br_transactions r) = map (tx_hash cx) (br_transactions r')" by (rule concat_bytes32_inj)
  then show ?thesis
    using assms by (cases r; cases r') (simp add: consensus_content_def record_message_def br_message_def)
qed



subsection \<open>Where acknowledged blocks are lost\<close>

text \<open>
  The size bound of a frame is checked when it is read, not when it is written: a record
  whose encoding exceeds it is appended and acknowledged, and gone when the file is opened.
\<close>

theorem oversized_record_lost:
  assumes "bs_open cx (bs_file bs) = bs" "append_record cx r bs = (Inr (), bs')" "record_to_json cx r = Some p"
    and "unat MAX_FRAME_PAYLOAD < length p" "length p < 2 ^ 32"
  shows "bs_records bs' = bs_records bs @ [r] \<and> bs_open cx (bs_file bs') = bs"
proof -
  obtain fs rs where bs: "bs = \<lparr>bs_file = concat fs, bs_records = rs\<rparr>" "frames_for cx fs rs" "chained cx [] rs"
    using bs_open_cases[of cx "bs_file bs"] assms(1) by metis
  have bs': "bs' = \<lparr>bs_file = concat fs @ bs_frame cx p, bs_records = rs @ [r]\<rparr>"
    using assms(2,3) by (auto elim!: append_record_ok simp: bs(1))
  have "unat (of_nat (length p) :: u32) = length p" using assms(5) by (simp add: unat_of_nat)
  then have big: "\<not> (of_nat (length p) :: u32) \<le> MAX_FRAME_PAYLOAD" using assms(4) by (simp add: word_le_nat_alt)
  have "read_frame cx (bs_frame cx p) = None"
  proof (rule ccontr)
    assume "read_frame cx (bs_frame cx p) \<noteq> None"
    then obtain lb q g where q: "bs_frame cx p = MAGIC @ lb @ q @ bytes32 (sha256 cx q) @ g" "length lb = 4"
      "(le_val lb :: u32) \<le> MAX_FRAME_PAYLOAD" by (auto simp: read_frame_Some)
    then have "lb = len_u32 p" by (simp add: bs_frame_def append_eq_append_conv)
    then show False using q(3) big by (simp add: len_u32_def)
  qed
  then show ?thesis using bs_open_frames[OF bs(2,3)] by (simp add: bs' bs(1))
qed

text \<open>
  A failed write leaves its bytes in the file and the store in use: blocks appended and
  acknowledged afterwards follow the torn frame and are gone when the file is opened.
\<close>

theorem append_after_failed_write_lost:
  assumes "bs_open cx (bs_file bs) = bs" "append_record cx r (bs\<lparr>bs_file := bs_file bs @ take k MAGIC\<rparr>) = (Inr (), bs')"
    and "0 < k" "k < 4"
  shows "bs_records bs' = bs_records bs @ [r] \<and> bs_open cx (bs_file bs') = bs"
proof -
  obtain fs rs where bs: "bs = \<lparr>bs_file = concat fs, bs_records = rs\<rparr>" "frames_for cx fs rs" "chained cx [] rs"
    using bs_open_cases[of cx "bs_file bs"] assms(1) by metis
  obtain p where bs': "bs' = \<lparr>bs_file = concat fs @ take k MAGIC @ bs_frame cx p, bs_records = rs @ [r]\<rparr>"
    using assms(2) by (auto elim!: append_record_ok simp: bs(1))
  have "k = 1 \<or> k = 2 \<or> k = 3" using assms(3,4) by auto
  then have "read_frame cx (take k MAGIC @ bs_frame cx p) = None"
    by (auto simp: read_frame_def fill_buf_def bs_frame_def MAGIC_def ascii_def)
  then show ?thesis using bs_open_frames[OF bs(2,3)] by (simp add: bs' bs(1))
qed

end
