(* ===== verification/Votes.thy ===== *)
theory Votes
  imports Crypto
begin

text \<open>
  Votes and the voting history of a validator (\<^verbatim>\<open>crates/consensus/src/vote.rs\<close>). The clock of
  \<^verbatim>\<open>Vote::new\<close> is an argument.
\<close>

subsection \<open>Votes\<close>

record vote =
  vote_validator :: pubkey
  vote_slot :: u64
  vote_block_hash :: hash32
  vote_parent_slot :: "u64 option"
  vote_timestamp :: u64
  vote_signature :: bytes
  vote_state_hash :: hash32

definition compute_state_hash :: "('z) crypto_scheme \<Rightarrow> pubkey \<Rightarrow> u64 \<Rightarrow> hash32 \<Rightarrow> hash32" where
  "compute_state_hash cx validator slot h = sha256 cx (bytes32 validator @ le_u64 slot @ bytes32 h)"

definition vote_new :: "('z) crypto_scheme \<Rightarrow> u64 \<Rightarrow> pubkey \<Rightarrow> u64 \<Rightarrow> hash32 \<Rightarrow> u64 option \<Rightarrow> vote" where
  "vote_new cx now validator slot h parent =
     \<lparr>vote_validator = validator, vote_slot = slot, vote_block_hash = h, vote_parent_slot = parent,
      vote_timestamp = now, vote_signature = [], vote_state_hash = compute_state_hash cx validator slot h\<rparr>"

definition signable_data :: "vote \<Rightarrow> bytes" where
  "signable_data v =
     bytes32 (vote_validator v) @ le_u64 (vote_slot v) @ bytes32 (vote_block_hash v) @
     (case vote_parent_slot v of Some parent \<Rightarrow> 1 # le_u64 parent | None \<Rightarrow> [0]) @
     le_u64 (vote_timestamp v) @ bytes32 (vote_state_hash v)"

definition vote_sign :: "('z) crypto_scheme \<Rightarrow> hash32 \<Rightarrow> vote \<Rightarrow> vote" where
  "vote_sign cx key v =
     (let v = v\<lparr>vote_validator := verifying_key cx key\<rparr>;
          v = v\<lparr>vote_state_hash := compute_state_hash cx (vote_validator v) (vote_slot v) (vote_block_hash v)\<rparr>
      in v\<lparr>vote_signature := ed_sign cx key (signable_data v)\<rparr>)"

definition vote_verify_signature :: "('z) crypto_scheme \<Rightarrow> vote \<Rightarrow> bool" where
  "vote_verify_signature cx v = signature_ok cx (vote_validator v) (signable_data v) (vote_signature v)"

lemma vote_sign_verifies: "ed25519_correct cx \<Longrightarrow> vote_verify_signature cx (vote_sign cx key v)"
  by (simp add: vote_verify_signature_def vote_sign_def Let_def ed25519_correct_def signable_data_def)

lemma signable_data_inj:
  "signable_data v = signable_data w \<Longrightarrow>
   v\<lparr>vote_signature := []\<rparr> = w\<lparr>vote_signature := []\<rparr>"
  by (cases v; cases w) (auto simp: signable_data_def split: option.splits)

subsection \<open>History of a validator\<close>

record vote_history_entry =
  vh_slot :: u64
  vh_block_hash :: hash32
  vh_timestamp :: u64

record vote_state =
  vs_validator :: pubkey
  vs_root_slot :: u64
  last_vote_slot :: u64
  last_vote_hash :: hash32
  consecutive_votes :: u64
  lockout_multiplier :: u64
  vs_total_votes :: u64
  vs_history :: "vote_history_entry list"

definition vote_state_new :: "pubkey \<Rightarrow> u64 \<Rightarrow> vote_state" where
  "vote_state_new validator genesis_slot =
     \<lparr>vs_validator = validator, vs_root_slot = genesis_slot, last_vote_slot = 0, last_vote_hash = fill32 0,
      consecutive_votes = 0, lockout_multiplier = 1, vs_total_votes = 0, vs_history = []\<rparr>"

definition vs_process_vote :: "vote \<Rightarrow> vote_state \<Rightarrow> vote_state" where
  "vs_process_vote v s =
     (let s = s\<lparr>last_vote_slot := vote_slot v, last_vote_hash := vote_block_hash v,
                consecutive_votes := consecutive_votes s + 1, vs_total_votes := vs_total_votes s + 1,
                vs_history := vs_history s @
                  [\<lparr>vh_slot = vote_slot v, vh_block_hash = vote_block_hash v, vh_timestamp = vote_timestamp v\<rparr>]\<rparr>
      in if 32 < length (vs_history s) then s\<lparr>vs_history := tl (vs_history s)\<rparr> else s)"

definition lockout_slots :: "vote_state \<Rightarrow> u64" where
  "lockout_slots s = 2 ^ unat (min (consecutive_votes s) 31)"

definition can_switch_fork :: "u64 \<Rightarrow> vote_state \<Rightarrow> bool" where
  "can_switch_fork current_slot s \<longleftrightarrow> last_vote_slot s + lockout_slots s \<le> current_slot"

definition switch_fork :: "vote_state \<Rightarrow> vote_state" where
  "switch_fork s = s\<lparr>consecutive_votes := 0, lockout_multiplier := saturating_mul (lockout_multiplier s) 2\<rparr>"

definition reset_lockout :: "vote_state \<Rightarrow> vote_state" where
  "reset_lockout s = s\<lparr>consecutive_votes := 0, lockout_multiplier := 1\<rparr>"

definition vs_update_root :: "u64 \<Rightarrow> vote_state \<Rightarrow> vote_state" where
  "vs_update_root new_root s =
     s\<lparr>vs_root_slot := new_root, vs_history := filter (\<lambda>e. new_root \<le> vh_slot e) (vs_history s)\<rparr>"

definition tower_hash :: "('z) crypto_scheme \<Rightarrow> vote_state \<Rightarrow> hash32" where
  "tower_hash cx s =
     sha256 cx (bytes32 (vs_validator s) @ le_u64 (last_vote_slot s) @ bytes32 (last_vote_hash s) @
       le_u64 (consecutive_votes s))"

lemma last_vote_slot_simps [simp]:
  "last_vote_slot (vs_process_vote v s) = vote_slot v" "last_vote_slot (switch_fork s) = last_vote_slot s"
  "last_vote_slot (reset_lockout s) = last_vote_slot s" "last_vote_slot (vs_update_root r s) = last_vote_slot s"
  by (simp_all add: vs_process_vote_def switch_fork_def reset_lockout_def vs_update_root_def Let_def)

lemma history_bounded: "length (vs_history s) \<le> 32 \<Longrightarrow> length (vs_history (vs_process_vote v s)) \<le> 32"
  by (simp add: vs_process_vote_def Let_def)

lemma lockout_slots_nat: "unat (lockout_slots s) = 2 ^ min (unat (consecutive_votes s)) 31"
proof -
  have m: "unat (min (consecutive_votes s) 31) = min (unat (consecutive_votes s)) 31"
    by (simp add: min_def word_le_nat_alt)
  have "unat (2 ^ n :: u64) = 2 ^ n" if "n \<le> 31" for n
  proof -
    have "(2 ^ n :: nat) < 2 ^ 64" using that by (intro power_strict_increasing) simp_all
    then have "unat (of_nat (2 ^ n) :: u64) = 2 ^ n" by (simp only: unat_of_nat) simp
    then show ?thesis by simp
  qed
  then show ?thesis by (simp add: lockout_slots_def m)
qed

end
