(* ===== verification/Tower.thy ===== *)
theory Tower
  imports Votes
begin

text \<open>
  The fork-choice tower (\<^verbatim>\<open>crates/consensus/src/tower.rs\<close>): stakes, votes, the tree of blocks,
  the best head and the root. A \<^verbatim>\<open>DashMap\<close> is an association list with distinct keys, visited
  in its order. Walking a chain of parents may not end; processing a vote is then \<^term>\<open>None\<close>.
\<close>

subsection \<open>State\<close>

definition DEFAULT_STAKE :: u64 where
  "DEFAULT_STAKE = 1"

record tower_node =
  node_block_hash :: hash32
  node_slot :: u64
  node_parent_slot :: "u64 option"
  node_parent_hash :: "hash32 option"
  weight :: u64
  voters :: "pubkey list"
  children :: "hash32 list"

record tower =
  nodes :: "(hash32 \<times> tower_node) list"
  validator_states :: "(pubkey \<times> vote_state) list"
  stakes :: "(pubkey \<times> u64) list"
  slot_to_hash :: "(u64 \<times> hash32) list"
  tower_root_slot :: u64
  best_head :: "hash32 option"
  tower_total_votes :: u64
  total_switches :: u64

definition tower_new :: "u64 \<Rightarrow> tower" where
  "tower_new genesis_slot =
     \<lparr>nodes = [], validator_states = [], stakes = [], slot_to_hash = [], tower_root_slot = genesis_slot,
      best_head = None, tower_total_votes = 0, total_switches = 0\<rparr>"

subsection \<open>Stakes\<close>

text \<open>\<^verbatim>\<open>entry(validator).or_insert_with(...)\<close>.\<close>

definition ensure_state :: "pubkey \<Rightarrow> tower \<Rightarrow> tower" where
  "ensure_state v t =
     (case map_of (validator_states t) v of
        Some _ \<Rightarrow> t
      | None \<Rightarrow> t\<lparr>validator_states := AList.update v (vote_state_new v (tower_root_slot t)) (validator_states t)\<rparr>)"

definition register_validator :: "pubkey \<Rightarrow> u64 \<Rightarrow> tower \<Rightarrow> tower" where
  "register_validator v stake t = ensure_state v (t\<lparr>stakes := AList.update v stake (stakes t)\<rparr>)"

definition stake_of :: "tower \<Rightarrow> pubkey \<Rightarrow> u64" where
  "stake_of t v = (case map_of (stakes t) v of Some s \<Rightarrow> s | None \<Rightarrow> DEFAULT_STAKE)"

definition total_stake :: "tower \<Rightarrow> u64" where
  "total_stake t =
     (let registered = foldl (\<lambda>acc (_, s). saturating_add acc s) 0 (stakes t)
      in foldl (\<lambda>acc (v, _). if map_of (stakes t) v = None then saturating_add acc DEFAULT_STAKE else acc)
           registered (validator_states t))"

subsection \<open>Best head\<close>

partial_function (option) chain_weight ::
    "(hash32 \<times> tower_node) list \<Rightarrow> hash32 \<Rightarrow> (hash32 \<times> u64) list \<Rightarrow> (u64 \<times> (hash32 \<times> u64) list) option" where
  "chain_weight ns h memo =
     (case map_of memo h of
        Some w \<Rightarrow> Some (w, memo)
      | None \<Rightarrow>
          (case map_of ns h of
             None \<Rightarrow> Some (0, memo)
           | Some node \<Rightarrow>
               (case node_parent_hash node of
                  None \<Rightarrow> Some (weight node, AList.update h (weight node) memo)
                | Some p \<Rightarrow>
                    Option.bind (chain_weight ns p memo)
                      (\<lambda>(w, memo). let sum = saturating_add (weight node) w
                                   in Some (sum, AList.update h sum memo)))))"

definition better_head :: "u64 \<Rightarrow> u64 \<Rightarrow> (hash32 \<times> u64 \<times> u64) option \<Rightarrow> bool" where
  "better_head w slot best =
     (case best of
        None \<Rightarrow> True
      | Some (_, best_weight, best_slot) \<Rightarrow> best_weight < w \<or> w = best_weight \<and> best_slot < slot)"

fun best_leaf ::
    "(hash32 \<times> tower_node) list \<Rightarrow> hash32 list \<Rightarrow> (hash32 \<times> u64) list \<Rightarrow> (hash32 \<times> u64 \<times> u64) option \<Rightarrow>
     (hash32 \<times> u64 \<times> u64) option option" where
  "best_leaf ns [] memo best = Some best"
| "best_leaf ns (leaf # leaves) memo best =
     (case chain_weight ns leaf memo of
        None \<Rightarrow> None
      | Some (w, memo) \<Rightarrow>
          let slot = (case map_of ns leaf of Some n \<Rightarrow> node_slot n | None \<Rightarrow> 0)
          in best_leaf ns leaves memo (if better_head w slot best then Some (leaf, w, slot) else best))"

definition tower_leaves :: "tower \<Rightarrow> hash32 list" where
  "tower_leaves t = map fst (filter (\<lambda>(_, n). tower_root_slot t \<le> node_slot n \<and> children n = []) (nodes t))"

definition update_best_head :: "tower \<Rightarrow> tower option" where
  "update_best_head t =
     (case best_leaf (nodes t) (tower_leaves t) [] None of
        None \<Rightarrow> None
      | Some None \<Rightarrow> Some t
      | Some (Some (h, _, _)) \<Rightarrow> Some (t\<lparr>best_head := Some h\<rparr>))"

subsection \<open>Votes\<close>

definition store_state :: "pubkey \<Rightarrow> vote_state \<Rightarrow> tower \<Rightarrow> tower" where
  "store_state v s t = t\<lparr>validator_states := AList.update v s (validator_states t)\<rparr>"

definition count_vote :: "vote \<Rightarrow> tower \<Rightarrow> tower" where
  "count_vote v t =
     (let stake = stake_of t (vote_validator v);
          parent = Option.bind (vote_parent_slot v) (map_of (slot_to_hash t));
          node = (case map_of (nodes t) (vote_block_hash v) of
                    Some n \<Rightarrow> n
                  | None \<Rightarrow> \<lparr>node_block_hash = vote_block_hash v, node_slot = vote_slot v,
                             node_parent_slot = vote_parent_slot v, node_parent_hash = parent, weight = 0,
                             voters = [], children = []\<rparr>);
          node = (if vote_validator v \<notin> set (voters node)
                  then node\<lparr>weight := saturating_add (weight node) stake, voters := voters node @ [vote_validator v]\<rparr>
                  else node)
      in t\<lparr>nodes := AList.update (vote_block_hash v) node (nodes t)\<rparr>)"

definition link_child :: "vote \<Rightarrow> tower \<Rightarrow> tower" where
  "link_child v t =
     (case Option.bind (vote_parent_slot v) (map_of (slot_to_hash t)) of
        None \<Rightarrow> t
      | Some p \<Rightarrow>
          (case map_of (nodes t) p of
             None \<Rightarrow> t
           | Some parent \<Rightarrow>
               if vote_block_hash v \<in> set (children parent) then t
               else t\<lparr>nodes := AList.update p (parent\<lparr>children := children parent @ [vote_block_hash v]\<rparr>) (nodes t)\<rparr>))"

definition record_vote :: "vote \<Rightarrow> tower \<Rightarrow> tower" where
  "record_vote v t =
     (let t = count_vote v t;
          t = t\<lparr>slot_to_hash := AList.update (vote_slot v) (vote_block_hash v) (slot_to_hash t)\<rparr>
      in link_child v t)"

definition tower_process_vote :: "('z) crypto_scheme \<Rightarrow> vote \<Rightarrow> tower \<Rightarrow> (bool \<times> tower) option" where
  "tower_process_vote cx v t =
     (if \<not> vote_verify_signature cx v then Some (False, t)
      else
        let t = ensure_state (vote_validator v) t;
            s = the (map_of (validator_states t) (vote_validator v));
            root = tower_root_slot t;
            s = (if vote_parent_slot v = Some root \<and> root < vote_slot v then reset_lockout s else s);
            t = store_state (vote_validator v) s t
        in if vote_slot v \<le> last_vote_slot s then Some (False, t)
           else
             let is_fork_switch = (vote_parent_slot v \<noteq> Some (last_vote_slot s))
             in if is_fork_switch \<and> \<not> can_switch_fork (vote_slot v) s then Some (False, t)
                else
                  let s = (if is_fork_switch then switch_fork s else s);
                      t = (if is_fork_switch then t\<lparr>total_switches := total_switches t + 1\<rparr> else t);
                      t = store_state (vote_validator v) (vs_process_vote v s) t;
                      t = record_vote v t
                  in (case update_best_head t of
                        None \<Rightarrow> None
                      | Some t \<Rightarrow> Some (True, t\<lparr>tower_total_votes := tower_total_votes t + 1\<rparr>)))"

subsection \<open>Confirmation and root\<close>

definition supermajority :: "tower \<Rightarrow> tower_node \<Rightarrow> bool" where
  "supermajority t n \<longleftrightarrow> saturating_mul (total_stake t) 2 < saturating_mul (weight n) 3"

definition is_slot_confirmed :: "tower \<Rightarrow> u64 \<Rightarrow> bool" where
  "is_slot_confirmed t slot =
     (if total_stake t = 0 then False
      else list_ex (\<lambda>(_, n). node_slot n = slot \<and> supermajority t n) (nodes t))"

definition advance_root :: "u64 \<Rightarrow> tower \<Rightarrow> tower" where
  "advance_root new_root t =
     t\<lparr>tower_root_slot := new_root,
       validator_states := map (\<lambda>(v, s).
         (v, let s = vs_update_root new_root s in if last_vote_slot s \<le> new_root then reset_lockout s else s))
         (validator_states t),
       nodes := filter (\<lambda>(_, n). new_root \<le> node_slot n) (nodes t),
       slot_to_hash := filter (\<lambda>(slot, _). new_root \<le> slot) (slot_to_hash t)\<rparr>"

record tower_stats =
  ts_total_nodes :: nat
  ts_total_validators :: nat
  ts_total_votes :: u64
  ts_total_switches :: u64
  ts_root_slot :: u64
  ts_best_head :: "hash32 option"

definition tower_stats_of :: "tower \<Rightarrow> tower_stats" where
  "tower_stats_of t =
     \<lparr>ts_total_nodes = length (nodes t), ts_total_validators = length (validator_states t),
      ts_total_votes = tower_total_votes t, ts_total_switches = total_switches t,
      ts_root_slot = tower_root_slot t, ts_best_head = best_head t\<rparr>"

definition debug_tree :: "tower \<Rightarrow> tower_node list" where
  "debug_tree t = map snd (nodes t)"

subsection \<open>Total stake\<close>

lemma saturating_fold:
  fixes f :: "'a \<Rightarrow> 'b::len word"
  shows "unat (foldl (\<lambda>acc x. saturating_add acc (f x)) a xs) =
    min (2 ^ LENGTH('b) - 1) (unat a + (\<Sum>x\<leftarrow>xs. unat (f x)))"
proof (induction xs arbitrary: a)
  case Nil
  have "unat a < 2 ^ LENGTH('b)" by (rule unsigned_less)
  then have "unat a \<le> 2 ^ LENGTH('b) - 1" by linarith
  then show ?case by simp
qed (simp add: unat_saturating_add min_add_distrib_left)

lemma foldl_filter: "foldl (\<lambda>acc x. if P x then g acc x else acc) a xs = foldl g a (filter P xs)"
  by (induction xs arbitrary: a) auto

definition stake_sum :: "tower \<Rightarrow> nat" where
  "stake_sum t = (\<Sum>p\<leftarrow>stakes t. unat (snd p)) +
     length (filter (\<lambda>p. map_of (stakes t) (fst p) = None) (validator_states t))"

lemma total_stake_sum: "unat (total_stake t) = min (2 ^ 64 - 1) (stake_sum t)"
proof -
  have reg: "unat (foldl (\<lambda>acc p. saturating_add acc (snd p)) 0 (stakes t)) = min (2 ^ 64 - 1) (\<Sum>p\<leftarrow>stakes t. unat (snd p))"
    by (simp add: saturating_fold)
  show ?thesis
    unfolding total_stake_def Let_def case_prod_unfold foldl_filter saturating_fold reg
    by (simp add: stake_sum_def DEFAULT_STAKE_def sum_list_triv min_add_distrib_left min_def)
qed

lemma stakes_within_total:
  assumes "distinct (map fst (stakes t))" "distinct (map fst (validator_states t))" "V \<subseteq> fst ` set (validator_states t)"
  shows "(\<Sum>v\<in>V. unat (stake_of t v)) \<le> stake_sum t"
proof -
  let ?R = "fst ` set (stakes t)"
  have fin: "finite V" using assms(3) by (rule finite_subset) simp
  have reg: "(\<Sum>v\<in>V \<inter> ?R. unat (stake_of t v)) \<le> (\<Sum>p\<leftarrow>stakes t. unat (snd p))"
  proof -
    have "(\<Sum>v\<in>V \<inter> ?R. unat (stake_of t v)) \<le> (\<Sum>v\<in>?R. unat (stake_of t v))" by (rule sum_mono2) auto
    also have "\<dots> = (\<Sum>p\<in>set (stakes t). unat (stake_of t (fst p)))"
      using assms(1) by (subst sum.reindex) (auto simp: distinct_map)
    also have "\<dots> = (\<Sum>p\<in>set (stakes t). unat (snd p))"
      by (rule sum.cong) (auto simp: stake_of_def assms(1))
    also have "\<dots> = (\<Sum>p\<leftarrow>stakes t. unat (snd p))"
      using assms(1) by (simp add: sum_list_distinct_conv_sum_set distinct_map)
    finally show ?thesis .
  qed
  have one: "unat (stake_of t v) = 1" if "v \<notin> ?R" for v
  proof -
    have "map_of (stakes t) v = None" using that by (simp add: map_of_eq_None_iff)
    then show ?thesis by (simp add: stake_of_def DEFAULT_STAKE_def)
  qed
  have "(\<Sum>v\<in>V - ?R. unat (stake_of t v)) = (\<Sum>v\<in>V - ?R. 1)" by (rule sum.cong) (auto simp: one)
  also have "\<dots> = card (V - ?R)" by simp
  also have "\<dots> \<le> card (fst ` set (filter (\<lambda>p. map_of (stakes t) (fst p) = None) (validator_states t)))"
    using assms(3) by (intro card_mono) (auto simp: map_of_eq_None_iff)
  also have "\<dots> \<le> length (filter (\<lambda>p. map_of (stakes t) (fst p) = None) (validator_states t))"
    using card_length[of "map fst (filter (\<lambda>p. map_of (stakes t) (fst p) = None) (validator_states t))"] by simp
  finally have unreg: "(\<Sum>v\<in>V - ?R. unat (stake_of t v)) \<le> length (filter (\<lambda>p. map_of (stakes t) (fst p) = None) (validator_states t))" .
  have "(\<Sum>v\<in>V. unat (stake_of t v)) = (\<Sum>v\<in>V \<inter> ?R. unat (stake_of t v)) + (\<Sum>v\<in>V - ?R. unat (stake_of t v))"
    by (rule sum.Int_Diff[OF fin])
  then show ?thesis using reg unreg by (simp add: stake_sum_def)
qed

lemma supermajority_nat:
  assumes "supermajority t n"
  shows "2 * stake_sum t < 3 * unat (weight n)"
proof -
  have "min (unat (total_stake t) * 2) (2 ^ 64 - 1) < min (unat (weight n) * 3) (2 ^ 64 - 1)"
    using assms by (simp add: supermajority_def word_less_nat_alt unat_saturating_mul)
  then show ?thesis unfolding total_stake_sum by (auto simp: min_def split: if_splits)
qed

subsection \<open>The tally\<close>

text \<open>
  Whatever is voted, the weight of a block is within the stakes of its voters, and voters are
  known. Registering a validator keeps this as long as the stake of one who has voted is not
  lowered.
\<close>

definition tallied :: "tower \<Rightarrow> tower_node \<Rightarrow> bool" where
  "tallied t n \<longleftrightarrow> unat (weight n) \<le> (\<Sum>v\<in>set (voters n). unat (stake_of t v)) \<and>
     set (voters n) \<subseteq> fst ` set (validator_states t)"

definition tally_inv :: "tower \<Rightarrow> bool" where
  "tally_inv t \<longleftrightarrow> distinct (map fst (stakes t)) \<and> distinct (map fst (validator_states t)) \<and>
     list_all (\<lambda>(_, n). tallied t n) (nodes t)"

definition registration_ok :: "tower \<Rightarrow> pubkey \<Rightarrow> u64 \<Rightarrow> bool" where
  "registration_ok t v stake \<longleftrightarrow> list_all (\<lambda>(_, n). v \<notin> set (voters n)) (nodes t) \<or> stake_of t v \<le> stake"

lemma set_alist_update: "set (AList.update k v al) \<subseteq> insert (k, v) (set al)"
  by (induction al) auto

lemma list_all_update: "list_all P al \<Longrightarrow> P (k, v) \<Longrightarrow> list_all P (AList.update k v al)"
  using set_alist_update[of k v al] by (auto simp: list_all_iff)

text \<open>
  Two blocks that both have more than two thirds of the stake have more than a third of it in
  common.
\<close>

lemma supermajorities_overlap:
  assumes "tally_inv t" "map_of (nodes t) h = Some n" "map_of (nodes t) h' = Some n'"
    and "supermajority t n" "supermajority t n'"
  shows "stake_sum t < 3 * (\<Sum>v\<in>set (voters n) \<inter> set (voters n'). unat (stake_of t v))"
proof -
  let ?S = "\<lambda>V. \<Sum>v\<in>V. unat (stake_of t v)"
  have ok: "tallied t n" "tallied t n'" using assms(1-3) by (auto simp: tally_inv_def list_all_iff dest!: map_of_SomeD)
  then have sub: "set (voters n) \<union> set (voters n') \<subseteq> fst ` set (validator_states t)" by (simp add: tallied_def)
  have "unat (weight n) + unat (weight n') \<le> ?S (set (voters n)) + ?S (set (voters n'))"
    using ok by (intro add_mono) (simp_all add: tallied_def)
  also have "\<dots> = ?S (set (voters n) \<union> set (voters n')) + ?S (set (voters n) \<inter> set (voters n'))"
    by (rule sum.union_inter[symmetric]) simp_all
  also have "?S (set (voters n) \<union> set (voters n')) \<le> stake_sum t"
    using assms(1) by (intro stakes_within_total[OF _ _ sub]) (simp_all add: tally_inv_def)
  finally show ?thesis using supermajority_nat[OF assms(4)] supermajority_nat[OF assms(5)] by linarith
qed

lemma tally_inv_other [simp]:
  "tally_inv (t\<lparr>best_head := b\<rparr>) = tally_inv t" "tally_inv (t\<lparr>tower_total_votes := k\<rparr>) = tally_inv t"
  "tally_inv (t\<lparr>total_switches := k\<rparr>) = tally_inv t" "tally_inv (t\<lparr>slot_to_hash := m\<rparr>) = tally_inv t"
  "tally_inv (t\<lparr>tower_root_slot := r\<rparr>) = tally_inv t"
  by (simp_all add: tally_inv_def tallied_def stake_of_def)

lemma tally_inv_states:
  assumes "tally_inv t" "distinct (map fst sts)" "fst ` set (validator_states t) \<subseteq> fst ` set sts"
  shows "tally_inv (t\<lparr>validator_states := sts\<rparr>)"
proof -
  have "tallied (t\<lparr>validator_states := sts\<rparr>) n" if "tallied t n" for n
    using that subset_trans[OF _ assms(3)] by (simp add: tallied_def stake_of_def)
  then show ?thesis using assms(1,2) by (auto simp: tally_inv_def list_all_iff)
qed

lemma tally_inv_node:
  assumes "tally_inv t" "tallied t n"
  shows "tally_inv (t\<lparr>nodes := AList.update h n (nodes t)\<rparr>)"
proof -
  have "tallied (t\<lparr>nodes := ns\<rparr>) = tallied t" for ns by (simp add: fun_eq_iff tallied_def stake_of_def)
  then show ?thesis using assms by (auto simp: tally_inv_def intro: list_all_update)
qed

lemma tally_inv_nodeD: "tally_inv t \<Longrightarrow> map_of (nodes t) h = Some n \<Longrightarrow> tallied t n"
  by (auto simp: tally_inv_def list_all_iff dest!: map_of_SomeD)

lemma store_state_tally: "tally_inv t \<Longrightarrow> tally_inv (store_state v s t)"
  unfolding store_state_def
  by (rule tally_inv_states) (auto simp: tally_inv_def distinct_update dom_map_of_conv_image_fst[symmetric] update_conv')

lemma ensure_state_tally: "tally_inv t \<Longrightarrow> tally_inv (ensure_state v t)"
  using store_state_tally[of t v] by (simp add: ensure_state_def store_state_def split: option.split)

lemma count_vote_tally:
  assumes "tally_inv t" "map_of (validator_states t) (vote_validator v) = Some s"
  shows "tally_inv (count_vote v t)"
proof -
  define n where "n = (case map_of (nodes t) (vote_block_hash v) of Some n \<Rightarrow> n
    | None \<Rightarrow> \<lparr>node_block_hash = vote_block_hash v, node_slot = vote_slot v, node_parent_slot = vote_parent_slot v,
       node_parent_hash = Option.bind (vote_parent_slot v) (map_of (slot_to_hash t)), weight = 0, voters = [], children = []\<rparr>)"
  have n: "tallied t n" using tally_inv_nodeD[OF assms(1), of "vote_block_hash v"] by (auto simp: n_def tallied_def split: option.split)
  have known: "vote_validator v \<in> fst ` set (validator_states t)" using map_of_SomeD[OF assms(2)] by force
  have "tallied t (if vote_validator v \<notin> set (voters n) then n\<lparr>weight := saturating_add (weight n) (stake_of t (vote_validator v)),
      voters := voters n @ [vote_validator v]\<rparr> else n)"
    using n known by (auto simp: tallied_def unat_saturating_add intro!: min.coboundedI1)
  from tally_inv_node[OF assms(1) this] show ?thesis unfolding count_vote_def Let_def n_def[symmetric] .
qed

lemma link_child_tally: "tally_inv t \<Longrightarrow> tally_inv (link_child v t)"
proof -
  assume inv: "tally_inv t"
  have "tallied t (n\<lparr>children := c\<rparr>)" if "map_of (nodes t) h = Some n" for h n c
    using tally_inv_nodeD[OF inv that] by (simp add: tallied_def)
  then show ?thesis using inv tally_inv_node[OF inv] by (simp add: link_child_def split: option.split)
qed

lemma record_vote_tally:
  "tally_inv t \<Longrightarrow> map_of (validator_states t) (vote_validator v) = Some s \<Longrightarrow> tally_inv (record_vote v t)"
  unfolding record_vote_def Let_def by (intro link_child_tally) (simp add: count_vote_tally)

lemma advance_root_tally: "tally_inv t \<Longrightarrow> tally_inv (advance_root r t)"
proof -
  assume inv: "tally_inv t"
  have "map fst (validator_states (advance_root r t)) = map fst (validator_states t)" by (auto simp: advance_root_def)
  moreover from this have "fst ` set (validator_states (advance_root r t)) = fst ` set (validator_states t)" by (metis list.set_map)
  ultimately show ?thesis using inv
    by (auto simp: tally_inv_def tallied_def stake_of_def list_all_iff) (auto simp: advance_root_def)
qed

lemma register_validator_tally:
  assumes "tally_inv t" "registration_ok t v stake"
  shows "tally_inv (register_validator v stake t)"
proof -
  let ?t = "t\<lparr>stakes := AList.update v stake (stakes t)\<rparr>"
  have st: "stake_of ?t x = (if x = v then stake else stake_of t x)" for x by (simp add: stake_of_def update_conv')
  have "tallied ?t n" if "(h, n) \<in> set (nodes t)" for h n
  proof -
    have n: "tallied t n" using assms(1) that by (auto simp: tally_inv_def list_all_iff)
    have "unat (stake_of t x) \<le> unat (stake_of ?t x)" if "x \<in> set (voters n)" for x
      using assms(2) that \<open>(h, n) \<in> set (nodes t)\<close> by (auto simp: st registration_ok_def list_all_iff word_le_nat_alt)
    then have "(\<Sum>x\<in>set (voters n). unat (stake_of t x)) \<le> (\<Sum>x\<in>set (voters n). unat (stake_of ?t x))" by (rule sum_mono)
    then show ?thesis using n by (simp add: tallied_def)
  qed
  then have "tally_inv ?t" using assms(1) by (auto simp: tally_inv_def list_all_iff distinct_update)
  then show ?thesis unfolding register_validator_def by (rule ensure_state_tally)
qed

subsection \<open>Invariant\<close>

text \<open>
  For votes whose slot is that of their block: nodes carry the slot of their block, voters have
  voted up to the node's slot, nobody votes for two blocks of a slot, slots map to their blocks,
  parents have smaller slots, and children have larger ones and are known.
\<close>

definition node_ok :: "(hash32 \<Rightarrow> u64) \<Rightarrow> tower \<Rightarrow> hash32 \<Rightarrow> tower_node \<Rightarrow> bool" where
  "node_ok slot_of t h n \<longleftrightarrow>
     node_slot n = slot_of h \<and>
     (\<forall>v\<in>set (voters n). \<exists>s. map_of (validator_states t) v = Some s \<and> slot_of h \<le> last_vote_slot s) \<and>
     (\<forall>p. node_parent_hash n = Some p \<longrightarrow> slot_of p < slot_of h) \<and>
     (\<forall>c\<in>set (children n). slot_of h < slot_of c \<and> map_of (nodes t) c \<noteq> None)"

definition tower_inv :: "(hash32 \<Rightarrow> u64) \<Rightarrow> tower \<Rightarrow> bool" where
  "tower_inv slot_of t \<longleftrightarrow>
     distinct (map fst (nodes t)) \<and> distinct (map fst (validator_states t)) \<and>
     (\<forall>h n. map_of (nodes t) h = Some n \<longrightarrow> node_ok slot_of t h n) \<and>
     (\<forall>h h' n n'. map_of (nodes t) h = Some n \<longrightarrow> map_of (nodes t) h' = Some n' \<longrightarrow> slot_of h = slot_of h' \<longrightarrow>
        set (voters n) \<inter> set (voters n') \<noteq> {} \<longrightarrow> h = h') \<and>
     list_all (\<lambda>(s, h). slot_of h = s) (slot_to_hash t)"

lemma tower_inv_nodeD: "tower_inv slot_of t \<Longrightarrow> map_of (nodes t) h = Some n \<Longrightarrow> node_ok slot_of t h n"
  unfolding tower_inv_def by blast

lemma tower_inv_disjoint:
  "tower_inv slot_of t \<Longrightarrow> map_of (nodes t) h = Some n \<Longrightarrow> map_of (nodes t) h' = Some n' \<Longrightarrow>
   slot_of h = slot_of h' \<Longrightarrow> h \<noteq> h' \<Longrightarrow> set (voters n) \<inter> set (voters n') = {}"
  unfolding tower_inv_def by blast

lemma confirmed_unique:
  assumes "tower_inv slot_of t" "tally_inv t" "map_of (nodes t) h = Some n" "map_of (nodes t) h' = Some n'"
    and "supermajority t n" "supermajority t n'" "node_slot n = node_slot n'"
  shows "h = h'"
proof (rule ccontr)
  assume "h \<noteq> h'"
  have "slot_of h = slot_of h'" using assms(7) tower_inv_nodeD[OF assms(1,3)] tower_inv_nodeD[OF assms(1,4)] by (simp add: node_ok_def)
  then have "set (voters n) \<inter> set (voters n') = {}" using tower_inv_disjoint[OF assms(1,3,4)] \<open>h \<noteq> h'\<close> by blast
  then show False using supermajorities_overlap[OF assms(2-6)] by simp
qed

lemma map_of_filter_Some:
  "distinct (map fst al) \<Longrightarrow> map_of (filter P al) k = Some v \<Longrightarrow> map_of al k = Some v"
  by (auto dest!: map_of_SomeD intro: map_of_is_SomeI)

lemma tower_inv_other [simp]:
  "tower_inv slot_of (t\<lparr>best_head := b\<rparr>) = tower_inv slot_of t"
  "tower_inv slot_of (t\<lparr>tower_total_votes := n\<rparr>) = tower_inv slot_of t"
  "tower_inv slot_of (t\<lparr>total_switches := n\<rparr>) = tower_inv slot_of t"
  "tower_inv slot_of (t\<lparr>stakes := m\<rparr>) = tower_inv slot_of t"
  by (simp_all add: tower_inv_def node_ok_def)

lemma tower_inv_states:
  assumes "tower_inv slot_of t" "distinct (map fst sts)"
    and "\<And>v s. map_of (validator_states t) v = Some s \<Longrightarrow> \<exists>s'. map_of sts v = Some s' \<and> last_vote_slot s \<le> last_vote_slot s'"
  shows "tower_inv slot_of (t\<lparr>validator_states := sts\<rparr>)"
proof -
  have "node_ok slot_of (t\<lparr>validator_states := sts\<rparr>) h n" if ok: "node_ok slot_of t h n" for h n
  proof -
    have "\<exists>s'. map_of sts v = Some s' \<and> slot_of h \<le> last_vote_slot s'" if v: "v \<in> set (voters n)" for v
    proof -
      obtain s where s: "map_of (validator_states t) v = Some s" "slot_of h \<le> last_vote_slot s"
        using ok v by (auto simp: node_ok_def)
      then show ?thesis using assms(3)[OF s(1)] by (auto intro: order_trans)
    qed
    then show ?thesis using ok by (simp add: node_ok_def stake_of_def)
  qed
  then show ?thesis using assms(1,2) unfolding tower_inv_def by simp
qed

lemma tower_inv_node:
  assumes "tower_inv slot_of t" "node_ok slot_of t h n"
    and "\<And>h' n'. map_of (nodes t) h' = Some n' \<Longrightarrow> h' \<noteq> h \<Longrightarrow> slot_of h' = slot_of h \<Longrightarrow> set (voters n) \<inter> set (voters n') = {}"
  shows "tower_inv slot_of (t\<lparr>nodes := AList.update h n (nodes t)\<rparr>)"
proof -
  let ?t = "t\<lparr>nodes := AList.update h n (nodes t)\<rparr>"
  have ok: "node_ok slot_of ?t x a" if "node_ok slot_of t x a" for x a
    using that by (auto simp: node_ok_def update_conv')
  have "x = y" if "((map_of (nodes t))(h \<mapsto> n)) x = Some a" "((map_of (nodes t))(h \<mapsto> n)) y = Some b"
      "slot_of x = slot_of y" "set (voters a) \<inter> set (voters b) \<noteq> {}" for x y a b
  proof (rule ccontr)
    assume ne: "x \<noteq> y"
    consider "x = h" "y \<noteq> h" | "y = h" "x \<noteq> h" | "x \<noteq> h" "y \<noteq> h" using ne by blast
    then have "set (voters a) \<inter> set (voters b) = {}"
    proof cases
      case 1
      then show ?thesis using that(1-3) assms(3)[of y b] by simp
    next
      case 2
      then show ?thesis using that(1-3) assms(3)[of x a] by (simp add: Int_commute)
    next
      case 3
      then show ?thesis using that(1-3) tower_inv_disjoint[OF assms(1), of x a y b] ne by simp
    qed
    with that(4) show False by simp
  qed
  then have disj: "\<forall>x y a b. ((map_of (nodes t))(h \<mapsto> n)) x = Some a \<longrightarrow> ((map_of (nodes t))(h \<mapsto> n)) y = Some b \<longrightarrow>
      slot_of x = slot_of y \<longrightarrow> set (voters a) \<inter> set (voters b) \<noteq> {} \<longrightarrow> x = y" by blast
  have all: "\<forall>x a. ((map_of (nodes t))(h \<mapsto> n)) x = Some a \<longrightarrow> node_ok slot_of ?t x a"
    using tower_inv_nodeD[OF assms(1)] assms(2) ok by simp
  have sel: "nodes ?t = AList.update h n (nodes t)" "validator_states ?t = validator_states t" "slot_to_hash ?t = slot_to_hash t"
    by simp_all
  have "distinct (map fst (AList.update h n (nodes t)))"
    using assms(1) by (intro distinct_update) (simp add: tower_inv_def)
  then show ?thesis
    using assms(1) disj all unfolding tower_inv_def sel update_conv' by blast
qed

text \<open>What a vote must satisfy: its slot is its block's and its parent's slot is smaller.\<close>

definition vote_ok :: "(hash32 \<Rightarrow> u64) \<Rightarrow> vote \<Rightarrow> bool" where
  "vote_ok slot_of v \<longleftrightarrow> slot_of (vote_block_hash v) = vote_slot v \<and>
     (case vote_parent_slot v of Some p \<Rightarrow> p < vote_slot v | None \<Rightarrow> True)"

lemma count_vote_inv:
  assumes "tower_inv slot_of t" "vote_ok slot_of v" "map_of (validator_states t) (vote_validator v) = Some s"
    and "last_vote_slot s = vote_slot v"
    and "\<And>h n. map_of (nodes t) h = Some n \<Longrightarrow> vote_validator v \<in> set (voters n) \<Longrightarrow> slot_of h < vote_slot v"
  shows "tower_inv slot_of (count_vote v t)"
proof -
  let ?h = "vote_block_hash v" and ?v = "vote_validator v"
  have slot: "slot_of ?h = vote_slot v" using assms(2) by (simp add: vote_ok_def)
  define n where "n = (case map_of (nodes t) ?h of Some n \<Rightarrow> n
    | None \<Rightarrow> \<lparr>node_block_hash = ?h, node_slot = vote_slot v, node_parent_slot = vote_parent_slot v,
       node_parent_hash = Option.bind (vote_parent_slot v) (map_of (slot_to_hash t)), weight = 0, voters = [], children = []\<rparr>)"
  have new: "?v \<notin> set (voters n)" using assms(5)[of ?h] slot by (auto simp: n_def split: option.splits)
  have parent: "slot_of p < slot_of ?h" if "Option.bind (vote_parent_slot v) (map_of (slot_to_hash t)) = Some p" for p
    using that assms(1,2) slot by (auto simp: bind_eq_Some_conv tower_inv_def list_all_iff vote_ok_def dest!: map_of_SomeD)
  have ok: "node_ok slot_of t ?h n"
  proof (cases "map_of (nodes t) ?h")
    case None
    then show ?thesis using slot parent by (simp add: n_def node_ok_def)
  next
    case (Some m)
    then show ?thesis using assms(1) by (simp add: n_def tower_inv_def)
  qed
  define n' where "n' = n\<lparr>weight := saturating_add (weight n) (stake_of t ?v), voters := voters n @ [?v]\<rparr>"
  have ok': "node_ok slot_of t ?h n'"
    using ok assms(3,4) slot by (simp add: n'_def node_ok_def)
  have "set (voters n') \<inter> set (voters m) = {}" if "map_of (nodes t) h' = Some m" "h' \<noteq> ?h" "slot_of h' = slot_of ?h" for h' m
  proof -
    have "?v \<notin> set (voters m)" using assms(5)[OF that(1)] that(3) slot by auto
    moreover have "set (voters n) \<inter> set (voters m) = {}"
      using tower_inv_disjoint[OF assms(1) _ that(1), of ?h] that(2,3) by (auto simp: n_def split: option.split)
    ultimately show ?thesis by (simp add: n'_def)
  qed
  then have "tower_inv slot_of (t\<lparr>nodes := AList.update ?h n' (nodes t)\<rparr>)"
    by (rule tower_inv_node[OF assms(1) ok'])
  moreover have "count_vote v t = t\<lparr>nodes := AList.update ?h n' (nodes t)\<rparr>"
    using new unfolding count_vote_def Let_def n_def[symmetric] by (simp add: n'_def)
  ultimately show ?thesis by simp
qed

lemma link_child_inv:
  assumes "tower_inv slot_of t" "vote_ok slot_of v" "map_of (nodes t) (vote_block_hash v) \<noteq> None"
  shows "tower_inv slot_of (link_child v t)"
proof -
  have "tower_inv slot_of (t\<lparr>nodes := AList.update p (n\<lparr>children := children n @ [vote_block_hash v]\<rparr>) (nodes t)\<rparr>)"
    if "map_of (nodes t) p = Some n" "Option.bind (vote_parent_slot v) (map_of (slot_to_hash t)) = Some p" for p n
  proof (rule tower_inv_node[OF assms(1)])
    have "slot_of p < slot_of (vote_block_hash v)"
      using that(2) assms(1,2) by (auto simp: bind_eq_Some_conv tower_inv_def list_all_iff vote_ok_def dest!: map_of_SomeD)
    then show "node_ok slot_of t p (n\<lparr>children := children n @ [vote_block_hash v]\<rparr>)"
      using tower_inv_nodeD[OF assms(1) that(1)] assms(3) by (auto simp: node_ok_def)
    show "set (voters (n\<lparr>children := children n @ [vote_block_hash v]\<rparr>)) \<inter> set (voters n') = {}"
      if "map_of (nodes t) h' = Some n'" "h' \<noteq> p" "slot_of h' = slot_of p" for h' n'
      using tower_inv_disjoint[OF assms(1) \<open>map_of (nodes t) p = Some n\<close> that(1)] that(2,3) by simp
  qed
  then show ?thesis using assms(1) by (simp add: link_child_def split: option.split)
qed

lemma slot_map_inv:
  assumes "tower_inv slot_of t" "slot_of h = sl"
  shows "tower_inv slot_of (t\<lparr>slot_to_hash := AList.update sl h (slot_to_hash t)\<rparr>)"
proof -
  have "list_all (\<lambda>(s, h). slot_of h = s) (AList.update sl h (slot_to_hash t))"
    using assms set_alist_update[of sl h "slot_to_hash t"] by (auto simp: tower_inv_def list_all_iff)
  moreover have "node_ok slot_of (t\<lparr>slot_to_hash := m\<rparr>) = node_ok slot_of t" for m
    by (simp add: fun_eq_iff node_ok_def stake_of_def)
  ultimately show ?thesis using assms(1) by (simp add: tower_inv_def)
qed

lemma record_vote_inv:
  assumes "tower_inv slot_of t" "vote_ok slot_of v" "map_of (validator_states t) (vote_validator v) = Some s"
    and "last_vote_slot s = vote_slot v"
    and "\<And>h n. map_of (nodes t) h = Some n \<Longrightarrow> vote_validator v \<in> set (voters n) \<Longrightarrow> slot_of h < vote_slot v"
  shows "tower_inv slot_of (record_vote v t)"
proof -
  have "slot_of (vote_block_hash v) = vote_slot v" using assms(2) by (simp add: vote_ok_def)
  then show ?thesis
    unfolding record_vote_def Let_def
    by (intro link_child_inv slot_map_inv count_vote_inv[OF assms]) (simp_all add: assms(2) count_vote_def Let_def update_conv')
qed

lemma store_state_inv:
  assumes "tower_inv slot_of t"
    and "\<And>s'. map_of (validator_states t) v = Some s' \<Longrightarrow> last_vote_slot s' \<le> last_vote_slot s"
  shows "tower_inv slot_of (store_state v s t)"
  unfolding store_state_def
  by (rule tower_inv_states[OF assms(1)])
    (use assms in \<open>auto simp: tower_inv_def update_conv' intro: distinct_update\<close>)

lemma ensure_state_inv:
  assumes "tower_inv slot_of t"
  shows "tower_inv slot_of (ensure_state v t)"
proof (cases "map_of (validator_states t) v")
  case None
  then have "tower_inv slot_of (store_state v (vote_state_new v (tower_root_slot t)) t)"
    by (intro store_state_inv[OF assms]) simp
  then show ?thesis using None by (simp add: ensure_state_def store_state_def)
qed (use assms in \<open>simp add: ensure_state_def\<close>)

lemma ensure_state_known: "\<exists>s. map_of (validator_states (ensure_state v t)) v = Some s"
  by (simp add: ensure_state_def update_conv' split: option.split)

lemma ensure_state_sel [simp]:
  "nodes (ensure_state v t) = nodes t" "stakes (ensure_state v t) = stakes t" "slot_to_hash (ensure_state v t) = slot_to_hash t"
  "tower_root_slot (ensure_state v t) = tower_root_slot t"
  by (simp_all add: ensure_state_def split: option.split)

lemma store_state_sel [simp]:
  "nodes (store_state v s t) = nodes t" "tower_root_slot (store_state v s t) = tower_root_slot t"
  "map_of (validator_states (store_state v s t)) = (map_of (validator_states t))(v \<mapsto> s)"
  by (simp_all add: store_state_def update_conv')

lemma voter_slots:
  assumes "tower_inv slot_of t" "map_of (nodes t) h = Some n" "v \<in> set (voters n)" "map_of (validator_states t) v = Some s"
  shows "slot_of h \<le> last_vote_slot s"
  using tower_inv_nodeD[OF assms(1,2)] assms(3,4) by (auto simp: node_ok_def)

subsection \<open>Chains of parents\<close>

text \<open>The stake along a chain of parents, up to a number of steps.\<close>

fun chain_stake :: "nat \<Rightarrow> (hash32 \<times> tower_node) list \<Rightarrow> hash32 \<Rightarrow> nat" where
  "chain_stake 0 ns h = 0"
| "chain_stake (Suc k) ns h =
     (case map_of ns h of
        None \<Rightarrow> 0
      | Some n \<Rightarrow> unat (weight n) + (case node_parent_hash n of None \<Rightarrow> 0 | Some p \<Rightarrow> chain_stake k ns p))"

definition descending :: "(hash32 \<Rightarrow> nat) \<Rightarrow> (hash32 \<times> tower_node) list \<Rightarrow> bool" where
  "descending rank ns \<longleftrightarrow> (\<forall>h n p. map_of ns h = Some n \<longrightarrow> node_parent_hash n = Some p \<longrightarrow> rank p < rank h)"

lemma chain_stake_fuel:
  "descending rank ns \<Longrightarrow> rank h < k \<Longrightarrow> chain_stake k ns h = chain_stake (Suc (rank h)) ns h"
proof (induction "rank h" arbitrary: h k rule: less_induct)
  case less
  obtain j where k: "k = Suc j" using less.prems(2) by (cases k) auto
  show ?case
  proof (cases "map_of ns h")
    case (Some n)
    have "chain_stake j ns p = chain_stake (rank h) ns p" if p: "node_parent_hash n = Some p" for p
    proof -
      have lt: "rank p < rank h" using less.prems(1) Some p by (simp add: descending_def)
      then show ?thesis
        using less.hyps[OF lt less.prems(1), of j] less.hyps[OF lt less.prems(1), of "rank h"] less.prems(2) k by simp
    qed
    then show ?thesis by (simp add: k Some split: option.split)
  qed (simp add: k)
qed

definition memo_ok :: "(hash32 \<Rightarrow> nat) \<Rightarrow> (hash32 \<times> tower_node) list \<Rightarrow> (hash32 \<times> u64) list \<Rightarrow> bool" where
  "memo_ok rank ns memo \<longleftrightarrow>
     (\<forall>h w. map_of memo h = Some w \<longrightarrow> unat w = min (2 ^ 64 - 1) (chain_stake (Suc (rank h)) ns h))"

lemma memo_ok_update:
  "memo_ok rank ns memo \<Longrightarrow> unat w = min (2 ^ 64 - 1) (chain_stake (Suc (rank h)) ns h) \<Longrightarrow>
   memo_ok rank ns (AList.update h w memo)"
  by (simp add: memo_ok_def update_conv')

lemma chain_weight_spec:
  "descending rank ns \<Longrightarrow> memo_ok rank ns memo \<Longrightarrow>
   \<exists>w memo'. chain_weight ns h memo = Some (w, memo') \<and> memo_ok rank ns memo' \<and>
     unat w = min (2 ^ 64 - 1) (chain_stake (Suc (rank h)) ns h)"
proof (induction "rank h" arbitrary: h memo rule: less_induct)
  case less
  show ?case
  proof (cases "map_of memo h")
    case (Some w)
    then show ?thesis using less.prems(2) by (subst chain_weight.simps) (auto simp: memo_ok_def)
  next
    case memo: None
    show ?thesis
    proof (cases "map_of ns h")
      case None
      then show ?thesis using memo less.prems(2) by (subst chain_weight.simps) simp
    next
      case node: (Some n)
      have small: "unat (weight n) \<le> 2 ^ 64 - 1" using unsigned_less[of "weight n", where 'a = nat] by simp
      show ?thesis
      proof (cases "node_parent_hash n")
        case None
        then have sum: "unat (weight n) = min (2 ^ 64 - 1) (chain_stake (Suc (rank h)) ns h)"
          using node small by simp
        then show ?thesis
          using memo node None memo_ok_update[OF less.prems(2) sum] by (subst chain_weight.simps) simp
      next
        case (Some p)
        have lt: "rank p < rank h" using less.prems(1) node Some by (simp add: descending_def)
        obtain w memo' where w: "chain_weight ns p memo = Some (w, memo')" "memo_ok rank ns memo'"
          "unat w = min (2 ^ 64 - 1) (chain_stake (Suc (rank p)) ns p)"
          using less.hyps[OF lt less.prems] by blast
        have "chain_stake (rank h) ns p = chain_stake (Suc (rank p)) ns p"
          by (rule chain_stake_fuel[OF less.prems(1) lt])
        then have sum: "unat (saturating_add (weight n) w) = min (2 ^ 64 - 1) (chain_stake (Suc (rank h)) ns h)"
          using w(3) node Some by (simp add: unat_saturating_add min_def)
        show ?thesis
          using memo node Some w(1) memo_ok_update[OF w(2) sum] sum
          by (subst chain_weight.simps) (simp add: Let_def)
      qed
    qed
  qed
qed

lemma best_leaf_spec:
  assumes "descending rank ns" "memo_ok rank ns memo"
  shows "\<exists>r. best_leaf ns leaves memo best = Some r \<and> (r = None \<longrightarrow> leaves = []) \<and>
    (\<forall>h w sl. r = Some (h, w, sl) \<longrightarrow>
       (r = best \<or> h \<in> set leaves \<and> unat w = min (2 ^ 64 - 1) (chain_stake (Suc (rank h)) ns h)) \<and>
       (\<forall>l\<in>set leaves. min (2 ^ 64 - 1) (chain_stake (Suc (rank l)) ns l) \<le> unat w) \<and>
       (\<forall>h' w' sl'. best = Some (h', w', sl') \<longrightarrow> w' \<le> w))"
  using assms(2)
proof (induction leaves arbitrary: memo best)
  case (Cons l ls)
  obtain w memo' where w: "chain_weight ns l memo = Some (w, memo')" "memo_ok rank ns memo'"
    "unat w = min (2 ^ 64 - 1) (chain_stake (Suc (rank l)) ns l)"
    using chain_weight_spec[OF assms(1) Cons.prems] by blast
  define sl where "sl = (case map_of ns l of Some n \<Rightarrow> node_slot n | None \<Rightarrow> 0)"
  define best' where "best' = (if better_head w sl best then Some (l, w, sl) else best)"
  have run: "best_leaf ns (l # ls) memo best = best_leaf ns ls memo' best'"
    by (simp add: w(1) sl_def best'_def Let_def)
  have up: "w \<le> b \<and> (\<forall>h' w' sl'. best = Some (h', w', sl') \<longrightarrow> w' \<le> b)" if "best' = Some (a, b, c)" for a b c
    using that by (auto simp: best'_def better_head_def not_less split: if_splits option.splits)
  have some: "best' \<noteq> None" by (auto simp: best'_def better_head_def split: option.splits)
  obtain r where r: "best_leaf ns ls memo' best' = Some r" "r = None \<longrightarrow> ls = []"
    "\<forall>h w sl. r = Some (h, w, sl) \<longrightarrow>
       (r = best' \<or> h \<in> set ls \<and> unat w = min (2 ^ 64 - 1) (chain_stake (Suc (rank h)) ns h)) \<and>
       (\<forall>l\<in>set ls. min (2 ^ 64 - 1) (chain_stake (Suc (rank l)) ns l) \<le> unat w) \<and>
       (\<forall>h' w' sl'. best' = Some (h', w', sl') \<longrightarrow> w' \<le> w)"
    using Cons.IH[OF w(2), of best'] by blast
  have "r \<noteq> None" using r(1,2) some by (cases ls) auto
  moreover have "(r = best \<or> h \<in> set (l # ls) \<and> unat v = min (2 ^ 64 - 1) (chain_stake (Suc (rank h)) ns h)) \<and>
      (\<forall>l\<in>set (l # ls). min (2 ^ 64 - 1) (chain_stake (Suc (rank l)) ns l) \<le> unat v) \<and>
      (\<forall>h' w' sl'. best = Some (h', w', sl') \<longrightarrow> w' \<le> v)" if rv: "r = Some (h, v, sl')" for h v sl'
  proof -
    obtain a b c where b: "best' = Some (a, b, c)" using some by (cases best') auto
    have bv: "b \<le> v" using r(3) rv b by blast
    have wv: "w \<le> v" using up[OF b] bv by (auto intro: order_trans)
    then have "min (2 ^ 64 - 1) (chain_stake (Suc (rank l)) ns l) \<le> unat v"
      using w(3) by (simp add: word_le_nat_alt)
    moreover have "r = best \<or> h \<in> set (l # ls) \<and> unat v = min (2 ^ 64 - 1) (chain_stake (Suc (rank h)) ns h)"
      using r(3) rv w(3) by (auto simp: best'_def split: if_splits)
    ultimately show ?thesis using r(3) rv up[OF b] bv by (auto intro: order_trans)
  qed
  ultimately show ?case using run r(1) by (intro exI[of _ r]) auto
qed simp

definition slot_rank :: "(hash32 \<Rightarrow> u64) \<Rightarrow> hash32 \<Rightarrow> nat" where
  "slot_rank slot_of h = unat (slot_of h)"

text \<open>The stake behind a block, along its whole chain.\<close>

definition head_weight :: "(hash32 \<Rightarrow> u64) \<Rightarrow> tower \<Rightarrow> hash32 \<Rightarrow> nat" where
  "head_weight slot_of t h = min (2 ^ 64 - 1) (chain_stake (Suc (slot_rank slot_of h)) (nodes t) h)"

definition heaviest_head :: "(hash32 \<Rightarrow> u64) \<Rightarrow> tower \<Rightarrow> bool" where
  "heaviest_head slot_of t \<longleftrightarrow>
     (\<exists>h\<in>set (tower_leaves t). best_head t = Some h \<and>
        list_all (\<lambda>l. head_weight slot_of t l \<le> head_weight slot_of t h) (tower_leaves t))"

lemma tower_inv_descending: "tower_inv slot_of t \<Longrightarrow> descending (slot_rank slot_of) (nodes t)"
  unfolding descending_def slot_rank_def
  by (auto dest!: tower_inv_nodeD simp: node_ok_def word_less_nat_alt)

lemma tower_tip:
  assumes "tower_inv slot_of t" "map_of (nodes t) h = Some n" "tower_root_slot t \<le> node_slot n"
  shows "tower_leaves t \<noteq> []"
proof -
  define A where "A = {x. \<exists>a. map_of (nodes t) x = Some a \<and> tower_root_slot t \<le> node_slot a}"
  have fin: "finite A" by (rule finite_subset[OF _ finite_dom_map_of[of "nodes t"]]) (auto simp: A_def)
  have "h \<in> A" using assms(2,3) by (simp add: A_def)
  then have "Max (slot_of ` A) \<in> slot_of ` A" using fin by (intro Max_in) auto
  then obtain m where m: "m \<in> A" "Max (slot_of ` A) = slot_of m" by blast
  have top: "\<not> slot_of m < slot_of x" if "x \<in> A" for x
    using Max_ge[of "slot_of ` A" "slot_of x"] fin that m(2) by (simp add: not_less)
  obtain a where a: "map_of (nodes t) m = Some a" "tower_root_slot t \<le> node_slot a" using m(1) unfolding A_def by blast
  have ok: "node_ok slot_of t m a" by (rule tower_inv_nodeD[OF assms(1) a(1)])
  have "c \<notin> set (children a)" for c
  proof
    assume "c \<in> set (children a)"
    then obtain b where b: "map_of (nodes t) c = Some b" and lt: "slot_of m < slot_of c" using ok unfolding node_ok_def by blast
    have "slot_of m = node_slot a" "node_slot b = slot_of c" using ok tower_inv_nodeD[OF assms(1) b] by (simp_all add: node_ok_def)
    then have "c \<in> A" using a(2) b lt unfolding A_def by force
    then show False using top lt by blast
  qed
  then have "children a = []" by (cases "children a") auto
  then have "m \<in> set (tower_leaves t)" using a map_of_SomeD[OF a(1)] by (force simp: tower_leaves_def)
  then show ?thesis by auto
qed

lemma update_best_head_spec:
  assumes "tower_inv slot_of t"
  shows "\<exists>b. update_best_head t = Some (t\<lparr>best_head := b\<rparr>) \<and> (tower_leaves t \<noteq> [] \<longrightarrow> heaviest_head slot_of (t\<lparr>best_head := b\<rparr>))"
proof -
  have sel: "tower_leaves (t\<lparr>best_head := b\<rparr>) = tower_leaves t" "head_weight slot_of (t\<lparr>best_head := b\<rparr>) = head_weight slot_of t" for b
    by (simp_all add: tower_leaves_def fun_eq_iff head_weight_def)
  obtain r where r: "best_leaf (nodes t) (tower_leaves t) [] None = Some r" "r = None \<longrightarrow> tower_leaves t = []"
    "\<forall>h w sl. r = Some (h, w, sl) \<longrightarrow> h \<in> set (tower_leaves t) \<and> unat w = head_weight slot_of t h \<and>
       (\<forall>l\<in>set (tower_leaves t). head_weight slot_of t l \<le> unat w)"
    using best_leaf_spec[OF tower_inv_descending[OF assms], of "[]" "tower_leaves t" None]
    by (auto simp: memo_ok_def head_weight_def)
  show ?thesis
  proof (cases r)
    case None
    then show ?thesis using r(1,2) by (intro exI[of _ "best_head t"]) (simp add: update_best_head_def heaviest_head_def sel)
  next
    case (Some q)
    obtain h w sl where q: "q = (h, w, sl)" by (cases q)
    then show ?thesis
      using r(1,3) Some by (intro exI[of _ "Some h"]) (auto simp: update_best_head_def heaviest_head_def sel list_all_iff)
  qed
qed

subsection \<open>Runs\<close>

text \<open>A vote is dropped, refused after its validator was entered, or counted.\<close>

lemma tower_process_vote_cases:
  obtains (dropped) "tower_process_vote cx v t = Some (False, t)"
  | (refused) s0 s where "map_of (validator_states (ensure_state (vote_validator v) t)) (vote_validator v) = Some s0"
      "last_vote_slot s = last_vote_slot s0"
      "tower_process_vote cx v t = Some (False, store_state (vote_validator v) s (ensure_state (vote_validator v) t))"
  | (counted) s0 s k t4 where "map_of (validator_states (ensure_state (vote_validator v) t)) (vote_validator v) = Some s0"
      "last_vote_slot s0 < vote_slot v" "last_vote_slot s = vote_slot v"
      "t4 = record_vote v (store_state (vote_validator v) s ((ensure_state (vote_validator v) t)\<lparr>total_switches := k\<rparr>))"
      "tower_process_vote cx v t = map_option (\<lambda>t. (True, t\<lparr>tower_total_votes := tower_total_votes t + 1\<rparr>)) (update_best_head t4)"
proof (cases "vote_verify_signature cx v")
  case True
  let ?v = "vote_validator v"
  define t1 where "t1 = ensure_state ?v t"
  obtain s0 where s0: "map_of (validator_states t1) ?v = Some s0" using ensure_state_known[of ?v t] by (auto simp: t1_def)
  define s where "s = (if vote_parent_slot v = Some (tower_root_slot t1) \<and> tower_root_slot t1 < vote_slot v then reset_lockout s0 else s0)"
  define t2 where "t2 = store_state ?v s t1"
  define sw where "sw = (vote_parent_slot v \<noteq> Some (last_vote_slot s))"
  have last: "last_vote_slot s = last_vote_slot s0" by (simp add: s_def)
  have run: "tower_process_vote cx v t =
      (if vote_slot v \<le> last_vote_slot s then Some (False, t2)
       else if sw \<and> \<not> can_switch_fork (vote_slot v) s then Some (False, t2)
       else let t3 = (if sw then t2\<lparr>total_switches := total_switches t2 + 1\<rparr> else t2);
                t4 = record_vote v (store_state ?v (vs_process_vote v (if sw then switch_fork s else s)) t3)
            in map_option (\<lambda>t. (True, t\<lparr>tower_total_votes := tower_total_votes t + 1\<rparr>)) (update_best_head t4))"
    using True unfolding tower_process_vote_def Let_def t1_def[symmetric] sw_def
    by (simp only: s0 option.sel simp_thms if_False map_option_case flip: s_def t2_def)
  show ?thesis
  proof (cases "vote_slot v \<le> last_vote_slot s \<or> sw \<and> \<not> can_switch_fork (vote_slot v) s")
    case True
    then show ?thesis using refused[of s0 s] run s0 last by (auto simp: t1_def t2_def split: if_splits)
  next
    case False
    define k where "k = (if sw then total_switches t1 + 1 else total_switches t1)"
    have "store_state ?v s' (if sw then t2\<lparr>total_switches := total_switches t2 + 1\<rparr> else t2) = store_state ?v s' (t1\<lparr>total_switches := k\<rparr>)" for s'
      by (simp add: t2_def k_def store_state_def update_Some_unfold)
    then have "tower_process_vote cx v t = map_option (\<lambda>t. (True, t\<lparr>tower_total_votes := tower_total_votes t + 1\<rparr>))
        (update_best_head (record_vote v (store_state ?v (vs_process_vote v (if sw then switch_fork s else s)) (t1\<lparr>total_switches := k\<rparr>))))"
      using run False by (auto simp: Let_def)
    then show ?thesis
      using counted[of s0 "vs_process_vote v (if sw then switch_fork s else s)" _ k, OF _ _ _ refl] s0 last False
      by (simp add: t1_def not_le)
  qed
qed (auto intro!: dropped simp: tower_process_vote_def)

lemma tower_process_vote_tally:
  assumes "tally_inv t" "tower_process_vote cx v t = Some (b, t')"
  shows "tally_inv t'"
proof (cases rule: tower_process_vote_cases[of cx v t])
  case (counted s0 s k t4)
  have "tally_inv t4" unfolding counted(4)
    by (rule record_vote_tally) (simp_all add: store_state_tally ensure_state_tally assms(1))
  then show ?thesis using assms(2) unfolding counted(5)
    by (auto simp: update_best_head_def split: option.splits)
qed (use assms in \<open>auto simp: store_state_tally ensure_state_tally\<close>)

lemma record_vote_root [simp]: "tower_root_slot (record_vote v t) = tower_root_slot t"
  by (simp add: record_vote_def link_child_def count_vote_def Let_def split: option.split)

lemma record_vote_known: "\<exists>n. map_of (nodes (record_vote v t)) (vote_block_hash v) = Some n"
  by (auto simp: record_vote_def link_child_def count_vote_def Let_def update_conv' split: option.split)

lemma tower_process_vote_spec:
  assumes "tower_inv slot_of t" "vote_ok slot_of v"
  shows "\<exists>b t'. tower_process_vote cx v t = Some (b, t') \<and> tower_inv slot_of t' \<and> (b \<and> tower_root_slot t \<le> vote_slot v \<longrightarrow> heaviest_head slot_of t')"
proof (cases rule: tower_process_vote_cases[of cx v t])
  case dropped
  then show ?thesis using assms(1) by blast
next
  case (refused s0 s)
  have "tower_inv slot_of (store_state (vote_validator v) s (ensure_state (vote_validator v) t))"
    by (rule store_state_inv[OF ensure_state_inv[OF assms(1)]]) (use refused(1,2) in simp)
  then show ?thesis using refused(3) by blast
next
  case (counted s0 s k t4)
  let ?v = "vote_validator v"
  let ?t1 = "(ensure_state ?v t)\<lparr>total_switches := k\<rparr>"
  have inv1: "tower_inv slot_of ?t1" using ensure_state_inv[OF assms(1)] by simp
  have inv3: "tower_inv slot_of (store_state ?v s ?t1)"
    by (rule store_state_inv[OF inv1]) (use counted(1-3) in simp)
  have inv4: "tower_inv slot_of t4" unfolding counted(4)
  proof (rule record_vote_inv[OF inv3 assms(2) _ counted(3)])
    fix h n assume "map_of (nodes (store_state ?v s ?t1)) h = Some n" "?v \<in> set (voters n)"
    then have "slot_of h \<le> last_vote_slot s0" using voter_slots[OF inv1, of h n ?v s0] counted(1) by simp
    then show "slot_of h < vote_slot v" using counted(2) by simp
  qed simp
  obtain n where n: "map_of (nodes t4) (vote_block_hash v) = Some n" using record_vote_known unfolding counted(4) by blast
  have "slot_of (vote_block_hash v) = vote_slot v" using assms(2) by (simp add: vote_ok_def)
  then have "node_slot n = vote_slot v" using tower_inv_nodeD[OF inv4 n] by (simp add: node_ok_def)
  moreover have "tower_root_slot t4 = tower_root_slot t" unfolding counted(4) by simp
  ultimately have tip: "tower_leaves t4 \<noteq> []" if "tower_root_slot t \<le> vote_slot v" using tower_tip[OF inv4 n] that by simp
  obtain b where b: "update_best_head t4 = Some (t4\<lparr>best_head := b\<rparr>)"
      "tower_leaves t4 \<noteq> [] \<Longrightarrow> heaviest_head slot_of (t4\<lparr>best_head := b\<rparr>)"
    using update_best_head_spec[OF inv4] by blast
  have "heaviest_head slot_of (t'\<lparr>tower_total_votes := m\<rparr>) = heaviest_head slot_of t'" for t' m
    by (simp add: heaviest_head_def tower_leaves_def head_weight_def)
  moreover have "tower_process_vote cx v t = Some (True, t4\<lparr>best_head := b, tower_total_votes := tower_total_votes t4 + 1\<rparr>)"
    using counted(5) b(1) by simp
  moreover have "tower_inv slot_of (t4\<lparr>best_head := b, tower_total_votes := tower_total_votes t4 + 1\<rparr>)" using inv4 by simp
  ultimately show ?thesis using b(2) tip by blast
qed

lemma advance_root_inv:
  assumes "tower_inv slot_of t"
  shows "tower_inv slot_of (advance_root r t)"
proof -
  define f where "f s = (let s = vs_update_root r s in if last_vote_slot s \<le> r then reset_lockout s else s)" for s
  define sts where "sts = map (\<lambda>(v, s). (v, f s)) (validator_states t)"
  have dist: "distinct (map fst (nodes t))" "distinct (map fst (validator_states t))"
    using assms by (simp_all add: tower_inv_def)
  have "map_of sts v = map_option f (map_of (validator_states t) v)" for v
    by (simp add: sts_def map_of_map)
  then have inv: "tower_inv slot_of (t\<lparr>validator_states := sts\<rparr>)"
    by (intro tower_inv_states[OF assms]) (use dist in \<open>auto simp: sts_def f_def Let_def comp_def case_prod_unfold\<close>)
  let ?t = "t\<lparr>validator_states := sts\<rparr>" and ?ns = "filter (\<lambda>(_, n). r \<le> node_slot n) (nodes t)"
  have t': "advance_root r t = ?t\<lparr>tower_root_slot := r, nodes := ?ns, slot_to_hash := filter (\<lambda>(sl, _). r \<le> sl) (slot_to_hash t)\<rparr>"
    by (simp add: advance_root_def sts_def f_def)
  have sub: "map_of ?ns h = Some n \<Longrightarrow> map_of (nodes ?t) h = Some n" for h n
    using map_of_filter_Some[OF dist(1)] by simp
  have sel: "nodes (advance_root r t) = ?ns" "validator_states (advance_root r t) = validator_states ?t"
    "slot_to_hash (advance_root r t) = filter (\<lambda>(sl, _). r \<le> sl) (slot_to_hash t)" by (simp_all add: t')
  have "distinct (map fst ?ns)" using dist(1) by (simp add: distinct_map_filter)
  moreover have "list_all (\<lambda>(s, h). slot_of h = s) (filter (\<lambda>(sl, _). r \<le> sl) (slot_to_hash t))"
    using assms by (auto simp: tower_inv_def list_all_iff)
  moreover have "node_ok slot_of (advance_root r t) h n" if h: "map_of ?ns h = Some n" for h n
  proof -
    have n: "node_ok slot_of ?t h n" using sub[OF h] tower_inv_nodeD[OF inv] by blast
    have r: "r \<le> slot_of h" using h n by (auto simp: node_ok_def dest!: map_of_SomeD)
    have "map_of ?ns c \<noteq> None" if "c \<in> set (children n)" for c
    proof -
      obtain m where m: "map_of (nodes t) c = Some m" and lt: "slot_of h < slot_of c" using n \<open>c \<in> set (children n)\<close> by (auto simp: node_ok_def)
      have "r \<le> node_slot m" using tower_inv_nodeD[OF assms m] r lt by (simp add: node_ok_def)
      then have "(c, m) \<in> set ?ns" using map_of_SomeD[OF m] by simp
      then show ?thesis by (metis map_of_eq_None_iff fst_conv image_eqI)
    qed
    then show ?thesis using n unfolding node_ok_def sel by blast
  qed
  moreover have "\<forall>h h' n n'. map_of ?ns h = Some n \<longrightarrow> map_of ?ns h' = Some n' \<longrightarrow> slot_of h = slot_of h' \<longrightarrow>
      set (voters n) \<inter> set (voters n') \<noteq> {} \<longrightarrow> h = h'"
    using sub tower_inv_disjoint[OF inv] by blast
  ultimately show ?thesis
    using inv unfolding tower_inv_def sel by blast
qed

lemma register_validator_inv: "tower_inv slot_of t \<Longrightarrow> tower_inv slot_of (register_validator v stake t)"
  unfolding register_validator_def by (rule ensure_state_inv) simp

text \<open>
  A run registers validators, processes votes and advances the root, in any order. Votes may be
  asked to agree on the slots of blocks, and registrations not to lower the stake of a validator
  that has voted for a block the tower still holds.
\<close>

datatype tower_op = TRegister pubkey u64 | TVote vote | TRoot u64

fun tower_step :: "('z) crypto_scheme \<Rightarrow> tower \<Rightarrow> tower_op \<Rightarrow> tower option" where
  "tower_step cx t (TRegister v stake) = Some (register_validator v stake t)"
| "tower_step cx t (TVote v) = map_option snd (tower_process_vote cx v t)"
| "tower_step cx t (TRoot r) = Some (advance_root r t)"

fun tower_run :: "('z) crypto_scheme \<Rightarrow> tower_op list \<Rightarrow> tower \<Rightarrow> tower option" where
  "tower_run cx [] t = Some t"
| "tower_run cx (op # ops) t = Option.bind (tower_step cx t op) (tower_run cx ops)"

fun stakes_kept :: "('z) crypto_scheme \<Rightarrow> tower_op list \<Rightarrow> tower \<Rightarrow> bool" where
  "stakes_kept cx [] t = True"
| "stakes_kept cx (op # ops) t \<longleftrightarrow>
     (case op of TRegister v stake \<Rightarrow> registration_ok t v stake | _ \<Rightarrow> True) \<and>
     (case tower_step cx t op of None \<Rightarrow> True | Some t \<Rightarrow> stakes_kept cx ops t)"

definition op_ok :: "(hash32 \<Rightarrow> u64) \<Rightarrow> tower_op \<Rightarrow> bool" where
  "op_ok slot_of op = (case op of TVote v \<Rightarrow> vote_ok slot_of v | _ \<Rightarrow> True)"

lemma stakes_kept_votes: "list_all (\<lambda>op. \<forall>v stake. op \<noteq> TRegister v stake) ops \<Longrightarrow> stakes_kept cx ops t"
  by (induction ops arbitrary: t) (auto split: tower_op.split option.split)

lemma tower_new_inv: "tower_inv slot_of (tower_new genesis)" "tally_inv (tower_new genesis)"
  by (simp_all add: tower_new_def tower_inv_def tally_inv_def)

lemma tower_step_spec:
  assumes "tower_inv slot_of t" "op_ok slot_of op"
  shows "\<exists>t'. tower_step cx t op = Some t' \<and> tower_inv slot_of t'"
  using assms tower_process_vote_spec[OF assms(1), of _ cx]
  by (cases op) (fastforce simp: op_ok_def register_validator_inv advance_root_inv)+

lemma tower_run_spec:
  "tower_inv slot_of t \<Longrightarrow> list_all (op_ok slot_of) ops \<Longrightarrow> \<exists>t'. tower_run cx ops t = Some t' \<and> tower_inv slot_of t'"
proof (induction ops arbitrary: t)
  case (Cons op ops)
  then obtain t1 where "tower_step cx t op = Some t1" "tower_inv slot_of t1" using tower_step_spec[of slot_of t op cx] by auto
  then show ?case using Cons.IH[of t1] Cons.prems(2) by simp
qed simp

lemma tower_run_tally: "tower_run cx ops t = Some t' \<Longrightarrow> stakes_kept cx ops t \<Longrightarrow> tally_inv t \<Longrightarrow> tally_inv t'"
proof (induction ops arbitrary: t)
  case (Cons op ops)
  then obtain t1 where t1: "tower_step cx t op = Some t1" "tower_run cx ops t1 = Some t'" by (auto simp: bind_eq_Some_conv)
  have "tally_inv t1" using t1(1) Cons.prems(2,3)
    by (cases op) (auto simp: register_validator_tally advance_root_tally dest: tower_process_vote_tally)
  then show ?case using Cons.IH[OF t1(2)] Cons.prems(2) t1(1) by simp
qed simp

text \<open>Signed votes of concrete validators, for witnesses.\<close>

definition demo_vote :: "pubkey \<Rightarrow> u64 \<Rightarrow> hash32 \<Rightarrow> u64 option \<Rightarrow> vote" where
  "demo_vote key slot h parent = vote_sign demo_crypto key (vote_new demo_crypto 0 key slot h parent)"

lemma demo_vote_sel [simp]:
  "vote_validator (demo_vote k sl h p) = k" "vote_slot (demo_vote k sl h p) = sl" "vote_block_hash (demo_vote k sl h p) = h"
  "vote_parent_slot (demo_vote k sl h p) = p"
  by (simp_all add: demo_vote_def vote_sign_def vote_new_def Let_def demo_crypto_def crypto.defs)

lemma demo_vote_verifies [simp]: "vote_verify_signature demo_crypto (demo_vote k sl h p)"
  unfolding demo_vote_def by (rule vote_sign_verifies[OF demo_crypto_correct])


lemmas tower_defs = tower_process_vote_def Let_def ensure_state_def store_state_def record_vote_def count_vote_def
  link_child_def update_best_head_def tower_leaves_def better_head_def can_switch_fork_def
  lockout_slots_def switch_fork_def reset_lockout_def vs_process_vote_def vote_state_new_def stake_of_def
  DEFAULT_STAKE_def register_validator_def tower_new_def saturating_add_def

lemmas tower_eval = tower_defs chain_weight.simps

text \<open>The state of a validator of a concrete run after a vote that switched forks.\<close>

definition demo_voter :: "pubkey \<Rightarrow> u64 \<Rightarrow> hash32 \<Rightarrow> vote_state" where
  "demo_voter k sl h = vs_process_vote (demo_vote k sl h None) (switch_fork (vote_state_new k 0))"

lemma demo_voter_sel [simp]: "last_vote_slot (demo_voter k sl h) = sl"
  by (simp add: demo_voter_def)

lemma vote_state_new_sel [simp]:
  "last_vote_slot (vote_state_new k r) = 0" "can_switch_fork sl (vote_state_new k r) \<longleftrightarrow> 1 \<le> sl"
  by (simp_all add: vote_state_new_def can_switch_fork_def lockout_slots_def)

lemmas tower_steps = tower_process_vote_def Let_def ensure_state_def store_state_def record_vote_def count_vote_def
  link_child_def update_best_head_def tower_leaves_def better_head_def stake_of_def demo_voter_def[symmetric] saturating_add_def chain_weight.simps

definition demo_registered :: "u64 \<Rightarrow> u64 \<Rightarrow> tower" where
  "demo_registered a b = \<lparr>nodes = [], validator_states = [(1, vote_state_new 1 0), (2, vote_state_new 2 0)], stakes = [(1, a), (2, b)],
     slot_to_hash = [], tower_root_slot = 0, best_head = None, tower_total_votes = 0, total_switches = 0\<rparr>"

definition demo_tower :: tower where
  "demo_tower = \<lparr>nodes = [(40, \<lparr>node_block_hash = 40, node_slot = 4, node_parent_slot = None, node_parent_hash = None,
       weight = 5, voters = [1], children = []\<rparr>)],
     validator_states = [(1, demo_voter 1 4 40), (2, vote_state_new 2 0)], stakes = [(1, 5), (2, 1)],
     slot_to_hash = [(4, 40)], tower_root_slot = 0, best_head = Some 40, tower_total_votes = 1, total_switches = 1\<rparr>"

lemma demo_first_vote: "tower_process_vote demo_crypto (demo_vote 1 4 40 None) (demo_registered 5 1) = Some (True, demo_tower)"
  by (simp add: tower_steps demo_registered_def demo_tower_def)

definition demo_tower' :: tower where
  "demo_tower' = \<lparr>nodes = [(40, \<lparr>node_block_hash = 40, node_slot = 4, node_parent_slot = None, node_parent_hash = None,
       weight = 5, voters = [1], children = [60]\<rparr>),
       (60, \<lparr>node_block_hash = 60, node_slot = 6, node_parent_slot = Some 4, node_parent_hash = Some 40,
       weight = 5, voters = [1], children = []\<rparr>)],
     validator_states = [(1, vs_process_vote (demo_vote 1 6 60 (Some 4)) (demo_voter 1 4 40)), (2, vote_state_new 2 0)], stakes = [(1, 5), (2, 1)],
     slot_to_hash = [(4, 40), (6, 60)], tower_root_slot = 0, best_head = Some 60, tower_total_votes = 2, total_switches = 1\<rparr>"

lemma demo_second_vote: "tower_process_vote demo_crypto (demo_vote 1 6 60 (Some 4)) demo_tower = Some (True, demo_tower')"
  by (simp add: tower_steps demo_tower_def demo_tower'_def)

definition demo_ops :: "tower_op list" where
  "demo_ops = [TRegister 1 5, TRegister 2 1, TVote (demo_vote 1 4 40 None)]"

lemma demo_registered_run:
  "tower_run cx (TRegister 1 a # TRegister 2 b # ops) (tower_new 0) = tower_run cx ops (demo_registered a b)"
  by (simp add: register_validator_def tower_new_def ensure_state_def demo_registered_def)

lemma demo_runs:
  "tower_run demo_crypto demo_ops (tower_new 0) = Some demo_tower"
  "tower_run demo_crypto (demo_ops @ [TVote (demo_vote 1 6 60 (Some 4))]) (tower_new 0) = Some demo_tower'"
  unfolding demo_ops_def append_Cons append_Nil demo_registered_run by (simp_all add: demo_first_vote demo_second_vote)

lemma demo_ops_ok: "list_all (op_ok (\<lambda>h. if h = 40 then 4 else 6)) (demo_ops @ [TVote (demo_vote 1 6 60 (Some 4))])"
  by (simp add: demo_ops_def op_ok_def vote_ok_def)

lemma demo_stakes_kept: "stakes_kept demo_crypto (demo_ops @ [TVote (demo_vote 1 6 60 (Some 4))]) (tower_new 0)"
proof -
  have "registration_ok t v a" if "nodes t = []" for t v a using that by (simp add: registration_ok_def)
  then have reg: "stakes_kept cx (TRegister 1 a # TRegister 2 b # ops) (tower_new 0) = stakes_kept cx ops (register_validator 2 b (register_validator 1 a (tower_new 0)))"
    for cx a b ops by (simp add: register_validator_def tower_new_def)
  show ?thesis unfolding demo_ops_def append_Cons append_Nil reg by (rule stakes_kept_votes) simp
qed


text \<open>
  The condition on the slots is needed: a validator with ten elevenths of the stake votes for one
  block of slot 4 and then, under slot 7, for another, which stands at slot 4 as well. Both are
  then confirmed.
\<close>

definition forked_ops :: "tower_op list" where
  "forked_ops = [TRegister 1 1, TRegister 2 10, TVote (demo_vote 2 4 40 None), TVote (demo_vote 1 4 41 None), TVote (demo_vote 2 7 41 (Some 4))]"

definition forked_node :: "hash32 \<Rightarrow> u64 \<Rightarrow> pubkey list \<Rightarrow> hash32 list \<Rightarrow> tower_node" where
  "forked_node h w vs cs = \<lparr>node_block_hash = h, node_slot = 4, node_parent_slot = None, node_parent_hash = None, weight = w, voters = vs, children = cs\<rparr>"

definition forked_tower :: tower where
  "forked_tower = \<lparr>nodes = [(40, forked_node 40 10 [2] []), (41, forked_node 41 1 [1] [])],
     validator_states = [(1, demo_voter 1 4 41), (2, demo_voter 2 4 40)], stakes = [(1, 1), (2, 10)],
     slot_to_hash = [(4, 41)], tower_root_slot = 0, best_head = Some 40, tower_total_votes = 2, total_switches = 2\<rparr>"

lemma forked_votes:
  "tower_run demo_crypto [TVote (demo_vote 2 4 40 None), TVote (demo_vote 1 4 41 None)] (demo_registered 1 10) = Some forked_tower"
proof -
  have 1: "tower_process_vote demo_crypto (demo_vote 2 4 40 None) (demo_registered 1 10) = Some (True,
     \<lparr>nodes = [(40, forked_node 40 10 [2] [])], validator_states = [(1, vote_state_new 1 0), (2, demo_voter 2 4 40)],
      stakes = [(1, 1), (2, 10)], slot_to_hash = [(4, 40)], tower_root_slot = 0, best_head = Some 40, tower_total_votes = 1, total_switches = 1\<rparr>)"
    by (simp add: tower_steps demo_registered_def forked_node_def)
  have 2: "tower_process_vote demo_crypto (demo_vote 1 4 41 None)
     \<lparr>nodes = [(40, forked_node 40 10 [2] [])], validator_states = [(1, vote_state_new 1 0), (2, demo_voter 2 4 40)],
      stakes = [(1, 1), (2, 10)], slot_to_hash = [(4, 40)], tower_root_slot = 0, best_head = Some 40, tower_total_votes = 1, total_switches = 1\<rparr>
     = Some (True, forked_tower)"
    by (simp add: tower_steps forked_node_def forked_tower_def)
  show ?thesis by (simp add: 1 2)
qed

lemma vote_under_other_slot_confirms_both:
  "\<exists>t n n'. tower_run demo_crypto forked_ops (tower_new 0) = Some t \<and> map_of (nodes t) 40 = Some n \<and> map_of (nodes t) 41 = Some n' \<and>
     node_slot n = 4 \<and> node_slot n' = 4 \<and> supermajority t n \<and> supermajority t n'"
proof -
  let ?t = "forked_tower\<lparr>nodes := [(40, forked_node 40 10 [2] []), (41, forked_node 41 11 [1, 2] [41])],
    validator_states := [(1, demo_voter 1 4 41), (2, vs_process_vote (demo_vote 2 7 41 (Some 4)) (demo_voter 2 4 40))],
    slot_to_hash := [(4, 41), (7, 41)], tower_total_votes := 3\<rparr>"
  have third: "tower_process_vote demo_crypto (demo_vote 2 7 41 (Some 4)) forked_tower = Some (True, ?t)"
    by (simp add: tower_steps forked_node_def forked_tower_def)
  have append: "tower_run cx (xs @ ys) t = Option.bind (tower_run cx xs t) (tower_run cx ys)" for cx xs ys t
    by (induction xs arbitrary: t) (auto intro: Option.bind_cong)
  have "tower_run demo_crypto forked_ops (tower_new 0) = Some ?t"
    unfolding forked_ops_def demo_registered_run
    using append[of demo_crypto "[TVote (demo_vote 2 4 40 None), TVote (demo_vote 1 4 41 None)]" "[TVote (demo_vote 2 7 41 (Some 4))]" "demo_registered 1 10"]
    unfolding forked_votes by (simp add: third)
  moreover have "total_stake ?t = 11" by (simp add: total_stake_def forked_tower_def saturating_add_def Let_def)
  ultimately show ?thesis by (simp add: supermajority_def saturating_mul_def forked_node_def)
qed



subsection \<open>A chain that does not end\<close>

lemma chain_weight_cycle:
  assumes "chain_weight ns h memo = Some y" "map_of memo h = None" "map_of ns h = Some n" "node_parent_hash n = Some h"
  shows False
proof -
  have "map_of memo h = None \<longrightarrow> (\<forall>n. map_of ns h = Some n \<longrightarrow> node_parent_hash n \<noteq> Some h)"
  proof (rule chain_weight.raw_induct[OF _ assms(1)], goal_cases)
    case (1 f ns h memo y)
    show ?case
    proof (intro impI allI notI)
      fix n assume n: "map_of memo h = None" "map_of ns h = Some n" "node_parent_hash n = Some h"
      then obtain z where "f ns h memo = Some z" using 1(2) by (auto simp: bind_eq_Some_conv)
      then show False using 1(1)[of ns h memo z] n by blast
    qed
  qed
  then show ?thesis using assms(2-4) by blast
qed

definition cyclic_ops :: "tower_op list" where
  "cyclic_ops = [TVote (demo_vote 1 3 40 None), TVote (demo_vote 1 8 40 (Some 3)), TRoot 5, TVote (demo_vote 1 9 40 (Some 8))]"

definition cyclic_tower :: tower where
  "cyclic_tower = the (tower_run demo_crypto cyclic_ops (tower_new 0))"

lemma cyclic_tower_run: "tower_run demo_crypto cyclic_ops (tower_new 0) = Some cyclic_tower"
  unfolding cyclic_tower_def cyclic_ops_def by (simp add: tower_eval advance_root_def vs_update_root_def)

lemma cyclic_tower_state:
  "nodes cyclic_tower = [(40, \<lparr>node_block_hash = 40, node_slot = 9, node_parent_slot = Some 8, node_parent_hash = Some 40,
     weight = 1, voters = [1], children = [40]\<rparr>)]"
  "slot_to_hash cyclic_tower = [(8, 40), (9, 40)]" "tower_root_slot cyclic_tower = 5" "stakes cyclic_tower = []"
  "map_option last_vote_slot (map_of (validator_states cyclic_tower) 1) = Some 9"
  unfolding cyclic_tower_def cyclic_ops_def by (simp_all add: tower_eval advance_root_def vs_update_root_def)

text \<open>
  Without the condition a vote may never finish processing: one validator votes for a
  block under two slots, the root passes the first of them, and voting for the block again
  makes it its own parent. The next vote for a child of it walks the parents for ever.
\<close>

theorem tower_vote_never_returns:
  "tower_run demo_crypto cyclic_ops (tower_new 0) = Some cyclic_tower \<and>
   tower_process_vote demo_crypto (demo_vote 1 10 60 (Some 9)) cyclic_tower = None"
proof -
  obtain vs where vs: "map_of (validator_states cyclic_tower) 1 = Some vs" "last_vote_slot vs = 9"
    using cyclic_tower_state(5) by auto
  have cw: "chain_weight ns 60 [] = None"
    if "map_of ns 60 = Some n" "node_parent_hash n = Some 40" "map_of ns 40 = Some m" "node_parent_hash m = Some 40" for ns n m
    using chain_weight_cycle[of ns 40 "[]" _ m] that by (cases "chain_weight ns 40 []") (auto simp: chain_weight.simps[of ns 60])
  have cw': "chain_weight [(40, m), (60, n)] 60 [] = None" "chain_weight [(60, n), (40, m)] 60 [] = None"
    if "node_parent_hash n = Some 40" "node_parent_hash m = Some 40" for n m
    using cw that by simp_all
  show ?thesis using cyclic_tower_run by (simp add: tower_defs vs cyclic_tower_state cw')
qed

end
