(* ===== verification/Leader.thy ===== *)
theory Leader
  imports Votes Complex_Main
begin

text \<open>
  The leader schedule (\<^verbatim>\<open>crates/consensus/src/leader.rs\<close>). The share of a validator is computed
  in double precision; the operations the code uses on non-negative values are modelled as
  exact rational arithmetic followed by rounding to 53 significant bits, ties to even. The
  values stay between 2 to the -64 and 2 to the 129, far from the limits of the exponent.
\<close>

subsection \<open>Double precision\<close>

datatype f64 = Finite rat | Infinite | NotANumber

fun ilog2 :: "nat \<Rightarrow> nat" where
  "ilog2 n = (if n < 2 then 0 else Suc (ilog2 (n div 2)))"

declare ilog2.simps [simp del]

definition f64_exponent :: "rat \<Rightarrow> int" where
  "f64_exponent q =
     (if 1 \<le> q then int (ilog2 (nat \<lfloor>q\<rfloor>))
      else let n = nat \<lceil>1 / q\<rceil> in - int (if n \<le> 1 then 0 else Suc (ilog2 (n - 1))))"

definition round_half_even :: "rat \<Rightarrow> int" where
  "round_half_even q =
     (let f = \<lfloor>q\<rfloor>; r = q - of_int f
      in if r < 1 / 2 then f else if 1 / 2 < r then f + 1 else if even f then f else f + 1)"

definition f64_round :: "rat \<Rightarrow> rat" where
  "f64_round q =
     (if q \<le> 0 then 0
      else let e = f64_exponent q - 52;
               ulp = (if 0 \<le> e then 2 ^ nat e else 1 / 2 ^ nat (- e))
           in of_int (round_half_even (q / ulp)) * ulp)"

definition f64_of_u64 :: "u64 \<Rightarrow> f64" where
  "f64_of_u64 x = Finite (f64_round (of_nat (unat x)))"

fun f64_div :: "f64 \<Rightarrow> f64 \<Rightarrow> f64" where
  "f64_div (Finite a) (Finite b) =
     (if b = 0 then if a = 0 then NotANumber else Infinite else Finite (f64_round (a / b)))"
| "f64_div (Finite a) Infinite = Finite 0"
| "f64_div Infinite (Finite b) = Infinite"
| "f64_div _ _ = NotANumber"

fun f64_mult :: "f64 \<Rightarrow> f64 \<Rightarrow> f64" where
  "f64_mult (Finite a) (Finite b) = Finite (f64_round (a * b))"
| "f64_mult Infinite (Finite b) = (if b = 0 then NotANumber else Infinite)"
| "f64_mult (Finite a) Infinite = (if a = 0 then NotANumber else Infinite)"
| "f64_mult Infinite Infinite = Infinite"
| "f64_mult _ _ = NotANumber"

fun u64_of_f64 :: "f64 \<Rightarrow> u64" where
  "u64_of_f64 (Finite q) = (if 2 ^ 64 \<le> \<lfloor>q\<rfloor> then - 1 else of_int \<lfloor>q\<rfloor>)"
| "u64_of_f64 Infinite = - 1"
| "u64_of_f64 NotANumber = 0"

subsection \<open>The schedule\<close>

record validator_stake =
  vst_validator :: pubkey
  vst_lamports :: u64
  vst_name :: string

record leader_schedule =
  ls_validators :: "validator_stake list"
  ls_slots_per_leader :: u64
  ls_epoch_length :: u64
  ls_current_epoch :: u64
  ls_schedule :: "nat list"

definition proportional_slots :: "u64 \<Rightarrow> u64 \<Rightarrow> validator_stake \<Rightarrow> u64" where
  "proportional_slots total_stake total_slots v =
     (let proportion = f64_div (f64_of_u64 (vst_lamports v)) (f64_of_u64 total_stake)
      in u64_of_f64 (f64_mult proportion (f64_of_u64 total_slots)))"

fun assign_slots :: "u64 \<Rightarrow> u64 \<Rightarrow> nat \<Rightarrow> validator_stake list \<Rightarrow> nat list" where
  "assign_slots total_stake total_slots idx [] = []"
| "assign_slots total_stake total_slots idx (v # vs) =
     replicate (unat (proportional_slots total_stake total_slots v)) idx @ assign_slots total_stake total_slots (Suc idx) vs"

function fill_round_robin :: "nat \<Rightarrow> nat \<Rightarrow> nat \<Rightarrow> nat list \<Rightarrow> nat list" where
  "fill_round_robin n_validators total_slots idx sched =
     (if length sched < total_slots then fill_round_robin n_validators total_slots (idx + 1) (sched @ [idx mod n_validators]) else sched)"
  by pat_completeness auto
termination
  by (relation "measure (\<lambda>(n, total_slots, idx, sched). total_slots - length sched)") auto

declare fill_round_robin.simps [simp del]

definition compute_schedule :: "leader_schedule \<Rightarrow> leader_schedule" where
  "compute_schedule ls =
     (let total_stake = sum_list (map vst_lamports (ls_validators ls));
          total_slots = ls_epoch_length ls;
          sched = assign_slots total_stake total_slots 0 (ls_validators ls)
      in ls\<lparr>ls_schedule := fill_round_robin (length (ls_validators ls)) (unat total_slots) 0 sched\<rparr>)"

definition by_stake :: "validator_stake list \<Rightarrow> validator_stake list" where
  "by_stake validators = sort_key (\<lambda>v. - int (unat (vst_lamports v))) validators"

definition leader_schedule_new :: "validator_stake list \<Rightarrow> u64 \<Rightarrow> u64 \<Rightarrow> leader_schedule outcome" where
  "leader_schedule_new validators slots_per_leader epoch_length =
     (if validators = [] then Panicked
      else
        Returned (compute_schedule
          \<lparr>ls_validators = by_stake validators, ls_slots_per_leader = slots_per_leader,
           ls_epoch_length = epoch_length, ls_current_epoch = 0, ls_schedule = []\<rparr>))"

definition leader_index_for_slot :: "u64 \<Rightarrow> leader_schedule \<Rightarrow> nat outcome" where
  "leader_index_for_slot slot ls =
     (if ls_schedule ls = [] then Panicked
      else Returned (ls_schedule ls ! (unat slot mod length (ls_schedule ls))))"

definition leader_for_slot :: "u64 \<Rightarrow> leader_schedule \<Rightarrow> validator_stake outcome" where
  "leader_for_slot slot ls =
     (case leader_index_for_slot slot ls of
        Panicked \<Rightarrow> Panicked
      | Returned idx \<Rightarrow> if idx < length (ls_validators ls) then Returned (ls_validators ls ! idx) else Panicked)"

definition is_leader :: "pubkey \<Rightarrow> u64 \<Rightarrow> leader_schedule \<Rightarrow> bool outcome" where
  "is_leader v slot ls = map_outcome (\<lambda>l. vst_validator l = v) (leader_for_slot slot ls)"

definition slots_for_leader :: "pubkey \<Rightarrow> leader_schedule \<Rightarrow> u64 list" where
  "slots_for_leader v ls =
     map (\<lambda>(slot, _). of_nat slot)
       (filter (\<lambda>(_, idx). vst_validator (ls_validators ls ! idx) = v) (enumerate 0 (ls_schedule ls)))"

definition next_leader :: "u64 \<Rightarrow> leader_schedule \<Rightarrow> validator_stake outcome" where
  "next_leader after_slot ls = leader_for_slot (after_slot + 1) ls"

definition advance_epoch :: "leader_schedule \<Rightarrow> leader_schedule" where
  "advance_epoch ls = compute_schedule (ls\<lparr>ls_current_epoch := ls_current_epoch ls + 1\<rparr>)"

definition debug_schedule :: "leader_schedule \<Rightarrow> (u64 \<times> string) list" where
  "debug_schedule ls = map (\<lambda>(slot, idx). (of_nat slot, vst_name (ls_validators ls ! idx))) (enumerate 0 (ls_schedule ls))"

subsection \<open>Every slot has a leader\<close>

lemma assign_slots_range: "set (assign_slots st sl idx vs) \<subseteq> {idx..<idx + length vs}"
  by (induction st sl idx vs rule: assign_slots.induct) auto

lemma fill_round_robin_spec:
  "0 < n \<Longrightarrow> set sched \<subseteq> {..<n} \<Longrightarrow> set (fill_round_robin n total_slots idx sched) \<subseteq> {..<n} \<and>
     length (fill_round_robin n total_slots idx sched) = max total_slots (length sched)"
proof (induction n total_slots idx sched rule: fill_round_robin.induct)
  case (1 n total_slots idx sched)
  show ?case
  proof (cases "length sched < total_slots")
    case True
    then show ?thesis using 1 by (simp add: fill_round_robin.simps[of n total_slots idx sched])
  qed (use 1 in \<open>simp add: fill_round_robin.simps[of n total_slots idx sched]\<close>)
qed

lemma compute_schedule_spec:
  assumes "ls_validators ls \<noteq> []"
  shows "set (ls_schedule (compute_schedule ls)) \<subseteq> {..<length (ls_validators ls)}"
    "unat (ls_epoch_length ls) \<le> length (ls_schedule (compute_schedule ls))"
    "ls_validators (compute_schedule ls) = ls_validators ls" "ls_epoch_length (compute_schedule ls) = ls_epoch_length ls"
proof -
  let ?s = "assign_slots (sum_list (map vst_lamports (ls_validators ls))) (ls_epoch_length ls) 0 (ls_validators ls)"
  have "set ?s \<subseteq> {..<length (ls_validators ls)}" using assign_slots_range[of _ _ 0 "ls_validators ls"] by fastforce
  then show "set (ls_schedule (compute_schedule ls)) \<subseteq> {..<length (ls_validators ls)}"
    "unat (ls_epoch_length ls) \<le> length (ls_schedule (compute_schedule ls))"
    using fill_round_robin_spec[of "length (ls_validators ls)" ?s] assms by (simp_all add: compute_schedule_def Let_def)
qed (simp_all add: compute_schedule_def Let_def)

subsection \<open>Rounding errors\<close>

abbreviation f64_eps :: rat where
  "f64_eps \<equiv> 1 / 2 ^ 53"

lemma ilog2_bounds:
  assumes "0 < n"
  shows "2 ^ ilog2 n \<le> n" "n < 2 ^ Suc (ilog2 n)"
proof -
  have "2 ^ ilog2 n \<le> n \<and> n < 2 ^ Suc (ilog2 n)" using assms
  proof (induction n rule: ilog2.induct)
    case (1 n)
    show ?case
    proof (cases "n < 2")
      case False
      then have "2 ^ ilog2 (n div 2) \<le> n div 2 \<and> n div 2 < 2 ^ Suc (ilog2 (n div 2))" using 1 by simp
      then show ?thesis using False by (simp add: ilog2.simps[of n]) linarith
    qed (use 1 in \<open>simp add: ilog2.simps[of n]\<close>)
  qed
  then show "2 ^ ilog2 n \<le> n" "n < 2 ^ Suc (ilog2 n)" by simp_all
qed

lemma f64_exponent_ge_1:
  assumes "1 \<le> q"
  shows "f64_exponent q = int (ilog2 (nat \<lfloor>q\<rfloor>))" "2 ^ ilog2 (nat \<lfloor>q\<rfloor>) \<le> q"
proof -
  have f: "1 \<le> \<lfloor>q\<rfloor>" using assms by simp
  have "(2 :: rat) ^ ilog2 (nat \<lfloor>q\<rfloor>) = of_nat (2 ^ ilog2 (nat \<lfloor>q\<rfloor>))" by simp
  also have "\<dots> \<le> of_nat (nat \<lfloor>q\<rfloor>)" using ilog2_bounds(1)[of "nat \<lfloor>q\<rfloor>"] f of_nat_le_iff by fastforce
  also have "\<dots> = of_int \<lfloor>q\<rfloor>" using f by simp
  also have "\<dots> \<le> q" by simp
  finally show "2 ^ ilog2 (nat \<lfloor>q\<rfloor>) \<le> q" .
qed (use assms in \<open>simp add: f64_exponent_def\<close>)

lemma f64_exponent_lt_1:
  assumes "0 < q" "q < 1"
  shows "\<exists>k. f64_exponent q = - int k \<and> 1 / 2 ^ k \<le> q"
proof -
  define n where "n = nat \<lceil>1 / q\<rceil>"
  have "1 < 1 / q" using assms by simp
  then have "1 < \<lceil>1 / q\<rceil>" by (simp only: less_ceiling_iff of_int_1)
  then have n2: "2 \<le> n" unfolding n_def by linarith
  have "1 / q \<le> of_int \<lceil>1 / q\<rceil>" by simp
  also have "of_int \<lceil>1 / q\<rceil> = (of_nat n :: rat)" using n2 unfolding n_def by simp
  also have "n \<le> 2 ^ Suc (ilog2 (n - 1))" using ilog2_bounds(2)[of "n - 1"] n2 by simp
  then have "(of_nat n :: rat) \<le> 2 ^ Suc (ilog2 (n - 1))" by (metis of_nat_le_iff of_nat_numeral of_nat_power)
  finally have "1 / q \<le> 2 ^ Suc (ilog2 (n - 1))" .
  then have "1 / 2 ^ Suc (ilog2 (n - 1)) \<le> q" using assms by (simp add: field_simps)
  moreover have "f64_exponent q = - int (Suc (ilog2 (n - 1)))"
    using assms n2 by (simp add: f64_exponent_def Let_def n_def[symmetric])
  ultimately show ?thesis by blast
qed

lemma f64_ulp:
  assumes "0 < q" and "e = f64_exponent q - 52"
  shows "0 < (if 0 \<le> e then 2 ^ nat e else 1 / 2 ^ nat (- e) :: rat)"
    "(if 0 \<le> e then 2 ^ nat e else 1 / 2 ^ nat (- e) :: rat) * 2 ^ 52 \<le> q"
proof -
  show "(if 0 \<le> e then 2 ^ nat e else 1 / 2 ^ nat (- e) :: rat) * 2 ^ 52 \<le> q"
  proof (cases "1 \<le> q")
    case True
    note x = f64_exponent_ge_1[OF True]
    show ?thesis
    proof (cases "0 \<le> e")
      case True
      then have "nat e + 52 = ilog2 (nat \<lfloor>q\<rfloor>)" using x assms by simp
      then have "(2 :: rat) ^ nat e * 2 ^ 52 = 2 ^ ilog2 (nat \<lfloor>q\<rfloor>)" by (metis power_add)
      then show ?thesis using True x(2) by simp
    next
      case False
      then have "nat (- e) + ilog2 (nat \<lfloor>q\<rfloor>) = 52" using x assms by simp
      then have "(2 :: rat) ^ 52 = 2 ^ nat (- e) * 2 ^ ilog2 (nat \<lfloor>q\<rfloor>)" by (metis power_add)
      then have "(2 :: rat) ^ 52 / 2 ^ nat (- e) = 2 ^ ilog2 (nat \<lfloor>q\<rfloor>)" by (simp only: nonzero_mult_div_cancel_left power_not_zero zero_neq_numeral not_False_eq_True)
      then show ?thesis using False x(2) by simp
    qed
  next
    case False
    then obtain k where k: "f64_exponent q = - int k" "1 / 2 ^ k \<le> q" using f64_exponent_lt_1 assms by force
    then have "nat (- e) = k + 52" "\<not> 0 \<le> e" using assms by auto
    then show ?thesis using k(2) by (simp add: power_add)
  qed
qed simp

lemma round_half_even_error: "\<bar>of_int (round_half_even q) - q\<bar> \<le> 1 / 2"
proof -
  have "of_int \<lfloor>q\<rfloor> \<le> q" "q < of_int \<lfloor>q\<rfloor> + 1" by linarith+
  then show ?thesis unfolding round_half_even_def Let_def by (auto simp: abs_le_iff)
qed

lemma f64_round_error:
  assumes "0 \<le> q"
  shows "\<bar>f64_round q - q\<bar> \<le> q * f64_eps"
proof (cases "q = 0")
  case False
  then have q: "0 < q" using assms by simp
  define e where "e = f64_exponent q - 52"
  define ulp :: rat where "ulp = (if 0 \<le> e then 2 ^ nat e else 1 / 2 ^ nat (- e))"
  have ulp: "0 < ulp" "ulp * 2 ^ 52 \<le> q" using f64_ulp[OF q e_def] unfolding ulp_def by blast+
  have "f64_round q - q = (of_int (round_half_even (q / ulp)) - q / ulp) * ulp"
    using q ulp(1) by (simp add: f64_round_def Let_def e_def[symmetric] ulp_def[symmetric] algebra_simps)
  then have "\<bar>f64_round q - q\<bar> = \<bar>of_int (round_half_even (q / ulp)) - q / ulp\<bar> * ulp" using ulp(1) by (simp add: abs_mult)
  also have "\<dots> \<le> 1 / 2 * ulp" using round_half_even_error ulp(1) by (intro mult_right_mono) auto
  also have "\<dots> \<le> q * f64_eps" using ulp(2) by simp
  finally show ?thesis .
qed (simp add: f64_round_def)

lemma f64_round_bounds:
  assumes "0 \<le> q"
  shows "f64_round q \<le> q * (1 + f64_eps)" "q * (1 - f64_eps) \<le> f64_round q" "0 \<le> f64_round q"
proof -
  show a: "f64_round q \<le> q * (1 + f64_eps)" "q * (1 - f64_eps) \<le> f64_round q"
    using f64_round_error[OF assms] unfolding abs_le_iff by (simp_all only: distrib_left right_diff_distrib mult_1_right) linarith+
  have "0 \<le> q * (1 - f64_eps)" using assms by simp
  then show "0 \<le> f64_round q" using a(2) by linarith
qed

subsection \<open>The slots of a validator\<close>

definition fair_share :: "u64 \<Rightarrow> u64 \<Rightarrow> validator_stake \<Rightarrow> rat" where
  "fair_share total_stake total_slots v =
     of_nat (unat total_slots) * of_nat (unat (vst_lamports v)) / of_nat (unat total_stake)"

lemma scaled_le:
  fixes b c d p :: rat
  assumes "b \<le> d" "p \<le> b * c" "0 \<le> c"
  shows "p \<le> d * c"
  using assms mult_right_mono order_trans by blast

lemma scaled_ge:
  fixes b c d p :: rat
  assumes "d \<le> b" "b * c \<le> p" "0 \<le> c"
  shows "d * c \<le> p"
  using assms mult_right_mono order_trans by blast

lemma share_product_upper:
  fixes a t n p x l T N :: rat
  assumes "0 \<le> l" "0 < T" "0 \<le> N" and a: "0 \<le> a" "a \<le> l * (1 + f64_eps)" and t: "0 < t" "T * (1 - f64_eps) \<le> t"
    and n: "0 \<le> n" "n \<le> N * (1 + f64_eps)" and p: "0 \<le> p" "p \<le> a / t * (1 + f64_eps)" and x: "x \<le> p * n * (1 + f64_eps)"
  shows "x \<le> N * l / T * (1 + 1 / 2 ^ 50)"
proof -
  have "a / t \<le> l * (1 + f64_eps) / (T * (1 - f64_eps))" using assms by (intro frac_le) auto
  then have "p \<le> l * (1 + f64_eps) / (T * (1 - f64_eps)) * (1 + f64_eps)" using p(2) by (rule scaled_le) simp
  then have "p * n \<le> l * (1 + f64_eps) / (T * (1 - f64_eps)) * (1 + f64_eps) * (N * (1 + f64_eps))"
    using n p assms by (intro mult_mono) auto
  then have "x \<le> l * (1 + f64_eps) / (T * (1 - f64_eps)) * (1 + f64_eps) * (N * (1 + f64_eps)) * (1 + f64_eps)"
    using x by (rule scaled_le) simp
  also have "\<dots> = N * l / T * ((1 + f64_eps) ^ 4 / (1 - f64_eps))" by (simp only: power4_eq_xxxx times_divide_eq_left times_divide_eq_right divide_divide_eq_left mult.assoc mult.commute mult.left_commute)
  also have "\<dots> \<le> N * l / T * (1 + 1 / 2 ^ 50)" using assms by (intro mult_left_mono) (simp_all add: power_divide)
  finally show ?thesis .
qed

lemma share_product_lower:
  fixes a t n p x l T N :: rat
  assumes "0 \<le> l" "0 < T" "0 \<le> N" and a: "l * (1 - f64_eps) \<le> a" and t: "0 < t" "t \<le> T * (1 + f64_eps)"
    and n: "N * (1 - f64_eps) \<le> n" and p: "a / t * (1 - f64_eps) \<le> p" and x: "p * n * (1 - f64_eps) \<le> x"
  shows "N * l / T * (1 - 1 / 2 ^ 50) \<le> x"
proof -
  have l0: "0 \<le> l * (1 - f64_eps)" "0 \<le> N * (1 - f64_eps)" using assms by simp_all
  have "l * (1 - f64_eps) / (T * (1 + f64_eps)) \<le> a / t" using assms l0 by (intro frac_le) auto
  then have p': "l * (1 - f64_eps) / (T * (1 + f64_eps)) * (1 - f64_eps) \<le> p" using p by (rule scaled_ge) simp
  have "0 \<le> l * (1 - f64_eps) / (T * (1 + f64_eps)) * (1 - f64_eps)" using assms by simp
  then have "l * (1 - f64_eps) / (T * (1 + f64_eps)) * (1 - f64_eps) * (N * (1 - f64_eps)) \<le> p * n"
    using n p' l0 by (intro mult_mono) auto
  then have "l * (1 - f64_eps) / (T * (1 + f64_eps)) * (1 - f64_eps) * (N * (1 - f64_eps)) * (1 - f64_eps) \<le> x"
    using x by (rule scaled_ge) simp
  moreover have "l * (1 - f64_eps) / (T * (1 + f64_eps)) * (1 - f64_eps) * (N * (1 - f64_eps)) * (1 - f64_eps)
      = N * l / T * ((1 - f64_eps) ^ 4 / (1 + f64_eps))"
    by (simp only: power4_eq_xxxx times_divide_eq_left times_divide_eq_right divide_divide_eq_left mult.assoc mult.commute mult.left_commute)
  moreover have "N * l / T * (1 - 1 / 2 ^ 50) \<le> N * l / T * ((1 - f64_eps) ^ 4 / (1 + f64_eps))" using assms by (intro mult_left_mono) (simp_all add: power_divide)
  ultimately show ?thesis by simp
qed

lemma proportional_slots_bounds:
  assumes T: "total_stake \<noteq> 0" and le: "vst_lamports v \<le> total_stake" and N: "unat total_slots < 2 ^ 50"
  shows "of_nat (unat (proportional_slots total_stake total_slots v)) \<le> fair_share total_stake total_slots v * (1 + 1 / 2 ^ 50)"
    "fair_share total_stake total_slots v * (1 - 1 / 2 ^ 50) < of_nat (unat (proportional_slots total_stake total_slots v)) + 1"
proof -
  define l T N :: rat where lTN: "l = of_nat (unat (vst_lamports v))" "T = of_nat (unat total_stake)" "N = of_nat (unat total_slots)"
  have pos: "0 \<le> l" "0 < T" "0 \<le> N" "l \<le> T" "N \<le> 2 ^ 50" 
  proof -
    have "0 < unat total_stake" "unat (vst_lamports v) \<le> unat total_stake" "unat total_slots \<le> 2 ^ 50"
      using T le N by (simp_all add: unat_gt_0 word_le_nat_alt)
    then show "0 \<le> l" "0 < T" "0 \<le> N" "l \<le> T" "N \<le> 2 ^ 50" unfolding lTN
      by (simp_all only: of_nat_0_le_iff of_nat_0_less_iff of_nat_le_iff of_nat_le_numeral_power_cancel_iff)
  qed
  define a t n where atn: "a = f64_round l" "t = f64_round T" "n = f64_round N"
  define p where p: "p = f64_round (a / t)"
  define x where x: "x = f64_round (p * n)"
  note b = f64_round_bounds[OF pos(1)] f64_round_bounds[OF order_less_imp_le[OF pos(2)]] f64_round_bounds[OF pos(3)]
  have "0 < T * (1 - f64_eps)" using pos(2) by simp
  then have t0: "0 < t" using b(5) unfolding atn by (rule order_less_le_trans)
  have "0 \<le> a / t" using b(3) t0 by (simp add: atn)
  note bp = f64_round_bounds[OF this, folded p]
  have "0 \<le> p * n" using bp(3) b(9) by (simp add: atn)
  note bx = f64_round_bounds[OF this, folded x]
  have share: "fair_share total_stake total_slots v = N * l / T" by (simp add: fair_share_def lTN)
  have up: "x \<le> N * l / T * (1 + 1 / 2 ^ 50)"
    using share_product_upper[OF pos(1-3) _ _ t0 _ _ _ bp(3) bp(1) bx(1)] b unfolding atn by blast
  have low: "N * l / T * (1 - 1 / 2 ^ 50) \<le> x"
    using share_product_lower[OF pos(1-3) _ t0 _ _ bp(2) bx(2)] b unfolding atn by blast
  have "N * l / T \<le> N" using pos by (simp add: mult_left_mono pos_divide_le_eq)
  then have "N * l / T * (1 + 1 / 2 ^ 50) \<le> 2 ^ 50 * (1 + 1 / 2 ^ 50)" using pos by (intro mult_right_mono) auto
  then have x64: "\<lfloor>x\<rfloor> < 2 ^ 64" using up by (simp add: floor_less_iff)
  have slots: "proportional_slots total_stake total_slots v = of_int \<lfloor>x\<rfloor>"
  proof -
    have "f64_of_u64 (vst_lamports v) = Finite a" "f64_of_u64 total_stake = Finite t" "f64_of_u64 total_slots = Finite n"
      unfolding f64_of_u64_def atn lTN by (rule refl)+
    then show ?thesis using t0 x64 by (simp add: proportional_slots_def Let_def p[symmetric] x[symmetric])
  qed
  have "uint (of_int \<lfloor>x\<rfloor> :: u64) = \<lfloor>x\<rfloor>" using x64 bx(3) by (simp add: unsigned_of_int take_bit_int_eq_self)
  then have "unat (proportional_slots total_stake total_slots v) = nat \<lfloor>x\<rfloor>" unfolding slots by (simp flip: nat_uint_eq)
  then have u: "of_nat (unat (proportional_slots total_stake total_slots v)) = (of_int \<lfloor>x\<rfloor> :: rat)" using bx(3) by simp
  show "of_nat (unat (proportional_slots total_stake total_slots v)) \<le> fair_share total_stake total_slots v * (1 + 1 / 2 ^ 50)"
    unfolding u share using up of_int_floor_le order_trans by blast
  show "fair_share total_stake total_slots v * (1 - 1 / 2 ^ 50) < of_nat (unat (proportional_slots total_stake total_slots v)) + 1"
    unfolding u share using low by linarith
qed

subsection \<open>One epoch\<close>

abbreviation stakes_total :: "validator_stake list \<Rightarrow> nat" where
  "stakes_total vs \<equiv> sum_list (map (\<lambda>v. unat (vst_lamports v)) vs)"

lemma total_stake_exact: "stakes_total vs < 2 ^ 64 \<Longrightarrow> unat (sum_list (map vst_lamports vs)) = stakes_total vs"
proof (induction vs)
  case (Cons v vs)
  then show ?case by (simp add: unat_word_ariths)
qed simp

lemma stake_le_sum: "v \<in> set vs \<Longrightarrow> unat (vst_lamports v) \<le> stakes_total vs"
  by (induction vs) auto

lemma assign_slots_length: "length (assign_slots T N i vs) = sum_list (map (\<lambda>v. unat (proportional_slots T N v)) vs)"
  by (induction T N i vs rule: assign_slots.induct) simp_all

lemma proportional_slots_unstaked: "vst_lamports v = 0 \<Longrightarrow> proportional_slots 0 N v = 0"
  by (simp add: proportional_slots_def f64_of_u64_def f64_round_def)

lemma fair_shares_sum:
  assumes "unat T = stakes_total vs" "T \<noteq> 0"
  shows "sum_list (map (fair_share T N) vs) = of_nat (unat N)"
proof -
  have "sum_list (map (fair_share T N) ws) = of_nat (unat N) * of_nat (stakes_total ws) / of_nat (unat T)" for ws
    by (induction ws) (simp_all add: fair_share_def add_divide_distrib distrib_left)
  moreover have "(of_nat (unat T) :: rat) \<noteq> 0" using assms(2) by (simp only: of_nat_eq_0_iff unat_eq_0 not_False_eq_True)
  ultimately show ?thesis using assms(1) by (metis nonzero_mult_div_cancel_right)
qed

lemma of_nat_sum_list_map: "of_nat (sum_list (map f xs)) = sum_list (map (\<lambda>x. of_nat (f x)) xs)"
  by (induction xs) simp_all

lemma assign_slots_fits:
  assumes fits: "stakes_total vs < 2 ^ 64" and N: "unat N < 2 ^ 50" and T: "T = sum_list (map vst_lamports vs)"
  shows "length (assign_slots T N i vs) \<le> unat N"
proof (cases "T = 0")
  case True
  then have "stakes_total vs = 0" using total_stake_exact[OF fits] T by simp
  then have "\<And>v. v \<in> set vs \<Longrightarrow> vst_lamports v = 0" using stake_le_sum unat_eq_0 by fastforce
  then have "map (\<lambda>v. unat (proportional_slots T N v)) vs = map (\<lambda>v. 0) vs" using True proportional_slots_unstaked by simp
  then show ?thesis unfolding assign_slots_length by (simp only: sum_list_0)
next
  case False
  have u: "unat T = stakes_total vs" using total_stake_exact[OF fits] T by simp
  have "(of_nat (unat (proportional_slots T N v)) :: rat) \<le> fair_share T N v * (1 + 1 / 2 ^ 50)" if "v \<in> set vs" for v
    using proportional_slots_bounds(1)[OF False _ N] stake_le_sum[OF that] u by (simp only: word_le_nat_alt)
  then have "sum_list (map (\<lambda>v. of_nat (unat (proportional_slots T N v)) :: rat) vs) \<le> sum_list (map (\<lambda>v. fair_share T N v * (1 + 1 / 2 ^ 50)) vs)"
    by (intro sum_list_mono)
  also have "\<dots> = of_nat (unat N) * (1 + 1 / 2 ^ 50)"
    unfolding sum_list_mult_const fair_shares_sum[OF u False] by (rule refl)
  also have "\<dots> = of_nat (unat N) + of_nat (unat N) / 2 ^ 50" by (simp only: distrib_left mult_1_right times_divide_eq_right)
  also have "\<dots> < of_nat (unat N) + 1"
  proof -
    have "(of_nat (unat N) :: rat) < 2 ^ 50" using N by (simp only: of_nat_less_numeral_power_cancel_iff)
    then show ?thesis by (simp only: add_less_cancel_left) simp
  qed
  finally have "(of_nat (length (assign_slots T N i vs)) :: rat) < of_nat (unat N + 1)"
    by (simp only: assign_slots_length of_nat_sum_list_map of_nat_add of_nat_1)
  then show ?thesis by (simp only: of_nat_less_iff)
qed

lemma count_list_replicate_self: "count_list (replicate n x) x = n"
  by (induction n) simp_all

lemma assign_slots_count:
  assumes "i \<le> j" "j < i + length vs"
  shows "count_list (assign_slots T N i vs) j = unat (proportional_slots T N (vs ! (j - i)))"
  using assms
proof (induction T N i vs rule: assign_slots.induct)
  case (2 T N i v vs)
  show ?case
  proof (cases "j = i")
    case True
    have "j \<notin> set (assign_slots T N (Suc i) vs)" using assign_slots_range[of T N "Suc i" vs] True by auto
    then show ?thesis using True by (simp add: count_list_replicate_self)
  next
    case False
    then show ?thesis using 2 by (simp add: nth_Cons' count_list_0_iff)
  qed
qed simp

lemma fill_round_robin_append:
  "fill_round_robin n total_slots idx sched = sched @ map (\<lambda>k. k mod n) [idx..<idx + (total_slots - length sched)]"
proof (induction n total_slots idx sched rule: fill_round_robin.induct)
  case (1 n total_slots idx sched)
  show ?case
  proof (cases "length sched < total_slots")
    case True
    have e: "idx + (total_slots - length sched) = Suc idx + (total_slots - Suc (length sched))" using True by simp
    have "[idx..<idx + (total_slots - length sched)] = idx # [Suc idx..<Suc idx + (total_slots - Suc (length sched))]"
      unfolding e by (rule upt_conv_Cons) simp
    then show ?thesis using 1[OF True] True by (simp add: fill_round_robin.simps[of n total_slots idx sched])
  qed (simp add: fill_round_robin.simps[of n total_slots idx sched])
qed

text \<open>The slots left over are at most as many as there are validators.\<close>

lemma assign_slots_rest:
  assumes fits: "stakes_total vs < 2 ^ 64" and N: "unat N < 2 ^ 50" and T: "T = sum_list (map vst_lamports vs)" "T \<noteq> 0"
  shows "unat N - length (assign_slots T N i vs) \<le> length vs"
proof -
  have u: "unat T = stakes_total vs" using total_stake_exact[OF fits] T by simp
  have "fair_share T N v * (1 - 1 / 2 ^ 50) \<le> of_nat (unat (proportional_slots T N v)) + 1" if "v \<in> set vs" for v
    using proportional_slots_bounds(2)[OF T(2) _ N] stake_le_sum[OF that] u by (simp only: word_le_nat_alt less_imp_le)
  then have "sum_list (map (\<lambda>v. fair_share T N v * (1 - 1 / 2 ^ 50)) vs) \<le> sum_list (map (\<lambda>v. of_nat (unat (proportional_slots T N v)) + 1) vs)"
    by (intro sum_list_mono)
  also have "\<dots> = of_nat (length (assign_slots T N i vs) + length vs)"
    by (simp only: assign_slots_length of_nat_add of_nat_sum_list_map sum_list_addf sum_list_triv mult_1_right)
  also have "sum_list (map (\<lambda>v. fair_share T N v * (1 - 1 / 2 ^ 50)) vs) = of_nat (unat N) * (1 - 1 / 2 ^ 50)"
    unfolding sum_list_mult_const fair_shares_sum[OF u T(2)] by (rule refl)
  finally have "of_nat (unat N) * (1 - 1 / 2 ^ 50) \<le> (of_nat (length (assign_slots T N i vs) + length vs) :: rat)" .
  moreover have "(of_nat (unat N) :: rat) < 2 ^ 50" using N by (simp only: of_nat_less_numeral_power_cancel_iff)
  then have "of_nat (unat N) < of_nat (unat N) * (1 - 1 / 2 ^ 50) + (1 :: rat)" by (simp add: right_diff_distrib)
  ultimately have "(of_nat (unat N) :: rat) < of_nat (length (assign_slots T N i vs) + length vs + 1)"
    unfolding of_nat_add[of _ 1] of_nat_1 by linarith
  then show ?thesis by (simp only: of_nat_less_iff)
qed

lemma round_robin_count:
  assumes "k \<le> n"
  shows "count_list (map (\<lambda>k. k mod n) [0..<k]) i \<le> 1"
proof -
  have "map (\<lambda>k. k mod n) [0..<k] = [0..<k]" using assms by (intro map_idI) auto
  then show ?thesis using distinct_count_atmost_1[of "[0..<k]"] by (simp add: count_mset[symmetric])
qed

definition scheduled :: "validator_stake list \<Rightarrow> u64 \<Rightarrow> leader_schedule \<Rightarrow> bool" where
  "scheduled vs N ls \<longleftrightarrow> vs \<noteq> [] \<and> ls_validators ls = by_stake vs \<and> ls_epoch_length ls = N \<and>
     ls_schedule ls = fill_round_robin (length (by_stake vs)) (unat N) 0 (assign_slots (sum_list (map vst_lamports (by_stake vs))) N 0 (by_stake vs))"

lemma by_stake_simps:
  "set (by_stake vs) = set vs" "by_stake vs = [] \<longleftrightarrow> vs = []" "stakes_total (by_stake vs) = stakes_total vs"
  "sum_list (map vst_lamports (by_stake vs)) = sum_list (map vst_lamports vs)"
proof -
  show "set (by_stake vs) = set vs" by (simp add: by_stake_def)
  then show "by_stake vs = [] \<longleftrightarrow> vs = []" by (metis set_empty)
  have m: "mset (by_stake vs) = mset vs" by (simp add: by_stake_def)
  show "stakes_total (by_stake vs) = stakes_total vs" "sum_list (map vst_lamports (by_stake vs)) = sum_list (map vst_lamports vs)"
    using arg_cong[OF m, of "\<lambda>M. sum_mset (image_mset (\<lambda>v. unat (vst_lamports v)) M)"] arg_cong[OF m, of "\<lambda>M. sum_mset (image_mset vst_lamports M)"]
    by (simp_all only: mset_map[symmetric] sum_mset_sum_list)
qed

lemma leader_schedule_new_scheduled: "leader_schedule_new vs spl N = Returned ls \<Longrightarrow> scheduled vs N ls"
  by (auto simp: leader_schedule_new_def scheduled_def compute_schedule_def Let_def by_stake_simps(2) split: if_splits)

lemma advance_epoch_scheduled: "scheduled vs N ls \<Longrightarrow> scheduled vs N (advance_epoch ls)"
  by (simp add: scheduled_def by_stake_simps(2) advance_epoch_def compute_schedule_def Let_def)

lemma advance_epochs_scheduled: "scheduled vs N ls \<Longrightarrow> scheduled vs N ((advance_epoch ^^ k) ls)"
  by (induction k) (simp_all add: advance_epoch_scheduled)

lemma scheduled_length:
  assumes "scheduled vs N ls" "stakes_total vs < 2 ^ 64" "unat N < 2 ^ 50"
  shows "length (ls_schedule ls) = unat N"
proof -
  let ?vs = "by_stake vs" and ?T = "sum_list (map vst_lamports (by_stake vs))"
  have "stakes_total ?vs < 2 ^ 64" using assms(2) unfolding by_stake_simps(3) .
  then have "length (assign_slots ?T N 0 ?vs) \<le> unat N" using assign_slots_fits assms(3) by blast
  moreover have "set (assign_slots ?T N 0 ?vs) \<subseteq> {..<length ?vs}" using assign_slots_range[of ?T N 0 ?vs] by fastforce
  moreover have "0 < length ?vs" using assms(1) by (simp add: scheduled_def by_stake_simps(2))
  ultimately show ?thesis using fill_round_robin_spec[of "length ?vs" _ "unat N" 0] assms(1) unfolding scheduled_def by (metis max.absorb1)
qed

lemma scheduled_range:
  assumes "scheduled vs N ls" "s < length (ls_schedule ls)"
  shows "ls_schedule ls ! s < length (ls_validators ls)"
proof -
  have "ls_schedule ls = ls_schedule (compute_schedule ls)" "ls_validators ls \<noteq> []"
    using assms(1) by (simp_all add: scheduled_def by_stake_simps(2) compute_schedule_def Let_def)
  then have "set (ls_schedule ls) \<subseteq> {..<length (ls_validators ls)}" using compute_schedule_spec(1) by metis
  then show ?thesis using assms(2) nth_mem by blast
qed

lemma scheduled_leader:
  assumes "scheduled vs N ls" "ls_schedule ls \<noteq> []"
  shows "leader_for_slot slot ls = Returned (ls_validators ls ! (ls_schedule ls ! (unat slot mod length (ls_schedule ls))))"
    "ls_validators ls ! (ls_schedule ls ! (unat slot mod length (ls_schedule ls))) \<in> set vs"
proof -
  have r: "ls_schedule ls ! (unat slot mod length (ls_schedule ls)) < length (ls_validators ls)"
    using scheduled_range[OF assms(1)] assms(2) by simp
  then show "leader_for_slot slot ls = Returned (ls_validators ls ! (ls_schedule ls ! (unat slot mod length (ls_schedule ls))))"
    using assms(2) by (simp add: leader_for_slot_def leader_index_for_slot_def)
  show "ls_validators ls ! (ls_schedule ls ! (unat slot mod length (ls_schedule ls))) \<in> set vs"
    using nth_mem[OF r] assms(1) by (metis scheduled_def by_stake_simps(1))
qed

lemma slots_for_leader_iff:
  assumes "length (ls_schedule ls) = unat N" "slot < N"
  shows "slot \<in> set (slots_for_leader v ls) \<longleftrightarrow> vst_validator (ls_validators ls ! (ls_schedule ls ! unat slot)) = v"
proof -
  have lt: "unat slot < length (ls_schedule ls)" using assms by (simp add: word_less_nat_alt)
  have "unat N < 2 ^ LENGTH(64)" by (rule unsigned_less)
  then have "of_nat s = slot \<longleftrightarrow> s = unat slot" if "s < length (ls_schedule ls)" for s
    using that assms(1) by (auto simp: unsigned_of_nat take_bit_nat_eq_self)
  then show ?thesis using lt by (auto simp: slots_for_leader_def in_set_enumerate_eq image_iff) (metis nth_mem)+
qed

lemma slots_for_leader_length:
  assumes "i < length (ls_validators ls)"
  shows "count_list (ls_schedule ls) i \<le> length (slots_for_leader (vst_validator (ls_validators ls ! i)) ls)"
proof -
  let ?P = "\<lambda>idx. vst_validator (ls_validators ls ! idx) = vst_validator (ls_validators ls ! i)"
  have "length (slots_for_leader (vst_validator (ls_validators ls ! i)) ls) = length (filter ?P (map snd (enumerate 0 (ls_schedule ls))))"
    by (simp only: slots_for_leader_def length_map filter_map comp_def split_def)
  also have "\<dots> = length (filter ?P (ls_schedule ls))" by simp
  finally have "length (slots_for_leader (vst_validator (ls_validators ls ! i)) ls) = length (filter ?P (ls_schedule ls))" .
  moreover have "count_list xs i \<le> length (filter ?P xs)" for xs by (induction xs) auto
  ultimately show ?thesis by simp
qed

lemma fair_share_small:
  assumes "T \<noteq> 0" "vst_lamports v \<le> T" "unat N < 2 ^ 50"
  shows "fair_share T N v < 2 ^ 50"
proof -
  have le: "(of_nat (unat (vst_lamports v)) :: rat) \<le> of_nat (unat T)" using assms(2) by (simp only: word_le_nat_alt of_nat_le_iff)
  have T: "(0 :: rat) < of_nat (unat T)" using assms(1) unfolding of_nat_0_less_iff unat_gt_0 .
  have "fair_share T N v \<le> of_nat (unat N)"
    unfolding fair_share_def pos_divide_le_eq[OF T] using le by (intro mult_left_mono) (simp_all only: of_nat_0_le_iff)
  also have "\<dots> < 2 ^ 50" using assms(3) by (simp only: of_nat_less_numeral_power_cancel_iff)
  finally show ?thesis .
qed

lemma scheduled_share:
  assumes "scheduled vs N ls" "stakes_total vs < 2 ^ 64" "unat N < 2 ^ 50" "v \<in> set vs"
  shows "fair_share (sum_list (map vst_lamports vs)) N v < of_nat (length (slots_for_leader (vst_validator v) ls)) + 2"
proof (cases "sum_list (map vst_lamports vs) = 0")
  case False
  let ?T = "sum_list (map vst_lamports vs)"
  obtain i where i: "i < length (by_stake vs)" "by_stake vs ! i = v"
    using assms(4) by (metis by_stake_simps(1) in_set_conv_nth)
  have lv: "ls_validators ls = by_stake vs" using assms(1) by (simp add: scheduled_def)
  obtain ys where "ls_schedule ls = assign_slots ?T N 0 (by_stake vs) @ ys"
    using assms(1) fill_round_robin_append unfolding scheduled_def by_stake_simps(4) by metis
  then have "unat (proportional_slots ?T N v) \<le> count_list (ls_schedule ls) i"
    using assign_slots_count[of 0 i "by_stake vs" ?T N] i by simp
  also have "\<dots> \<le> length (slots_for_leader (vst_validator v) ls)" using slots_for_leader_length[of i ls] i lv by simp
  finally have n: "(of_nat (unat (proportional_slots ?T N v)) :: rat) \<le> of_nat (length (slots_for_leader (vst_validator v) ls))"
    by (simp only: of_nat_le_iff)
  have le: "vst_lamports v \<le> ?T" using stake_le_sum[OF assms(4)] total_stake_exact[OF assms(2)] by (simp only: word_le_nat_alt)
  have "fair_share ?T N v < 2 ^ 50" by (rule fair_share_small[OF False le assms(3)])
  then show ?thesis using n proportional_slots_bounds(2)[OF False le assms(3)] by simp
qed (simp add: fair_share_def)

lemma slots_for_leader_length_distinct:
  assumes "i < length (ls_validators ls)" "distinct (map vst_validator (ls_validators ls))" "set (ls_schedule ls) \<subseteq> {..<length (ls_validators ls)}"
  shows "length (slots_for_leader (vst_validator (ls_validators ls ! i)) ls) = count_list (ls_schedule ls) i"
proof -
  let ?P = "\<lambda>idx. vst_validator (ls_validators ls ! idx) = vst_validator (ls_validators ls ! i)"
  have "length (slots_for_leader (vst_validator (ls_validators ls ! i)) ls) = length (filter ?P (map snd (enumerate 0 (ls_schedule ls))))"
    by (simp only: slots_for_leader_def length_map filter_map comp_def split_def)
  also have "\<dots> = length (filter ?P (ls_schedule ls))" by simp
  also have "filter ?P (ls_schedule ls) = filter ((=) i) (ls_schedule ls)"
    using assms nth_eq_iff_index_eq[OF assms(2)] by (intro filter_cong) (auto simp: subset_iff)
  finally show ?thesis by (simp add: count_list_eq_length_filter)
qed

lemma scheduled_share_upper:
  assumes "scheduled vs N ls" "stakes_total vs < 2 ^ 64" "unat N < 2 ^ 50" "v \<in> set vs"
    and "distinct (map vst_validator vs)" "0 < stakes_total vs"
  shows "of_nat (length (slots_for_leader (vst_validator v) ls)) < fair_share (sum_list (map vst_lamports vs)) N v + 2"
proof -
  let ?T = "sum_list (map vst_lamports vs)" and ?a = "assign_slots (sum_list (map vst_lamports vs)) N 0 (by_stake vs)"
  obtain i where i: "i < length (by_stake vs)" "by_stake vs ! i = v"
    using assms(4) by (metis by_stake_simps(1) in_set_conv_nth)
  have lv: "ls_validators ls = by_stake vs" using assms(1) by (simp add: scheduled_def)
  have T: "?T \<noteq> 0"
  proof
    assume "?T = 0"
    then have "stakes_total vs = unat (0 :: u64)" using total_stake_exact[OF assms(2)] by (simp only:)
    then show False using assms(6) by (simp only: unsigned_0 less_irrefl)
  qed
  have rest: "unat N - length ?a \<le> length (by_stake vs)"
    using assign_slots_rest[of "by_stake vs" N ?T 0] assms(2,3) T unfolding by_stake_simps(3,4) by blast
  have sched: "ls_schedule ls = ?a @ map (\<lambda>k. k mod length (by_stake vs)) [0..<unat N - length ?a]"
    using assms(1) fill_round_robin_append[of _ "unat N" 0] unfolding scheduled_def by_stake_simps(4) by simp
  have "set (ls_schedule ls) \<subseteq> {..<length (ls_validators ls)}" using scheduled_range[OF assms(1)] by (auto simp: in_set_conv_nth)
  moreover have "distinct (map vst_validator (ls_validators ls))"
    using assms(5) unfolding lv by (simp add: by_stake_def distinct_map by_stake_simps(1)[unfolded by_stake_def])
  ultimately have "length (slots_for_leader (vst_validator v) ls) = count_list (ls_schedule ls) i"
    using slots_for_leader_length_distinct[of i ls] i lv by simp
  also have "\<dots> \<le> unat (proportional_slots ?T N v) + 1"
    unfolding sched using round_robin_count[OF rest, of i] assign_slots_count[of 0 i "by_stake vs" ?T N] i by simp
  finally have "(of_nat (length (slots_for_leader (vst_validator v) ls)) :: rat) \<le> of_nat (unat (proportional_slots ?T N v) + 1)"
    by (simp only: of_nat_le_iff)
  moreover have le: "vst_lamports v \<le> ?T" using stake_le_sum[OF assms(4)] total_stake_exact[OF assms(2)] by (simp only: word_le_nat_alt)
  note proportional_slots_bounds(1)[OF T le assms(3)]
  moreover have "fair_share ?T N v * (1 + 1 / 2 ^ 50) < fair_share ?T N v + 1" using fair_share_small[OF T le assms(3)] by (simp add: distrib_left)
  ultimately show ?thesis unfolding of_nat_add of_nat_1 by linarith
qed

text \<open>
  C33 A leader schedule over validators whose stakes add up without overflow, for epochs of less
  than \<open>2 ^ 50\<close> slots, in the first epoch and after any number of epochs: it covers the epoch
  exactly, names a leader for every slot, and lists under a validator the slots of the epoch where it
  is the leader and no others. Every validator has more slots than its share by stake less two; and
  when the identities are distinct and the total stake is not zero, less than its share plus two,
  despite the rounding of the double-precision arithmetic.
\<close>

theorem leader_schedule_fair:
  assumes new: "leader_schedule_new vs slots_per_leader N = Returned ls0" and "ls = (advance_epoch ^^ k) ls0"
    and "stakes_total vs < 2 ^ 64" and "0 < N" and "N < 2 ^ 50"
  shows "length (ls_schedule ls) = unat N \<and>
    (\<exists>l. leader_for_slot slot ls = Returned l \<and> l \<in> set vs) \<and>
    (slot < N \<longrightarrow> slot \<in> set (slots_for_leader v ls) \<longleftrightarrow> is_leader v slot ls = Returned True) \<and>
    (w \<in> set vs \<longrightarrow>
      of_nat (unat N) * of_nat (unat (vst_lamports w)) / of_nat (stakes_total vs)
        < (of_nat (length (slots_for_leader (vst_validator w) ls)) + 2 :: rat)) \<and>
    (w \<in> set vs \<and> distinct (map vst_validator vs) \<and> 0 < stakes_total vs \<longrightarrow>
      (of_nat (length (slots_for_leader (vst_validator w) ls)) :: rat)
        < of_nat (unat N) * of_nat (unat (vst_lamports w)) / of_nat (stakes_total vs) + 2)"
proof -
  have N: "unat N < 2 ^ 50" using assms(5) by (simp add: word_less_nat_alt)
  have s: "scheduled vs N ls" using advance_epochs_scheduled leader_schedule_new_scheduled assms(1,2) by blast
  have len: "length (ls_schedule ls) = unat N" using scheduled_length[OF s assms(3) N] .
  have "0 < unat N" using assms(4) by (simp add: word_less_nat_alt)
  then have ne: "ls_schedule ls \<noteq> []" using len by auto
  note l = scheduled_leader[OF s ne]
  have c1: "\<exists>l. leader_for_slot slot ls = Returned l \<and> l \<in> set vs" using l by blast
  have c2: "slot \<in> set (slots_for_leader v ls) \<longleftrightarrow> is_leader v slot ls = Returned True" if "slot < N"
    using slots_for_leader_iff[OF len that] that len l(1) by (simp add: is_leader_def word_less_nat_alt)
  have c3: "of_nat (unat N) * of_nat (unat (vst_lamports w)) / of_nat (stakes_total vs)
        < (of_nat (length (slots_for_leader (vst_validator w) ls)) + 2 :: rat)" if "w \<in> set vs"
    using scheduled_share[OF s assms(3) N that] unfolding fair_share_def total_stake_exact[OF assms(3)] .
  have c4: "(of_nat (length (slots_for_leader (vst_validator w) ls)) :: rat)
        < of_nat (unat N) * of_nat (unat (vst_lamports w)) / of_nat (stakes_total vs) + 2"
    if "w \<in> set vs" "distinct (map vst_validator vs)" "0 < stakes_total vs"
    using scheduled_share_upper[OF s assms(3) N that] unfolding fair_share_def total_stake_exact[OF assms(3)] .
  show ?thesis using len c1 c2 c3 c4 by blast
qed

definition demo_stakes :: "validator_stake list" where
  "demo_stakes = [\<lparr>vst_validator = 1, vst_lamports = 1, vst_name = ''a''\<rparr>, \<lparr>vst_validator = 2, vst_lamports = 3, vst_name = ''b''\<rparr>]"

definition demo_schedule :: leader_schedule where
  "demo_schedule = \<lparr>ls_validators = [demo_stakes ! 1, demo_stakes ! 0], ls_slots_per_leader = 1, ls_epoch_length = 10,
     ls_current_epoch = 0, ls_schedule = [0, 0, 0, 0, 0, 0, 0, 1, 1, 0]\<rparr>"

lemma demo_schedule_new: "leader_schedule_new demo_stakes 1 10 = Returned demo_schedule"
proof -
  have "by_stake demo_stakes = [demo_stakes ! 1, demo_stakes ! 0]" by code_simp
  moreover have "assign_slots 4 10 0 [demo_stakes ! 1, demo_stakes ! 0] = [0, 0, 0, 0, 0, 0, 0, 1, 1]" by code_simp
  moreover have "fill_round_robin (Suc (Suc 0)) 10 0 [0, 0, 0, 0, 0, 0, 0, 1, 1] = [0, 0, 0, 0, 0, 0, 0, 1, 1, 0]" by code_simp
  moreover have "sum_list (map vst_lamports [demo_stakes ! 1, demo_stakes ! 0]) = 4" by code_simp
  moreover have "demo_stakes \<noteq> []" by (simp add: demo_stakes_def)
  ultimately show ?thesis unfolding leader_schedule_new_def compute_schedule_def demo_schedule_def by (simp add: Let_def)
qed

theorem leader_schedule_fair_witness:
  "length (ls_schedule (advance_epoch demo_schedule)) = 10 \<and>
   (3 \<in> set (slots_for_leader 2 (advance_epoch demo_schedule))) = (is_leader 2 3 (advance_epoch demo_schedule) = Returned True) \<and>
   (15 / 2 :: rat) < of_nat (length (slots_for_leader 2 (advance_epoch demo_schedule))) + 2 \<and>
   of_nat (length (slots_for_leader 2 (advance_epoch demo_schedule))) < (15 / 2 + 2 :: rat)"
proof -
  have "stakes_total demo_stakes < 2 ^ 64" "(0 :: u64) < 10" "(10 :: u64) < 2 ^ 50" by (simp_all add: demo_stakes_def)
  note f = leader_schedule_fair[OF demo_schedule_new refl this, where k = 1 and w = "demo_stakes ! 1" and slot = 3 and v = 2]
  have "(15 / 2 :: rat) < of_nat (length (slots_for_leader 2 (advance_epoch demo_schedule))) + 2 \<and>
      of_nat (length (slots_for_leader 2 (advance_epoch demo_schedule))) < (15 / 2 + 2 :: rat)"
    using f by (simp add: demo_stakes_def)
  then show ?thesis using f by simp
qed

text \<open>
  The total of the stakes wraps: two validators that hold half of the lamports each have a total
  of zero, a share of infinity, and the largest number of slots a u64 can hold.
\<close>

lemma f64_of_u64_positive: "x \<noteq> 0 \<Longrightarrow> \<exists>q. f64_of_u64 x = Finite q \<and> 0 < q"
proof -
  assume "x \<noteq> 0"
  then have "(0 :: rat) < of_nat (unat x)" unfolding of_nat_0_less_iff unat_gt_0 .
  then have "(0 :: rat) < of_nat (unat x) * (1 - f64_eps)" by simp
  then show ?thesis unfolding f64_of_u64_def using f64_round_bounds(2)[OF of_nat_0_le_iff, of "unat x"] order_less_le_trans by blast
qed

lemma wrapped_stake_floods_schedule:
  assumes "vst_lamports v \<noteq> 0" "total_slots \<noteq> 0"
  shows "proportional_slots (2 ^ 63 + 2 ^ 63) total_slots v = - 1"
proof -
  have "f64_of_u64 (2 ^ 63 + 2 ^ 63) = Finite 0" by (simp add: f64_of_u64_def f64_round_def)
  then show ?thesis using f64_of_u64_positive[OF assms(1)] f64_of_u64_positive[OF assms(2)] by (auto simp: proportional_slots_def)
qed

end
