(* ===== verification/ForkChoice.thy ===== *)
theory ForkChoice
  imports Machines
begin

text \<open>
  The fork tree (\<^verbatim>\<open>crates/consensus/src/fork_choice.rs\<close>): known blocks, the best head and the walk
  from a block to its oldest known ancestor. The walk may not end; it is then \<^term>\<open>None\<close>.
\<close>

subsection \<open>State\<close>

record fork_block =
  fb_hash :: hash32
  fb_slot :: u64
  fb_parent_hash :: "hash32 option"
  fb_timestamp :: u64
  fb_height :: u64
  fb_voting_power :: u64

record fork_choice =
  fc_blocks :: "(hash32 \<times> fork_block) list"
  fc_root :: "fork_block option"
  fc_best_head :: "fork_block option"
  fc_slot_blocks :: "(u64 \<times> hash32 list) list"

record fork_choice_stats =
  fcs_total_blocks :: nat
  fcs_total_slots :: nat

definition push_slot_block :: "u64 \<Rightarrow> hash32 \<Rightarrow> (u64 \<times> hash32 list) list \<Rightarrow> (u64 \<times> hash32 list) list" where
  "push_slot_block slot h sb = AList.update slot ((case map_of sb slot of Some hs \<Rightarrow> hs | None \<Rightarrow> []) @ [h]) sb"

definition fork_choice_new :: "fork_block \<Rightarrow> fork_choice" where
  "fork_choice_new genesis =
     \<lparr>fc_blocks = AList.update (fb_hash genesis) genesis [], fc_root = Some genesis, fc_best_head = Some genesis,
      fc_slot_blocks = push_slot_block (fb_slot genesis) (fb_hash genesis) []\<rparr>"

subsection \<open>Operations\<close>

definition heavier :: "fork_block \<Rightarrow> fork_block \<Rightarrow> bool" where
  "heavier block current_best \<longleftrightarrow>
     fb_voting_power current_best < fb_voting_power block \<or>
     fb_voting_power block = fb_voting_power current_best \<and> fb_timestamp current_best < fb_timestamp block"

definition add_block :: "fork_block \<Rightarrow> fork_choice \<Rightarrow> fork_choice" where
  "add_block block fc =
     (let fc = fc\<lparr>fc_blocks := AList.update (fb_hash block) block (fc_blocks fc),
                 fc_slot_blocks := push_slot_block (fb_slot block) (fb_hash block) (fc_slot_blocks fc)\<rparr>
      in case fc_best_head fc of
           None \<Rightarrow> fc
         | Some current_best \<Rightarrow> if heavier block current_best then fc\<lparr>fc_best_head := Some block\<rparr> else fc)"

definition blocks_at_slot :: "u64 \<Rightarrow> fork_choice \<Rightarrow> fork_block list" where
  "blocks_at_slot slot fc =
     (case map_of (fc_slot_blocks fc) slot of
        None \<Rightarrow> []
      | Some hashes \<Rightarrow> List.map_filter (map_of (fc_blocks fc)) hashes)"

text \<open>\<^verbatim>\<open>max_by_key\<close>: the last of the largest.\<close>

fun heaviest :: "fork_block option \<Rightarrow> fork_block list \<Rightarrow> fork_block option" where
  "heaviest best [] = best"
| "heaviest best (b # bs) =
     heaviest (case best of None \<Rightarrow> Some b | Some m \<Rightarrow> if fb_voting_power b < fb_voting_power m then Some m else Some b) bs"

definition heaviest_at_slot :: "u64 \<Rightarrow> fork_choice \<Rightarrow> fork_block option" where
  "heaviest_at_slot slot fc = heaviest None (blocks_at_slot slot fc)"

partial_function (option) walk_chain :: "(hash32 \<times> fork_block) list \<Rightarrow> hash32 option \<Rightarrow> fork_block list \<Rightarrow> fork_block list option" where
  "walk_chain blocks current_hash chain =
     (case current_hash of
        None \<Rightarrow> Some chain
      | Some hash \<Rightarrow>
          (case map_of blocks hash of
             None \<Rightarrow> Some chain
           | Some block \<Rightarrow> walk_chain blocks (fb_parent_hash block) (chain @ [block])))"

definition chain_from :: "hash32 \<Rightarrow> fork_choice \<Rightarrow> fork_block list option" where
  "chain_from block_hash fc = map_option rev (walk_chain (fc_blocks fc) (Some block_hash) [])"

definition fork_weight :: "hash32 \<Rightarrow> fork_choice \<Rightarrow> u64 option" where
  "fork_weight tip_hash fc = map_option (\<lambda>chain. sum_list (map fb_voting_power chain)) (chain_from tip_hash fc)"

definition fork_prune :: "u64 \<Rightarrow> fork_choice \<Rightarrow> fork_choice" where
  "fork_prune before_slot fc = fc\<lparr>fc_blocks := filter (\<lambda>(_, block). before_slot \<le> fb_slot block) (fc_blocks fc)\<rparr>"

definition fork_stats :: "fork_choice \<Rightarrow> fork_choice_stats" where
  "fork_stats fc = \<lparr>fcs_total_blocks = length (fc_blocks fc), fcs_total_slots = length (fc_slot_blocks fc)\<rparr>"

subsection \<open>Runs\<close>

datatype fork_op = Add_Block fork_block | Prune_Blocks u64

fun fork_step :: "fork_op \<Rightarrow> fork_choice \<Rightarrow> fork_choice" where
  "fork_step (Add_Block b) fc = add_block b fc"
| "fork_step (Prune_Blocks s) fc = fork_prune s fc"

fun added_blocks :: "fork_op list \<Rightarrow> fork_block list" where
  "added_blocks [] = []"
| "added_blocks (Add_Block b # ops) = b # added_blocks ops"
| "added_blocks (Prune_Blocks s # ops) = added_blocks ops"

definition fork_run :: "fork_block \<Rightarrow> fork_op list \<Rightarrow> fork_choice" where
  "fork_run genesis ops = fold fork_step ops (fork_choice_new genesis)"

lemma add_block_sel [simp]:
  "fc_blocks (add_block b fc) = AList.update (fb_hash b) b (fc_blocks fc)"
  "fc_best_head (add_block b fc) =
     map_option (\<lambda>best. if heavier b best then b else best) (fc_best_head fc)"
  by (simp_all add: add_block_def Let_def split: option.split)

lemma added_blocks_append [simp]: "added_blocks (xs @ ys) = added_blocks xs @ added_blocks ys"
  by (induction xs rule: added_blocks.induct) simp_all

subsection \<open>The best head\<close>

definition fork_rank :: "fork_block \<Rightarrow> nat" where
  "fork_rank b = 2 ^ 64 * unat (fb_voting_power b) + unat (fb_timestamp b)"

lemma heavier_rank: "heavier a b \<longleftrightarrow> fork_rank b < fork_rank a"
proof -
  have t: "unat (fb_timestamp c) < 2 ^ LENGTH(64)" for c by (rule unsigned_less)
  show ?thesis using t[of a] t[of b] unfolding heavier_def fork_rank_def word_less_nat_alt word_unat_eq_iff
    by (simp, linarith)
qed

text \<open>The first block of the sequence that no block outranks.\<close>

definition first_heaviest :: "fork_block list \<Rightarrow> fork_block \<Rightarrow> bool" where
  "first_heaviest bs best \<longleftrightarrow>
     (\<exists>i < length bs. bs ! i = best \<and> list_all (\<lambda>b. fork_rank b < fork_rank best) (take i bs) \<and>
        list_all (\<lambda>b. fork_rank b \<le> fork_rank best) bs)"

lemma first_heaviest_add:
  assumes "first_heaviest bs best"
  shows "first_heaviest (bs @ [b]) (if heavier b best then b else best)"
proof -
  obtain i where i: "i < length bs" "bs ! i = best" "list_all (\<lambda>b. fork_rank b < fork_rank best) (take i bs)"
      "list_all (\<lambda>b. fork_rank b \<le> fork_rank best) bs"
    using assms by (auto simp: first_heaviest_def)
  show ?thesis
  proof (cases "heavier b best")
    case True
    then show ?thesis using i(4) unfolding first_heaviest_def heavier_rank
      by (intro exI[of _ "length bs"]) (auto simp: list_all_iff)
  next
    case False
    then show ?thesis using i unfolding first_heaviest_def heavier_rank by (intro exI[of _ i]) (auto simp: nth_append)
  qed
qed

definition best_head_inv :: "fork_block \<Rightarrow> fork_op list \<Rightarrow> fork_choice \<Rightarrow> bool" where
  "best_head_inv genesis ops fc \<longleftrightarrow>
     (\<exists>best. fc_best_head fc = Some best \<and> first_heaviest (genesis # added_blocks ops) best)"

lemma best_head_step: "best_head_inv genesis ops fc \<Longrightarrow> best_head_inv genesis (ops @ [op]) (fork_step op fc)"
proof -
  assume "best_head_inv genesis ops fc"
  then obtain best where "fc_best_head fc = Some best" "first_heaviest (genesis # added_blocks ops) best" by (auto simp: best_head_inv_def)
  then show ?thesis using first_heaviest_add[of "genesis # added_blocks ops" best]
    by (cases op) (auto simp: fork_prune_def best_head_inv_def)
qed

interpretation fork_tree: traced_machine fork_step "best_head_inv genesis" for genesis
  by unfold_locales (rule best_head_step)

lemma fork_run_best: "best_head_inv genesis ops (fork_run genesis ops)"
  unfolding fork_run_def by (rule fork_tree.inv_run) (simp add: fork_choice_new_def best_head_inv_def first_heaviest_def)

lemma heaviest_spec:
  "heaviest (Some c) bs = Some m \<Longrightarrow> m \<in> insert c (set bs) \<and> (\<forall>b \<in> insert c (set bs). fb_voting_power b \<le> fb_voting_power m)"
proof (induction bs arbitrary: c)
  case (Cons b bs)
  show ?case
  proof (cases "fb_voting_power b < fb_voting_power c")
    case True
    then have "heaviest (Some c) bs = Some m" using Cons.prems by simp
    from Cons.IH[OF this] show ?thesis using True by auto
  next
    case False
    then have "heaviest (Some b) bs = Some m" using Cons.prems by simp
    from Cons.IH[OF this] show ?thesis using False by auto
  qed
qed simp

lemma heaviest_at_slot_spec:
  "heaviest_at_slot slot fc = Some m \<Longrightarrow> m \<in> set (blocks_at_slot slot fc) \<and>
     (\<forall>b \<in> set (blocks_at_slot slot fc). fb_voting_power b \<le> fb_voting_power m)"
  unfolding heaviest_at_slot_def by (cases "blocks_at_slot slot fc") (auto dest: heaviest_spec)


subsection \<open>Walking a chain\<close>

definition parents_older :: "(hash32 \<times> fork_block) list \<Rightarrow> bool" where
  "parents_older blocks \<longleftrightarrow>
     (\<forall>h b p pb. map_of blocks h = Some b \<longrightarrow> fb_parent_hash b = Some p \<longrightarrow> map_of blocks p = Some pb \<longrightarrow> fb_slot pb < fb_slot b)"

fun linked_blocks :: "(hash32 \<times> fork_block) list \<Rightarrow> hash32 option \<Rightarrow> fork_block list \<Rightarrow> bool" where
  "linked_blocks blocks tip [] \<longleftrightarrow> Option.bind tip (map_of blocks) = None"
| "linked_blocks blocks tip (b # bs) \<longleftrightarrow> Option.bind tip (map_of blocks) = Some b \<and> linked_blocks blocks (fb_parent_hash b) bs"

lemma walk_chain_spec:
  assumes "parents_older blocks"
  shows "\<exists>bs. walk_chain blocks tip acc = Some (acc @ bs) \<and> linked_blocks blocks tip bs"
proof (induction "case Option.bind tip (map_of blocks) of None \<Rightarrow> 0 | Some b \<Rightarrow> Suc (unat (fb_slot b))" arbitrary: tip acc rule: less_induct)
  case less
  show ?case
  proof (cases "Option.bind tip (map_of blocks)")
    case None
    then have "walk_chain blocks tip acc = Some (acc @ [])" by (cases tip) (simp_all add: walk_chain.simps)
    then show ?thesis using None linked_blocks.simps(1) by blast
  next
    case (Some b)
    then obtain h where h: "tip = Some h" "map_of blocks h = Some b" by (cases tip) auto
    have "(case Option.bind (fb_parent_hash b) (map_of blocks) of None \<Rightarrow> 0 | Some b \<Rightarrow> Suc (unat (fb_slot b))) < Suc (unat (fb_slot b))"
      using assms h(2) unfolding parents_older_def by (auto simp: word_less_nat_alt split: option.split bind_splits)
    then obtain bs where "walk_chain blocks (fb_parent_hash b) (acc @ [b]) = Some ((acc @ [b]) @ bs)" "linked_blocks blocks (fb_parent_hash b) bs"
      using less.hyps[of "fb_parent_hash b" "acc @ [b]"] Some by auto
    then show ?thesis using h by (intro exI[of _ "b # bs"]) (simp add: walk_chain.simps[of blocks "Some h" acc])
  qed
qed

lemma walk_chain_cycle:
  assumes "walk_chain blocks tip acc = Some y"
  shows "tip = Some h \<Longrightarrow> map_of blocks h = Some b \<Longrightarrow> fb_parent_hash b \<noteq> Some h"
proof -
  have "\<forall>h b. tip = Some h \<longrightarrow> map_of blocks h = Some b \<longrightarrow> fb_parent_hash b \<noteq> Some h"
  proof (rule walk_chain.raw_induct[OF _ assms], goal_cases)
    case (1 f blocks tip acc y)
    show ?case
    proof (intro allI impI notI)
      fix h b assume b: "tip = Some h" "map_of blocks h = Some b" "fb_parent_hash b = Some h"
      then have "f blocks (Some h) (acc @ [b]) = Some y" using 1(2) by simp
      then show False using 1(1)[of blocks "Some h" "acc @ [b]" y] b by blast
    qed
  qed
  then show "tip = Some h \<Longrightarrow> map_of blocks h = Some b \<Longrightarrow> fb_parent_hash b \<noteq> Some h" by blast
qed

lemma linked_blocks_sorted:
  "parents_older blocks \<Longrightarrow> linked_blocks blocks tip bs \<Longrightarrow> sorted_wrt (\<lambda>a b. fb_slot b < fb_slot a) bs"
proof (induction bs arbitrary: tip)
  case (Cons b bs)
  then obtain h where h: "map_of blocks h = Some b" "linked_blocks blocks (fb_parent_hash b) bs" by (auto simp: bind_eq_Some_conv)
  have "fb_slot c < fb_slot b" if "c \<in> set bs" for c
  proof (cases bs)
    case (Cons d ds)
    have "fb_slot d < fb_slot b" using h \<open>parents_older blocks\<close> unfolding parents_older_def Cons by (auto simp: bind_eq_Some_conv)
    moreover have "fb_slot c \<le> fb_slot d" using Cons.IH[OF Cons.prems(1) h(2)] that unfolding Cons by auto
    ultimately show ?thesis by simp
  qed (use that in simp)
  then show ?case using Cons.IH[OF Cons.prems(1) h(2)] by simp
qed simp

lemma linked_blocks_known: "linked_blocks blocks tip bs \<Longrightarrow> set bs \<subseteq> snd ` set blocks"
proof (induction bs arbitrary: tip)
  case (Cons b bs)
  then obtain h where h: "map_of blocks h = Some b" "linked_blocks blocks (fb_parent_hash b) bs" by (auto simp: bind_eq_Some_conv)
  then show ?case using Cons.IH[OF h(2)] imageI[OF map_of_SomeD[OF h(1)], of snd] by simp
qed simp

text \<open>The blocks of a run are blocks that were added, under their own hash.\<close>

definition fork_blocks_inv :: "fork_block \<Rightarrow> fork_op list \<Rightarrow> fork_choice \<Rightarrow> bool" where
  "fork_blocks_inv genesis ops fc \<longleftrightarrow> list_all (\<lambda>(h, b). fb_hash b = h \<and> b \<in> set (genesis # added_blocks ops)) (fc_blocks fc)"

interpretation fork_blocks: traced_machine fork_step "fork_blocks_inv genesis" for genesis
proof
  fix ops fc op assume "fork_blocks_inv genesis ops fc"
  moreover have "set (AList.update h b al) \<subseteq> insert (h, b) (set al)" for h :: hash32 and b :: fork_block and al by (induction al) auto
  ultimately show "fork_blocks_inv genesis (ops @ [op]) (fork_step op fc)"
    by (cases op) (fastforce simp: fork_blocks_inv_def list_all_iff fork_prune_def)+
qed

text \<open>A block names its slot, which its hash determines, and a parent of a smaller slot.\<close>

definition block_ok :: "(hash32 \<Rightarrow> u64) \<Rightarrow> fork_block \<Rightarrow> bool" where
  "block_ok slot_of b \<longleftrightarrow> fb_slot b = slot_of (fb_hash b) \<and>
     (case fb_parent_hash b of Some p \<Rightarrow> slot_of p < fb_slot b | None \<Rightarrow> True)"

lemma fork_run_older:
  assumes "list_all (block_ok slot_of) (genesis # added_blocks ops)"
  shows "parents_older (fc_blocks (fork_run genesis ops))" "snd ` set (fc_blocks (fork_run genesis ops)) \<subseteq> set (genesis # added_blocks ops)"
proof -
  have "fork_blocks_inv genesis ops (fork_run genesis ops)"
    unfolding fork_run_def by (rule fork_blocks.inv_run) (simp add: fork_blocks_inv_def fork_choice_new_def)
  then have b: "fb_hash b = h \<and> b \<in> set (genesis # added_blocks ops)" if "(h, b) \<in> set (fc_blocks (fork_run genesis ops))" for h b
    using that by (auto simp: fork_blocks_inv_def list_all_iff)
  then show "snd ` set (fc_blocks (fork_run genesis ops)) \<subseteq> set (genesis # added_blocks ops)" by force
  have ok: "fb_slot b = slot_of h \<and> (\<forall>p. fb_parent_hash b = Some p \<longrightarrow> slot_of p < slot_of h)"
    if "map_of (fc_blocks (fork_run genesis ops)) h = Some b" for h b
    using b[OF map_of_SomeD[OF that]] assms by (auto simp: list_all_iff block_ok_def split: option.splits)
  show "parents_older (fc_blocks (fork_run genesis ops))" unfolding parents_older_def using ok by metis
qed

text \<open>
  C34 Walking a fork. After any sequence of added blocks and prunings in which the hash of a block
  determines its slot and its parent has a smaller slot, the walk from any block ends: it gives the
  block's known ancestors, oldest first, each the parent of the next, down to one whose parent is not
  known; they are among the blocks that were added, in strictly increasing order of slots, and
  the weight of the fork is the sum of their voting powers as a u64.
\<close>

theorem fork_chain_walk:
  assumes "fc = fork_run genesis ops" "list_all (block_ok slot_of) (genesis # added_blocks ops)"
  shows "\<exists>bs. chain_from tip fc = Some (rev bs) \<and> linked_blocks (fc_blocks fc) (Some tip) bs \<and>
    set bs \<subseteq> set (genesis # added_blocks ops) \<and> sorted_wrt (\<lambda>a b. fb_slot b < fb_slot a) bs \<and>
    fork_weight tip fc = Some (sum_list (map fb_voting_power bs))"
proof -
  note older = fork_run_older[OF assms(2), folded assms(1)]
  obtain bs where bs: "walk_chain (fc_blocks fc) (Some tip) [] = Some ([] @ bs)" "linked_blocks (fc_blocks fc) (Some tip) bs"
    using walk_chain_spec[OF older(1)] by blast
  have "set bs \<subseteq> set (genesis # added_blocks ops)" using linked_blocks_known[OF bs(2)] older(2) by (rule subset_trans)
  then show ?thesis using bs linked_blocks_sorted[OF older(1) bs(2)]
    by (intro exI[of _ bs]) (simp add: chain_from_def fork_weight_def rev_map[symmetric])
qed

definition demo_fork_block :: "hash32 \<Rightarrow> u64 \<Rightarrow> hash32 option \<Rightarrow> fork_block" where
  "demo_fork_block h slot parent =
     \<lparr>fb_hash = h, fb_slot = slot, fb_parent_hash = parent, fb_timestamp = slot, fb_height = slot, fb_voting_power = 10\<rparr>"

definition demo_fork :: fork_choice where
  "demo_fork = fork_run (demo_fork_block 1 0 None) [Add_Block (demo_fork_block 2 1 (Some 1)), Add_Block (demo_fork_block 3 2 (Some 2))]"

lemma demo_fork_blocks: "fc_blocks demo_fork = map (\<lambda>b. (fb_hash b, b))
  [demo_fork_block 1 0 None, demo_fork_block 2 1 (Some 1), demo_fork_block 3 2 (Some 2)]"
  by (simp add: demo_fork_def fork_run_def fork_choice_new_def demo_fork_block_def)

theorem fork_chain_walk_witness:
  "chain_from 3 demo_fork = Some [demo_fork_block 1 0 None, demo_fork_block 2 1 (Some 1), demo_fork_block 3 2 (Some 2)] \<and>
   fork_weight 3 demo_fork = Some 30"
proof -
  have "list_all (block_ok (\<lambda>h. if h = 1 then 0 else if h = 2 then 1 else 2))
      (demo_fork_block 1 0 None # added_blocks [Add_Block (demo_fork_block 2 1 (Some 1)), Add_Block (demo_fork_block 3 2 (Some 2))])"
    by (simp add: block_ok_def demo_fork_block_def)
  from fork_chain_walk[OF demo_fork_def this, of 3] obtain bs
    where bs: "chain_from 3 demo_fork = Some (rev bs)" "linked_blocks (fc_blocks demo_fork) (Some 3) bs"
      "fork_weight 3 demo_fork = Some (sum_list (map fb_voting_power bs))" by blast
  from bs(2) have "bs = [demo_fork_block 3 2 (Some 2), demo_fork_block 2 1 (Some 1), demo_fork_block 1 0 None]"
    unfolding demo_fork_blocks by (cases bs; cases "tl bs"; cases "tl (tl bs)"; cases "tl (tl (tl bs))") (auto simp: demo_fork_block_def)
  then show ?thesis using bs(1,3) by (simp add: demo_fork_block_def)
qed

text \<open>A block that names itself as its parent is accepted, and the walk from it never ends.\<close>

lemma self_parent_never_returns:
  assumes "fb_parent_hash b = Some (fb_hash b)"
  shows "chain_from (fb_hash b) (add_block b fc) = None"
proof (rule ccontr)
  assume "chain_from (fb_hash b) (add_block b fc) \<noteq> None"
  then obtain y where "walk_chain (AList.update (fb_hash b) b (fc_blocks fc)) (Some (fb_hash b)) [] = Some y"
    by (auto simp: chain_from_def)
  from walk_chain_cycle[OF this refl, of b] show False using assms by (simp add: update_conv)
qed

text \<open>The best head is the heaviest block, which need not be the tip of the heaviest fork.\<close>

lemma best_head_ignores_fork_weight:
  defines "fc \<equiv> fork_run (demo_fork_block 1 0 None)
    [Add_Block (demo_fork_block 2 1 (Some 1)), Add_Block (demo_fork_block 3 2 (Some 2)), Add_Block ((demo_fork_block 4 1 (Some 1))\<lparr>fb_voting_power := 11\<rparr>)]"
  shows "map_option fb_hash (fc_best_head fc) = Some 4" "fork_weight 4 fc = Some 21" "fork_weight 3 fc = Some 30"
  unfolding fc_def by (simp_all add: fork_run_def fork_choice_new_def demo_fork_block_def heavier_def fork_weight_def
    chain_from_def walk_chain.simps)

end
