(* ===== verification/GaussJordan.thy ===== *)
theory GaussJordan
  imports Complex_Main
begin

text \<open>
  Linear algebra over an arbitrary field, as far as the erasure code needs it: the invariant of
  a Gauss-Jordan elimination of a matrix augmented with the identity under the row operations
  the code performs, what it gives when the elimination ends or finds no pivot, and that the
  rows of a Vandermonde matrix with distinct nodes are independent.
\<close>

subsection \<open>Row operations over a field\<close>

definition dotp :: "nat \<Rightarrow> (nat \<Rightarrow> 'a::field) \<Rightarrow> (nat \<Rightarrow> 'a) \<Rightarrow> 'a" where
  "dotp w u x = (\<Sum>c<w. u c * x c)"

text \<open>
  The state of the elimination of an augmented matrix \<^verbatim>\<open>M\<close> before column \<^verbatim>\<open>col\<close>: the right half
  of every row times the left half of \<^verbatim>\<open>M\<close> is the left half of the row, the rows have no more
  solutions than those of \<^verbatim>\<open>M\<close>, and the first columns are those of the identity.
\<close>

definition gj_ok :: "nat \<Rightarrow> (nat \<Rightarrow> nat \<Rightarrow> 'a::field) \<Rightarrow> nat \<Rightarrow> (nat \<Rightarrow> nat \<Rightarrow> 'a) \<Rightarrow> bool" where
  "gj_ok n M col A \<longleftrightarrow>
     (\<forall>r<n. \<forall>c<n. A r c = (\<Sum>t<n. A r (n + t) * M t c)) \<and>
     (\<forall>x. (\<forall>r<n. dotp (2 * n) (A r) x = 0) \<longrightarrow> (\<forall>r<n. dotp (2 * n) (M r) x = 0)) \<and>
     (\<forall>c<col. \<forall>r<n. A r c = (if r = c then 1 else 0))"

lemma sum_lincomb: "(\<Sum>t<n. (f t + k * (- g t)) * h t) = (\<Sum>t<n. f t * h t) + k * (- (\<Sum>t<n. g t * h t))"
  for k :: "'a::field" and n :: nat
  by (induction n) (simp_all add: algebra_simps)

lemma mult_right_swap: "a * b * c = a * c * b" for a :: "'a::field"
  by (simp add: ac_simps)

lemma sum_halves: "(\<Sum>c<n + m. f c) = (\<Sum>c<n. f c) + (\<Sum>t<m. f (n + t))" for f :: "nat \<Rightarrow> 'a::comm_monoid_add"
  by (induction m) (simp_all add: add.assoc)

lemma gj_okD:
  assumes "gj_ok n M col A"
  shows "\<And>r c. r < n \<Longrightarrow> c < n \<Longrightarrow> A r c = (\<Sum>t<n. A r (n + t) * M t c)"
    and "\<And>x r. (\<And>r. r < n \<Longrightarrow> dotp (2 * n) (A r) x = 0) \<Longrightarrow> r < n \<Longrightarrow> dotp (2 * n) (M r) x = 0"
    and "\<And>c r. c < col \<Longrightarrow> r < n \<Longrightarrow> A r c = (if r = c then 1 else 0)"
  using assms unfolding gj_ok_def by blast+

lemma gj_cong:
  assumes "gj_ok n M col A" "col \<le> n" "\<And>r c. r < n \<Longrightarrow> c < 2 * n \<Longrightarrow> B r c = A r c"
  shows "gj_ok n M col B"
proof -
  have "dotp (2 * n) (B r) x = dotp (2 * n) (A r) x" if "r < n" for r x
    unfolding dotp_def using assms(3) that by (intro sum.cong) auto
  moreover have "(\<Sum>t<n. B r (n + t) * M t c) = (\<Sum>t<n. A r (n + t) * M t c)" if "r < n" for r c
    using assms(3) that by (intro sum.cong) auto
  ultimately show ?thesis using assms unfolding gj_ok_def by auto
qed

lemma gj_start:
  assumes "\<And>r t. r < n \<Longrightarrow> t < n \<Longrightarrow> M r (n + t) = (if r = t then 1 else 0)"
  shows "gj_ok n M 0 M"
proof -
  have "(\<Sum>t<n. M r (n + t) * M t c) = M r c" if "r < n" for r c
  proof -
    have "(\<Sum>t<n. M r (n + t) * M t c) = (\<Sum>t<n. if t = r then M t c else 0)"
      using assms that by (intro sum.cong) auto
    then show ?thesis using that by simp
  qed
  then show ?thesis by (simp add: gj_ok_def)
qed

lemma gj_swap:
  assumes ok: "gj_ok n M col A" and "col \<le> piv" "piv < n"
  shows "gj_ok n M col (\<lambda>r. if r = col then A piv else if r = piv then A col else A r)" (is "gj_ok n M col ?B")
proof -
  have sur: "\<exists>r'<n. ?B r' = A r" if "r < n" for r
    using that assms(2,3) by (cases "r = col"; cases "r = piv") (auto intro: exI[of _ r] exI[of _ piv] exI[of _ col])
  have inj: "\<exists>r'<n. A r' = ?B r" if "r < n" for r
    using that assms(2,3) by (intro exI[of _ "if r = col then piv else if r = piv then col else r"]) auto
  have 1: "?B r c = (\<Sum>t<n. ?B r (n + t) * M t c)" if rc: "r < n" "c < n" for r c
  proof -
    obtain r' where r': "r' < n" "A r' = ?B r" using inj[OF rc(1)] by blast
    show ?thesis using gj_okD(1)[OF ok r'(1) rc(2)] unfolding r'(2) .
  qed
  have 2: "dotp (2 * n) (M r) x = 0" if x: "\<forall>r<n. dotp (2 * n) (?B r) x = 0" "r < n" for r x
  proof (rule gj_okD(2)[OF ok _ that(2)])
    fix r assume "r < n"
    then obtain r' where r': "r' < n" "?B r' = A r" using sur by blast
    show "dotp (2 * n) (A r) x = 0" using x(1) r'(1) unfolding r'(2)[symmetric] by blast
  qed
  have 3: "?B r c = (if r = c then 1 else 0)" if "c < col" "r < n" for c r
    using gj_okD(3)[OF ok that(1)] that assms(2,3) by auto
  show ?thesis unfolding gj_ok_def using 1 2 3 by blast
qed

lemma gj_eliminate:
  assumes ok: "gj_ok n M col A" and col: "col < n" and piv: "A col col \<noteq> 0"
  defines "p \<equiv> (\<lambda>c. A col c * inverse (A col col))"
  shows "gj_ok n M (Suc col) (\<lambda>r c. if r = col then p c else A r c + A r col * (- p c))" (is "gj_ok n M _ ?B")
proof -
  have rel: "p c = (\<Sum>t<n. p (n + t) * M t c)" if "c < n" for c
  proof -
    have "p c = (\<Sum>t<n. A col (n + t) * M t c) * inverse (A col col)"
      unfolding p_def using gj_okD(1)[OF ok col that] by (rule arg_cong[where f = "\<lambda>v. v * inverse (A col col)"])
    also have "\<dots> = (\<Sum>t<n. p (n + t) * M t c)"
      unfolding sum_distrib_right p_def by (intro sum.cong refl) (rule mult_right_swap)
    finally show ?thesis .
  qed
  have 1: "?B r c = (\<Sum>t<n. ?B r (n + t) * M t c)" if "r < n" "c < n" for r c
  proof (cases "r = col")
    case False
    have "A r c + A r col * (- p c) = (\<Sum>t<n. A r (n + t) * M t c) + A r col * (- (\<Sum>t<n. p (n + t) * M t c))"
      using gj_okD(1)[OF ok that] rel[OF that(2)] by simp
    also have "\<dots> = (\<Sum>t<n. (A r (n + t) + A r col * (- p (n + t))) * M t c)"
      by (rule sum_lincomb[symmetric])
    finally show ?thesis using False by simp
  qed (simp add: rel that)
  have 2: "dotp (2 * n) (M r) x = 0" if x: "\<forall>r<n. dotp (2 * n) (?B r) x = 0" "r < n" for r x
  proof (rule gj_okD(2)[OF ok _ that(2)])
    fix r assume r: "r < n"
    have p0: "dotp (2 * n) p x = 0" using x(1)[rule_format, OF col] by simp
    show "dotp (2 * n) (A r) x = 0"
    proof (cases "r = col")
      case True
      have k: "A col c * y = A col col * (p c * y)" for c y using piv by (simp add: p_def)
      have "dotp (2 * n) (A col) x = A col col * dotp (2 * n) p x"
        unfolding dotp_def sum_distrib_left by (intro sum.cong refl) (rule k)
      then show ?thesis using p0 True by simp
    next
      case False
      then have "dotp (2 * n) (\<lambda>c. A r c + A r col * (- p c)) x = 0"
        using x(1)[rule_format, OF r] by (simp only: if_False)
      moreover have "dotp (2 * n) (\<lambda>c. A r c + A r col * (- p c)) x = dotp (2 * n) (A r) x + A r col * (- dotp (2 * n) p x)"
        unfolding dotp_def by (rule sum_lincomb)
      ultimately show ?thesis using p0 by simp
    qed
  qed
  have 3: "?B r c = (if r = c then 1 else 0)" if "c < Suc col" "r < n" for c r
  proof (cases "c = col")
    case True
    then show ?thesis using piv by (simp add: p_def)
  next
    case False
    then have "p c = 0" using gj_okD(3)[OF ok, of c col] that col by (simp add: p_def)
    then show ?thesis using gj_okD(3)[OF ok, of c r] that False by auto
  qed
  show ?thesis unfolding gj_ok_def using 1 2 3 by blast
qed

lemma gj_done:
  assumes ok: "gj_ok n M n A" and aug: "\<And>r t. r < n \<Longrightarrow> t < n \<Longrightarrow> M r (n + t) = (if r = t then 1 else 0)"
  shows "\<And>r c. r < n \<Longrightarrow> c < n \<Longrightarrow> (\<Sum>t<n. A r (n + t) * M t c) = (if r = c then 1 else 0)"
    and "\<And>y t. (\<And>r. r < n \<Longrightarrow> (\<Sum>t<n. A r (n + t) * y t) = 0) \<Longrightarrow> t < n \<Longrightarrow> y t = 0"
proof -
  show "(\<Sum>t<n. A r (n + t) * M t c) = (if r = c then 1 else 0)" if "r < n" "c < n" for r c
    using gj_okD(1)[OF ok that] gj_okD(3)[OF ok that(2,1)] by simp
  fix y t assume y: "\<And>r. r < n \<Longrightarrow> (\<Sum>t<n. A r (n + t) * y t) = 0" and t: "t < n"
  let ?x = "\<lambda>c. if c < n then 0 else y (c - n)"
  have right: "dotp (2 * n) u ?x = (\<Sum>t<n. u (n + t) * y t)" for u
  proof -
    have "dotp (2 * n) u ?x = (\<Sum>c<n + n. u c * ?x c)" by (simp add: dotp_def mult_2)
    also have "\<dots> = (\<Sum>c<n. u c * ?x c) + (\<Sum>t<n. u (n + t) * ?x (n + t))" by (rule sum_halves)
    finally show ?thesis by simp
  qed
  have "dotp (2 * n) (M t) ?x = 0" using gj_okD(2)[OF ok _ t, of ?x] y right by simp
  then have "(\<Sum>s<n. M t (n + s) * y s) = 0" using right by simp
  moreover have "(\<Sum>s<n. M t (n + s) * y s) = (\<Sum>s<n. if s = t then y s else 0)" using aug t by (intro sum.cong) auto
  ultimately show "y t = 0" using t by simp
qed

lemma gj_stuck:
  assumes ok: "gj_ok n M col A" and col: "col < n" and zero: "\<And>r. col \<le> r \<Longrightarrow> r < n \<Longrightarrow> A r col = 0"
  shows "\<exists>x. x col = 1 \<and> (\<forall>r<n. (\<Sum>c<n. M r c * x c) = 0)"
proof -
  let ?x = "\<lambda>c. if c = col then 1 else if c < col then - A c col else 0"
  have left: "dotp (2 * n) u ?x = (\<Sum>c<n. u c * ?x c)" for u
  proof -
    have "dotp (2 * n) u ?x = (\<Sum>c<n. u c * ?x c) + (\<Sum>t<n. u (n + t) * ?x (n + t))"
      unfolding dotp_def mult_2 by (rule sum_halves)
    moreover have "(\<Sum>t<n. u (n + t) * ?x (n + t)) = 0" using col by (intro sum.neutral) auto
    ultimately show ?thesis by simp
  qed
  have "(\<Sum>c<n. A r c * ?x c) = 0" if r: "r < n" for r
  proof -
    have "(\<Sum>c<n. A r c * ?x c) = (\<Sum>c<n. (if c = r \<and> r < col then - A r col else 0) + (if c = col then A r col else 0))"
      using gj_okD(3)[OF ok _ r] by (intro sum.cong) auto
    also have "\<dots> = (\<Sum>c<n. if c = r \<and> r < col then - A r col else 0) + A r col"
      using col by (simp add: sum.distrib)
    also have "\<dots> = 0" using zero[of r] r by (cases "r < col") simp_all
    finally show ?thesis .
  qed
  then have "(\<Sum>c<n. M r c * ?x c) = 0" if "r < n" for r using gj_okD(2)[OF ok _ that, of ?x] left by simp
  then show ?thesis by (intro exI[of _ ?x]) simp
qed

subsection \<open>Vandermonde matrices\<close>

lemma synthetic_division:
  fixes a :: "nat \<Rightarrow> 'a::field"
  shows "\<exists>b. (\<forall>x. (\<Sum>c<Suc n. a c * x ^ c) = (x - z) * (\<Sum>c<n. b c * x ^ c) + (\<Sum>c<Suc n. a c * z ^ c)) \<and>
    ((\<forall>c<n. b c = 0) \<longrightarrow> (\<forall>c. 0 < c \<and> c < Suc n \<longrightarrow> a c = 0))"
proof (induction n arbitrary: a)
  case 0
  show ?case by simp
next
  case (Suc n)
  obtain b where b: "\<And>x. (\<Sum>c<Suc n. a (Suc c) * x ^ c) = (x - z) * (\<Sum>c<n. b c * x ^ c) + (\<Sum>c<Suc n. a (Suc c) * z ^ c)"
    "(\<forall>c<n. b c = 0) \<longrightarrow> (\<forall>c. 0 < c \<and> c < Suc n \<longrightarrow> a (Suc c) = 0)"
    using Suc.IH[of "\<lambda>c. a (Suc c)"] by blast
  define q where "q = (\<Sum>c<Suc n. a (Suc c) * z ^ c)"
  have shift: "(\<Sum>c<Suc m. f c * x ^ c) = f 0 + x * (\<Sum>c<m. f (Suc c) * x ^ c)" for f :: "nat \<Rightarrow> 'a" and x m
    by (simp only: sum.lessThan_Suc_shift sum_distrib_left) (simp add: ac_simps)
  let ?b = "case_nat q b"
  have "(\<Sum>c<Suc (Suc n). a c * x ^ c) = (x - z) * (\<Sum>c<Suc n. ?b c * x ^ c) + (\<Sum>c<Suc (Suc n). a c * z ^ c)" for x
    unfolding shift[of a] shift[of ?b] nat.case b(1)[of x] q_def[symmetric] by (simp add: algebra_simps)
  moreover have "\<forall>c. 0 < c \<and> c < Suc (Suc n) \<longrightarrow> a c = 0" if zero: "\<forall>c<Suc n. ?b c = 0"
  proof -
    have "b c = 0" if "c < n" for c using zero that by (auto dest: spec[of _ "Suc c"])
    then have tl: "\<forall>c. 0 < c \<and> c < Suc n \<longrightarrow> a (Suc c) = 0" using b(2) by blast
    have "q = 0" using zero by auto
    moreover have "q = a 1" unfolding q_def shift[of "\<lambda>c. a (Suc c)"] using tl by simp
    ultimately have "a 1 = 0" by simp
    then show ?thesis using tl by (metis One_nat_def Suc_less_eq gr0_conv_Suc not_gr_zero)
  qed
  ultimately show ?case by blast
qed

lemma vandermonde_kernel:
  fixes a :: "nat \<Rightarrow> 'a::field"
  assumes "finite R" "card R = n" "\<And>z. z \<in> R \<Longrightarrow> (\<Sum>c<n. a c * z ^ c) = 0" "c < n"
  shows "a c = 0"
  using assms
proof (induction n arbitrary: a R c)
  case (Suc n)
  obtain z R' where R: "R = insert z R'" "z \<notin> R'" "card R' = n" using Suc.prems(2) by (auto simp: card_Suc_eq)
  obtain b where b: "\<And>x. (\<Sum>c<Suc n. a c * x ^ c) = (x - z) * (\<Sum>c<n. b c * x ^ c) + (\<Sum>c<Suc n. a c * z ^ c)"
    "(\<forall>c<n. b c = 0) \<longrightarrow> (\<forall>c. 0 < c \<and> c < Suc n \<longrightarrow> a c = 0)"
    using synthetic_division[of a n z] by blast
  have "(\<Sum>c<n. b c * y ^ c) = 0" if y: "y \<in> R'" for y
  proof -
    have "(y - z) * (\<Sum>c<n. b c * y ^ c) = 0" using b(1)[of y] Suc.prems(3)[of y] Suc.prems(3)[of z] R(1) y by simp
    moreover have "y \<noteq> z" using y R(2) by auto
    ultimately show ?thesis by simp
  qed
  then have "\<forall>c<n. b c = 0" using Suc.IH[of R' b] R(1,3) Suc.prems(1) by auto
  then have tl: "a c = 0" if "0 < c" "c < Suc n" for c using b(2) that by blast
  have "(\<Sum>c<Suc n. a c * z ^ c) = a 0" using tl by (simp add: sum.lessThan_Suc_shift del: sum.lessThan_Suc)
  then have "a 0 = 0" using Suc.prems(3)[of z] R(1) by simp
  then show ?case using tl Suc.prems(4) by (cases c) auto
qed simp

end
