(* ===== verification/GF256.thy ===== *)
theory GF256
  imports Prelude
begin

text \<open>
  Arithmetic of the field with 256 elements (module \<^verbatim>\<open>gf\<close> of
  \<^verbatim>\<open>crates/turbine/src/erasure.rs\<close>): the exponent and logarithm tables the code builds, and
  multiplication, inverse and power over them. The lemmas show that the tables hold the powers
  of a generator of order 255, that multiplication distributes over XOR, and so that bytes
  with XOR and \<^verbatim>\<open>mul\<close> are a field.
\<close>

subsection \<open>Tables\<close>

definition gf_next :: "u16 \<Rightarrow> u16" where
  "gf_next x = (let x = push_bit 1 x in if x AND 0x100 \<noteq> 0 then x XOR 0x11d else x)"

record gf_tables =
  gf_exp :: "u8 list"
  gf_log :: "u8 list"

fun gf_fill :: "nat list \<Rightarrow> u16 \<Rightarrow> gf_tables \<Rightarrow> gf_tables" where
  "gf_fill [] x t = t"
| "gf_fill (i # is) x t =
     gf_fill is (gf_next x) (t\<lparr>gf_exp := (gf_exp t)[i := ucast x], gf_log := (gf_log t)[unat x := of_nat i]\<rparr>)"

definition copy_within :: "nat \<Rightarrow> nat \<Rightarrow> nat \<Rightarrow> 'a list \<Rightarrow> 'a list" where
  "copy_within start stop dest xs =
     take dest xs @ take (stop - start) (drop start xs) @ drop (dest + (stop - start)) xs"

definition gf_table :: gf_tables where
  "gf_table =
     (let t = gf_fill [0..<255] 1 \<lparr>gf_exp = replicate 512 0, gf_log = replicate 256 0\<rparr>
      in t\<lparr>gf_exp := copy_within 0 255 255 (gf_exp t)\<rparr>)"

definition gf_mul :: "u8 \<Rightarrow> u8 \<Rightarrow> u8" where
  "gf_mul a b =
     (if a = 0 \<or> b = 0 then 0
      else gf_exp gf_table ! (unat (gf_log gf_table ! unat a) + unat (gf_log gf_table ! unat b)))"

definition gf_inv :: "u8 \<Rightarrow> u8 option" where
  "gf_inv a = (if a = 0 then None else Some (gf_exp gf_table ! (255 - unat (gf_log gf_table ! unat a))))"

primrec gf_pow :: "u8 \<Rightarrow> nat \<Rightarrow> u8" where
  "gf_pow b 0 = 1"
| "gf_pow b (Suc e) = gf_mul (gf_pow b e) b"

subsection \<open>Powers of the generator\<close>

lemma gf_next_bit: "gf_next x = (if bit x 7 then push_bit 1 x XOR 0x11d else push_bit 1 x)"
proof -
  have "push_bit 1 x AND 0x100 \<noteq> 0 \<longleftrightarrow> bit x 7"
  proof -
    have "(0x100 :: u16) = push_bit 8 1" by simp
    then have "push_bit 1 x AND 0x100 \<noteq> 0 \<longleftrightarrow> bit (push_bit 1 x) 8"
      by (simp only: bit_iff_and_push_bit_not_eq_0)
    then show ?thesis unfolding bit_push_bit_iff by simp
  qed
  then show ?thesis by (simp add: gf_next_def Let_def)
qed

lemma xor_cancel: "a XOR (c XOR (b XOR c)) = a XOR (b :: 'a::len word)"
  by (rule bit_word_eqI) (auto simp: bit_xor_iff)

lemma gf_next_xor: "gf_next (x XOR y) = gf_next x XOR gf_next y"
proof -
  have c: "push_bit 1 x XOR push_bit 1 y XOR k = push_bit 1 x XOR k XOR push_bit 1 y" for k :: u16
    by (rule bit_word_eqI) (auto simp: bit_xor_iff)
  show ?thesis
    by (cases "bit x 7"; cases "bit y 7")
      (simp_all only: gf_next_bit bit_xor_iff push_bit_xor xor_cancel c xor.assoc if_True if_False simp_thms)
qed

lemma byte_iff: "x < 256 \<longleftrightarrow> (\<forall>n\<ge>8. \<not> bit x n)" for x :: u16
proof -
  have "unat (take_bit 8 x) = take_bit 8 (unat x)" by (rule unsigned_take_bit_eq)
  then have "x < 256 \<longleftrightarrow> unat (take_bit 8 x) = unat x"
    by (simp only: word_less_nat_alt take_bit_nat_eq_self_iff) simp
  then have lt: "x < 256 \<longleftrightarrow> take_bit 8 x = x" by (simp only: word_unat_eq_iff[of "take_bit 8 x"])
  have "take_bit 8 x = x \<longleftrightarrow> (\<forall>n. (n < 8 \<and> bit x n) = bit x n)"
    by (simp only: bit_eq_iff bit_take_bit_iff possible_bit_word) (metis bit_imp_le_length not_le)
  then show ?thesis unfolding lt by (metis not_le)
qed

lemma bit_push1: "bit (push_bit 1 x) n \<longleftrightarrow> 0 < n \<and> n < 16 \<and> bit x (n - 1)" for x :: u16
  unfolding bit_push_bit_iff by (auto simp: possible_bit_word)

lemma bit_poly: "bit (0x11d :: u16) n \<longleftrightarrow> n \<in> {0, 2, 3, 4, 8}"
proof (cases "n < 16")
  case True
  have "list_all (\<lambda>n. bit (0x11d :: u16) n \<longleftrightarrow> n \<in> {0, 2, 3, 4, 8}) [0..<16]" by code_simp
  then show ?thesis using True by (auto simp: list_all_iff)
next
  case False
  then have "\<not> bit (0x11d :: u16) n" using bit_imp_le_length[of "0x11d :: u16" n] by auto
  then show ?thesis using False by auto
qed

lemma gf_next_byte: "x < 256 \<Longrightarrow> gf_next x < 256"
  unfolding byte_iff
proof (intro allI impI)
  fix n :: nat assume x: "\<forall>n\<ge>8. \<not> bit x n" and n: "8 \<le> n"
  have b: "bit (gf_next x) n \<longleftrightarrow> (n < 16 \<and> bit x (n - 1)) \<noteq> (bit x 7 \<and> n \<in> {0, 2, 3, 4, 8})"
    unfolding gf_next_bit using n by (cases "bit x 7") (simp_all only: if_True if_False bit_xor_iff bit_push1 bit_poly, auto)
  show "\<not> bit (gf_next x) n"
  proof (cases "n = 8")
    case False
    then have "\<not> bit x (n - 1)" using n x by simp
    then show ?thesis unfolding b using n False by simp
  next
    case True
    then show ?thesis using b by simp
  qed
qed


lemma gf_next_0 [simp]: "gf_next 0 = 0"
  by (simp add: gf_next_bit)

lemma gf_next_eq_0:
  assumes "x < 256" "gf_next x = 0"
  shows "x = 0"
proof -
  have n7: "\<not> bit x 7"
  proof
    assume "bit x 7"
    then have "bit (gf_next x) 0" unfolding gf_next_bit by (simp only: if_True bit_xor_iff bit_push1 bit_poly) simp
    then show False using assms(2) by simp
  qed
  have p: "push_bit 1 x = 0" using assms(2) n7 unfolding gf_next_bit by (simp only: if_False)
  have "\<not> bit x n" for n
  proof (cases "n < 15")
    case True
    have "\<not> bit (push_bit 1 x) (Suc n)" unfolding p by simp
    then show ?thesis unfolding bit_push1 using True by simp
  next
    case False
    then show ?thesis using assms(1) unfolding byte_iff by simp
  qed
  then show ?thesis by (simp add: bit_eq_iff)
qed

lemma xor_eq_0: "x XOR y = 0 \<Longrightarrow> x = (y :: 'a::len word)"
proof (rule bit_word_eqI)
  fix n assume "x XOR y = 0"
  then have "\<not> bit (x XOR y) n" by simp
  then show "bit x n = bit y n" by (simp add: bit_xor_iff)
qed

lemma gf_next_inj:
  assumes "x < 256" "y < 256" "gf_next x = gf_next y"
  shows "x = y"
proof -
  have "gf_next (x XOR y) = 0" "x XOR y < 256"
    using assms(1,2) unfolding byte_iff by (simp_all add: gf_next_xor assms(3) bit_xor_iff)
  then have "x XOR y = 0" by (rule gf_next_eq_0[rotated])
  then show "x = y" by (rule xor_eq_0)
qed

definition gpow :: "nat \<Rightarrow> u16" where
  "gpow i = (gf_next ^^ i) 1"

lemma gpow_simps [simp]: "gpow 0 = 1" "gpow (Suc i) = gf_next (gpow i)"
  by (simp_all add: gpow_def)

lemma gpow_numeral: "gpow (numeral n) = gf_next (gpow (pred_numeral n))"
  by (simp only: numeral_eq_Suc gpow_simps)

lemma gpow_vals: "gpow 15 = 38" "gpow 51 = 10" "gpow 85 = 0xd6" "gpow 255 = 1"
  by (simp_all add: gpow_numeral gf_next_def)

lemma gpow_byte [simp]: "gpow i < 256"
  by (induction i) (simp_all add: gf_next_byte)

lemma gpow_nonzero [simp]: "gpow i \<noteq> 0"
proof (induction i)
  case (Suc i)
  then show ?case using gf_next_eq_0[of "gpow i"] by auto
qed simp

lemma gpow_cancel: "gpow (i + n) = gpow (j + n) \<Longrightarrow> gpow i = gpow j"
proof (induction n)
  case (Suc n)
  then show ?case using gf_next_inj[of "gpow (i + n)" "gpow (j + n)"] by simp
qed simp

lemma gpow_add_1: "gpow j = 1 \<Longrightarrow> gpow (i + j) = gpow i"
  by (induction i) simp_all

lemma gpow_mult_1: "gpow j = 1 \<Longrightarrow> gpow (n * j) = 1"
  by (induction n) (simp_all add: gpow_add_1 add.commute)

lemma gpow_mod: "gpow (i mod 255) = gpow i"
proof -
  have "gpow (i mod 255 + i div 255 * 255) = gpow (i mod 255)" by (rule gpow_add_1[OF gpow_mult_1[OF gpow_vals(4)]])
  then show ?thesis by simp
qed

lemma proper_divisor_255:
  assumes "g dvd 255" "g < 255"
  shows "g dvd 15 \<or> g dvd 51 \<or> g dvd (85::nat)"
proof -
  obtain q where q: "255 = g * q" using assms(1) by (rule dvdE)
  have small: "list_all (\<lambda>g. g dvd 255 \<longrightarrow> g dvd (15::nat)) [0..<16]" by code_simp
  have large: "list_all (\<lambda>q. q dvd 255 \<longrightarrow> 255 div q dvd 51 \<or> 255 div q dvd (85::nat)) [2..<16]" by code_simp
  show ?thesis
  proof (cases "g < 16")
    case True
    then show ?thesis using small assms(1) by (auto simp: list_all_iff)
  next
    case False
    have "q < 16"
    proof (rule ccontr)
      assume "\<not> q < 16"
      then have "16 * 16 \<le> g * q" using False by (intro mult_le_mono) auto
      then show False using q by simp
    qed
    moreover have "q \<noteq> 0" "q \<noteq> 1" using q assms(2) by (intro notI; simp)+
    moreover have "q dvd 255" "255 div q = g" unfolding q using \<open>q \<noteq> 0\<close> by simp_all
    moreover have "q \<in> set [2..<16]" unfolding set_upt atLeastLessThan_iff using calculation(1-3) by linarith
    ultimately show ?thesis using large[unfolded list_all_iff] by blast
  qed
qed

lemma gpow_order: assumes "gpow i = 1" "0 < i" shows "255 \<le> i"
proof (rule ccontr)
  assume i: "\<not> 255 \<le> i"
  obtain x y where xy: "i * x = 255 * y + gcd i 255" using bezout_nat[of i 255] assms(2) by auto
  have "gpow (gcd i 255 + y * 255) = 1" using gpow_mult_1[OF assms(1), of x] xy by (simp add: ac_simps)
  then have g: "gpow (gcd i 255) = 1" using gpow_add_1[OF gpow_mult_1[OF gpow_vals(4)]] by metis
  have "gcd i 255 \<le> i" using assms(2) by (simp add: gcd_le1_nat)
  then have "gcd i 255 dvd 15 \<or> gcd i 255 dvd 51 \<or> gcd i 255 dvd 85" using i by (intro proper_divisor_255) auto
  then have "gpow 15 = 1 \<or> gpow 51 = 1 \<or> gpow 85 = 1" using gpow_mult_1[OF g] by (metis dvd_def mult.commute)
  then show False by (simp add: gpow_vals)
qed

lemma gpow_inj_le: assumes "gpow i = gpow j" "i \<le> j" "j < 255" shows "i = j"
proof -
  have "gpow (0 + i) = gpow ((j - i) + i)" using assms by simp
  then have "gpow 0 = gpow (j - i)" by (rule gpow_cancel)
  then have "gpow (j - i) = 1" by simp
  then show ?thesis using gpow_order[of "j - i"] assms by linarith
qed

lemma gpow_inj: "i < 255 \<Longrightarrow> j < 255 \<Longrightarrow> gpow i = gpow j \<Longrightarrow> i = j"
  using gpow_inj_le[of i j] gpow_inj_le[of j i] by (cases "i \<le> j") auto

lemma gpow_onto: assumes "x < 256" "x \<noteq> 0" shows "\<exists>i<255. x = gpow i"
proof -
  have "card (gpow ` {..<255}) = 255" by (subst card_image) (auto intro!: inj_onI gpow_inj)
  moreover have "gpow ` {..<255} \<subseteq> {x. x \<noteq> 0 \<and> x < 256}" by auto
  moreover have "{x :: u16. x \<noteq> 0 \<and> x < 256} = of_nat ` {1..<256}"
  proof (intro set_eqI iffI)
    fix x :: u16 assume "x \<in> {x. x \<noteq> 0 \<and> x < 256}"
    then have "unat x \<in> {1..<256}" "x = of_nat (unat x)" by (auto simp: word_less_nat_alt Suc_le_eq unat_gt_0)
    then show "x \<in> of_nat ` {1..<256}" by blast
  next
    fix x :: u16 assume "x \<in> of_nat ` {1..<256}"
    then obtain n where "x = of_nat n" "1 \<le> n" "n < 256" by auto
    then show "x \<in> {x. x \<noteq> 0 \<and> x < 256}" by (simp add: word_less_nat_alt unat_of_nat flip: unat_gt_0)
  qed
  ultimately have "gpow ` {..<255} = {x. x \<noteq> 0 \<and> x < 256}"
    using card_image_le[of "{1..<256::nat}" "of_nat :: nat \<Rightarrow> u16"] by (intro card_seteq) auto
  then show ?thesis using assms by blast
qed

subsection \<open>The tables hold the powers\<close>

definition gexp :: "nat \<Rightarrow> u8" where
  "gexp i = ucast (gpow i)"

lemma byte_ucast: "x < 256 \<Longrightarrow> unat (ucast x :: u8) = unat x" for x :: u16
  by (simp add: unsigned_ucast_eq take_bit_nat_eq_self word_less_nat_alt)

lemma unat_gpow: "unat (gpow i) = unat (gexp i)"
  by (simp add: gexp_def byte_ucast)

lemma gexp_eq: "gexp i = gexp j \<longleftrightarrow> gpow i = gpow j"
  by (metis gexp_def unat_gpow word_unat_eq_iff)

lemma gexp_0 [simp]: "gexp 0 = 1"
  by (simp add: gexp_def)

lemma gexp_inj: "i < 255 \<Longrightarrow> j < 255 \<Longrightarrow> gexp i = gexp j \<longleftrightarrow> i = j"
  using gexp_eq gpow_inj by blast

lemma gexp_mod [simp]: "gexp (i mod 255) = gexp i"
  by (simp add: gexp_def gpow_mod)

lemma gexp_nonzero [simp]: "gexp i \<noteq> 0"
  using unat_gpow[of i] gpow_nonzero[of i] by (metis unat_eq_zero)

lemma gexp_onto: assumes "b \<noteq> 0" shows "\<exists>i<255. b = gexp i"
proof -
  define x where "x = (ucast b :: u16)"
  have b: "b = ucast x" unfolding x_def by (rule ucast_up_ucast_id[symmetric]) (simp add: is_up)
  have lt: "unat b < 256" using unsigned_less[of b, where 'a = nat] by simp
  then have "unat x = unat b" by (simp add: x_def unsigned_ucast_eq take_bit_nat_eq_self)
  then have "x < 256" using lt by (simp add: word_less_nat_alt)
  moreover have "x \<noteq> 0" using assms b by auto
  ultimately obtain i where "i < 255" "x = gpow i" using gpow_onto by blast
  then show ?thesis using b by (auto simp: gexp_def)
qed

definition table_upto :: "nat \<Rightarrow> gf_tables \<Rightarrow> bool" where
  "table_upto n t \<longleftrightarrow> length (gf_exp t) = 512 \<and> length (gf_log t) = 256 \<and>
     (\<forall>i<n. gf_exp t ! i = gexp i \<and> gf_log t ! unat (gexp i) = of_nat i)"

lemma gf_fill_step:
  assumes "table_upto a t" "a < 255"
  shows "table_upto (Suc a) (t\<lparr>gf_exp := (gf_exp t)[a := ucast (gpow a)], gf_log := (gf_log t)[unat (gpow a) := of_nat a]\<rparr>)"
proof -
  have "unat (gexp a) < 256" using unsigned_less[of "gexp a", where 'a = nat] by simp
  moreover have "unat (gexp a) \<noteq> unat (gexp i)" if "i < a" for i using gexp_inj[of a i] that assms(2) by (simp flip: word_unat_eq_iff)
  ultimately show ?thesis
    using assms by (auto simp: table_upto_def unat_gpow gexp_def[symmetric] less_Suc_eq nth_list_update)
qed

lemma gf_fill_spec:
  "table_upto a t \<Longrightarrow> a \<le> b \<Longrightarrow> b \<le> 255 \<Longrightarrow> table_upto b (gf_fill [a..<b] (gpow a) t)"
proof (induction "b - a" arbitrary: a t)
  case (Suc n)
  then have "[a..<b] = a # [Suc a..<b]" by (simp add: upt_conv_Cons)
  moreover have "table_upto b (gf_fill [Suc a..<b] (gpow (Suc a))
      (t\<lparr>gf_exp := (gf_exp t)[a := ucast (gpow a)], gf_log := (gf_log t)[unat (gpow a) := of_nat a]\<rparr>))"
    using Suc.hyps(2) Suc.prems by (intro Suc.hyps(1) gf_fill_step) auto
  ultimately show ?case by simp
qed simp

lemma gf_table_spec: "table_upto 255 gf_table" "255 \<le> i \<Longrightarrow> i < 510 \<Longrightarrow> gf_exp gf_table ! i = gexp i"
proof -
  let ?t = "gf_fill [0..<255] 1 \<lparr>gf_exp = replicate 512 0, gf_log = replicate 256 0\<rparr>"
  have t: "table_upto 255 ?t" using gf_fill_spec[of 0 "\<lparr>gf_exp = replicate 512 0, gf_log = replicate 256 0\<rparr>" 255] by (simp add: table_upto_def)
  have len: "length (gf_exp ?t) = 512" using t by (simp add: table_upto_def)
  have e: "gf_exp gf_table ! i = (if i < 255 then gf_exp ?t ! i else if i < 510 then gf_exp ?t ! (i - 255) else gf_exp ?t ! i)" if "i < 512" for i
    using that len by (auto simp: gf_table_def Let_def copy_within_def nth_append min_def)
  show "table_upto 255 gf_table"
    using t e len by (simp add: table_upto_def) (simp add: gf_table_def Let_def copy_within_def)
  show "gf_exp gf_table ! i = gexp i" if "255 \<le> i" "i < 510"
  proof -
    have "i - 255 < 255" using that by linarith
    then have "gexp (i - 255) = gexp i" using gexp_mod[of i] that by (simp add: mod_if)
    then show ?thesis using e[of i] that t \<open>i - 255 < 255\<close> by (simp add: table_upto_def)
  qed
qed

subsection \<open>Field laws\<close>

lemma gf_log_gexp: "i < 255 \<Longrightarrow> unat (gf_log gf_table ! unat (gexp i)) = i"
  using gf_table_spec(1) by (simp add: table_upto_def unat_of_nat)

lemma gf_exp_lookup: "i < 510 \<Longrightarrow> gf_exp gf_table ! i = gexp i"
  using gf_table_spec by (cases "i < 255") (auto simp: table_upto_def)

lemma gf_mul_gexp: "gf_mul (gexp i) (gexp j) = gexp (i + j)"
proof -
  have small: "gf_mul (gexp i) (gexp j) = gexp (i + j)" if "i < 255" "j < 255" for i j
    using gf_exp_lookup[of "i + j"] that by (simp add: gf_mul_def gf_log_gexp)
  have "gf_mul (gexp (i mod 255)) (gexp (j mod 255)) = gexp ((i mod 255 + j mod 255) mod 255)"
    unfolding gexp_mod[of "i mod 255 + j mod 255"] by (rule small) simp_all
  then show ?thesis by (simp only: mod_add_eq gexp_mod)
qed

lemma gf_inv_gexp: "i < 255 \<Longrightarrow> gf_inv (gexp i) = Some (gexp (255 - i))"
  unfolding gf_inv_def by (simp add: gf_log_gexp gf_exp_lookup)

lemma gf_mul_0 [simp]: "gf_mul 0 b = 0" "gf_mul a 0 = 0"
  by (simp_all add: gf_mul_def)

lemma byte_cases: obtains "b = 0" | i where "i < 255" "b = gexp i"
  using gexp_onto by blast

lemma gf_mul_commute: "gf_mul a b = gf_mul b a"
  by (cases a rule: byte_cases; cases b rule: byte_cases) (simp_all add: gf_mul_gexp add.commute)

lemma gf_mul_assoc: "gf_mul (gf_mul a b) c = gf_mul a (gf_mul b c)"
  by (cases a rule: byte_cases; cases b rule: byte_cases; cases c rule: byte_cases) (simp_all add: gf_mul_gexp add.assoc)

lemma gf_mul_1: "gf_mul 1 b = b"
  by (cases b rule: byte_cases) (simp_all add: gf_mul_gexp flip: gexp_0)

lemma gf_next_funpow_xor: "(gf_next ^^ i) (x XOR y) = (gf_next ^^ i) x XOR (gf_next ^^ i) y"
  by (induction i) (simp_all add: gf_next_xor)

lemma gf_mul_shift: "gf_mul (gexp i) b = ucast ((gf_next ^^ i) (ucast b))"
proof (cases b rule: byte_cases)
  case 1
  have "(gf_next ^^ i) 0 = 0" by (induction i) simp_all
  then show ?thesis using 1 by simp
next
  case (2 j)
  have "unat (gpow j) < 256" using gpow_byte[of j] by (simp add: word_less_nat_alt)
  then have "unat (ucast (gexp j) :: u16) = unat (gpow j)"
    by (simp add: unsigned_ucast_eq unat_gpow take_bit_nat_eq_self)
  then have "(ucast (gexp j) :: u16) = gpow j" by (simp only: word_unat_eq_iff)
  then show ?thesis unfolding 2(2) gf_mul_gexp by (simp add: gexp_def gpow_def funpow_add)
qed

lemma gf_mul_xor: "gf_mul a (b XOR c) = gf_mul a b XOR gf_mul a c"
  by (cases a rule: byte_cases) (simp_all add: gf_mul_shift unsigned_xor_eq gf_next_funpow_xor)

text \<open>
  A copy of the byte type that carries the field structure, so that the library's lemmas on
  sums and products apply.
\<close>

typedef gf256 = "UNIV :: u8 set"
  morphisms byte_of gf_of by simp

setup_lifting type_definition_gf256

instantiation gf256 :: field
begin

lift_definition zero_gf256 :: gf256 is 0 .
lift_definition one_gf256 :: gf256 is 1 .
lift_definition plus_gf256 :: "gf256 \<Rightarrow> gf256 \<Rightarrow> gf256" is "(XOR)" .
lift_definition minus_gf256 :: "gf256 \<Rightarrow> gf256 \<Rightarrow> gf256" is "(XOR)" .
lift_definition uminus_gf256 :: "gf256 \<Rightarrow> gf256" is "\<lambda>x. x" .
lift_definition times_gf256 :: "gf256 \<Rightarrow> gf256 \<Rightarrow> gf256" is gf_mul .
lift_definition inverse_gf256 :: "gf256 \<Rightarrow> gf256" is "\<lambda>x. case gf_inv x of None \<Rightarrow> 0 | Some y \<Rightarrow> y" .

definition divide_gf256 :: "gf256 \<Rightarrow> gf256 \<Rightarrow> gf256" where
  "divide_gf256 x y = x * inverse y"

instance
proof
  fix a b c :: gf256
  show "a * b * c = a * (b * c)" by transfer (rule gf_mul_assoc)
  show "a * b = b * a" by transfer (rule gf_mul_commute)
  show "1 * a = a" by transfer (rule gf_mul_1)
  show "a + b + c = a + (b + c)" by transfer (rule xor.assoc)
  show "a + b = b + a" by transfer (rule xor.commute)
  show "0 + a = a" by transfer simp
  show "- a + a = 0" by transfer simp
  show "a - b = a + - b" by transfer simp
  show "(a + b) * c = a * c + b * c" by transfer (metis gf_mul_commute gf_mul_xor)
  show "(0::gf256) \<noteq> 1" by transfer simp
  show "inverse a * a = 1" if "a \<noteq> 0" using that
  proof transfer
    fix a :: u8 assume "a \<noteq> 0"
    then obtain i where i: "i < 255" "a = gexp i" using gexp_onto by blast
    then have "gexp (255 - i + i) = gexp 0" using gexp_mod[of 255] by simp
    then show "gf_mul (case gf_inv a of None \<Rightarrow> 0 | Some y \<Rightarrow> y) a = 1"
      using i by (simp add: gf_inv_gexp gf_mul_gexp)
  qed
  show "a div b = a * inverse b" by (rule divide_gf256_def)
  show "inverse (0::gf256) = 0" by transfer (simp add: gf_inv_def)
qed

end

lemma gf_of_ops:
  "gf_of 0 = 0" "gf_of 1 = 1" "gf_of (a XOR b) = gf_of a + gf_of b" "gf_of (gf_mul a b) = gf_of a * gf_of b"
  "gf_of a = 0 \<longleftrightarrow> a = 0" "gf_of a = gf_of b \<longleftrightarrow> a = b"
  by (transfer; simp)+

lemma gf_of_inv: "a \<noteq> 0 \<Longrightarrow> \<exists>b. gf_inv a = Some b \<and> gf_of b = inverse (gf_of a)"
  by transfer (auto simp: gf_inv_def)

lemma gf_of_pow: "gf_of (gf_pow b e) = gf_of b ^ e"
  by (induction e) (simp_all add: gf_of_ops mult.commute)

end
