(* ===== verification/ReedSolomon.thy ===== *)
theory ReedSolomon
  imports GaussJordan GF256
begin

text \<open>
  The matrices of the Reed-Solomon code (\<^verbatim>\<open>mat_inv\<close> and \<^verbatim>\<open>generator\<close> of
  \<^verbatim>\<open>crates/turbine/src/erasure.rs\<close>), as lists of rows of bytes. Inversion finds the inverse
  of every matrix with independent rows; the generator exists for up to 256 shards, starts
  with the identity, and any \<^verbatim>\<open>k\<close> of its rows are independent.
\<close>

subsection \<open>Matrix inversion\<close>

type_synonym matrix = "u8 list list"

definition augment :: "matrix \<Rightarrow> matrix" where
  "augment m = map (\<lambda>r. m ! r @ map (\<lambda>c. if c = r then 1 else 0) [0..<length m]) [0..<length m]"

definition swap_rows :: "nat \<Rightarrow> nat \<Rightarrow> matrix \<Rightarrow> matrix" where
  "swap_rows i j a = a[i := a ! j, j := a ! i]"

definition eliminate_row :: "nat \<Rightarrow> bytes \<Rightarrow> nat \<Rightarrow> bytes \<Rightarrow> bytes" where
  "eliminate_row col pivot_row r row =
     (if r \<noteq> col \<and> row ! col \<noteq> 0
      then map2 (\<lambda>v p. v XOR gf_mul (row ! col) p) row pivot_row @ drop (length pivot_row) row
      else row)"

fun gauss_jordan :: "nat \<Rightarrow> nat list \<Rightarrow> matrix \<Rightarrow> matrix option" where
  "gauss_jordan n [] a = Some a"
| "gauss_jordan n (col # cols) a =
     (case find (\<lambda>r. a ! r ! col \<noteq> 0) [col..<n] of
        None \<Rightarrow> None
      | Some piv \<Rightarrow>
          (let a = swap_rows col piv a
           in case gf_inv (a ! col ! col) of
                None \<Rightarrow> None
              | Some piv_inv \<Rightarrow>
                  (let a = a[col := map (\<lambda>v. gf_mul v piv_inv) (a ! col)];
                       pivot_row = a ! col
                   in gauss_jordan n cols (map (\<lambda>r. eliminate_row col pivot_row r (a ! r)) [0..<length a]))))"

definition mat_inv :: "matrix \<Rightarrow> matrix option" where
  "mat_inv m = map_option (map (drop (length m))) (gauss_jordan (length m) [0..<length m] (augment m))"

definition ent :: "matrix \<Rightarrow> nat \<Rightarrow> nat \<Rightarrow> gf256" where
  "ent a r c = gf_of (a ! r ! c)"

definition shape :: "nat \<Rightarrow> nat \<Rightarrow> matrix \<Rightarrow> bool" where
  "shape n w a \<longleftrightarrow> length a = n \<and> (\<forall>r<n. length (a ! r) = w)"

lemma swap_rows_spec:
  assumes "shape n w a" "i < n" "j < n"
  shows "shape n w (swap_rows i j a)"
    "r < n \<Longrightarrow> ent (swap_rows i j a) r = (if r = i then ent a j else if r = j then ent a i else ent a r)"
  using assms by (auto simp: shape_def swap_rows_def nth_list_update ent_def fun_eq_iff)

lemma gf256_minus: "- x = (x :: gf256)"
  by transfer simp

lemma eliminate_row_spec:
  assumes "length row = w" "length pivot_row = w" "col < w"
  shows "length (eliminate_row col pivot_row r row) = w"
    "c < w \<Longrightarrow> gf_of (eliminate_row col pivot_row r row ! c) =
       (if r = col then gf_of (row ! c) else gf_of (row ! c) + gf_of (row ! col) * (- gf_of (pivot_row ! c)))"
  using assms by (auto simp: eliminate_row_def gf_of_ops gf256_minus)

lemma gauss_jordan_spec:
  assumes "shape n (2 * n) a" "gj_ok n M col (ent a)" "col \<le> n"
  shows "case gauss_jordan n [col..<n] a of
      None \<Rightarrow> \<exists>x c. c < n \<and> x c = 1 \<and> (\<forall>r<n. (\<Sum>c<n. M r c * x c) = 0)
    | Some b \<Rightarrow> shape n (2 * n) b \<and> gj_ok n M n (ent b)"
  using assms
proof (induction "n - col" arbitrary: a col)
  case 0
  then show ?case by simp
next
  case (Suc k)
  then have col: "col < n" and upt: "[col..<n] = col # [Suc col..<n]" by (auto simp: upt_conv_Cons)
  show ?case
  proof (cases "find (\<lambda>r. a ! r ! col \<noteq> 0) [col..<n]")
    case None
    then have "ent a r col = 0" if "col \<le> r" "r < n" for r
      using that by (simp add: find_None_iff ent_def gf_of_ops)
    then have "\<exists>x. x col = 1 \<and> (\<forall>r<n. (\<Sum>c<n. M r c * x c) = 0)" by (rule gj_stuck[OF Suc.prems(2) col])
    then show ?thesis using None col by (auto simp: upt)
  next
    case (Some piv)
    then have piv: "col \<le> piv" "piv < n" "a ! piv ! col \<noteq> 0" by (auto simp: find_Some_iff)
    define a1 where "a1 = swap_rows col piv a"
    have a1: "shape n (2 * n) a1" "gj_ok n M col (ent a1)"
      unfolding a1_def using swap_rows_spec[OF Suc.prems(1) col piv(2)] gj_cong[OF gj_swap[OF Suc.prems(2) piv(1,2)] Suc.prems(3)]
      by auto
    have p: "ent a1 col col \<noteq> 0"
      using swap_rows_spec(2)[OF Suc.prems(1) col piv(2) col] piv(3) by (simp add: a1_def ent_def gf_of_ops)
    then obtain pinv where pinv: "gf_inv (a1 ! col ! col) = Some pinv" "gf_of pinv = inverse (ent a1 col col)"
      using gf_of_inv[of "a1 ! col ! col"] by (auto simp: ent_def gf_of_ops)
    define a2 where "a2 = a1[col := map (\<lambda>v. gf_mul v pinv) (a1 ! col)]"
    define a3 where "a3 = map (\<lambda>r. eliminate_row col (a2 ! col) r (a2 ! r)) [0..<length a2]"
    have a2: "shape n (2 * n) a2" using a1(1) col by (auto simp: a2_def shape_def nth_list_update)
    have a3: "shape n (2 * n) a3" using a2 eliminate_row_spec(1) col by (auto simp: a3_def shape_def)
    have "ent a3 r c = (if r = col then ent a1 col c * inverse (ent a1 col col)
        else ent a1 r c + ent a1 r col * (- (ent a1 col c * inverse (ent a1 col col))))" if "r < n" "c < 2 * n" for r c
    proof -
      have "ent a3 r c = gf_of (eliminate_row col (a2 ! col) r (a2 ! r) ! c)" using that a2 by (simp add: a3_def ent_def shape_def)
      then show ?thesis using eliminate_row_spec(2)[of "a2 ! r" "2 * n" "a2 ! col" col c r] a2 a1(1) that col
        by (simp add: shape_def a2_def ent_def nth_list_update gf_of_ops pinv(2))
    qed
    then have "gj_ok n M (Suc col) (ent a3)" using gj_cong[OF gj_eliminate[OF a1(2) col p]] col by auto
    then have "case gauss_jordan n [Suc col..<n] a3 of
      None \<Rightarrow> \<exists>x c. c < n \<and> x c = 1 \<and> (\<forall>r<n. (\<Sum>c<n. M r c * x c) = 0)
    | Some b \<Rightarrow> shape n (2 * n) b \<and> gj_ok n M n (ent b)"
      using Suc.hyps a3 col by (intro Suc.hyps(1)) auto
    then show ?thesis using Some pinv(1) by (simp add: upt Let_def a1_def[symmetric] a2_def[symmetric] a3_def[symmetric])
  qed
qed

lemma augment_spec:
  assumes "shape n n m"
  shows "shape n (2 * n) (augment m)" "r < n \<Longrightarrow> c < n \<Longrightarrow> ent (augment m) r c = ent m r c"
    "r < n \<Longrightarrow> t < n \<Longrightarrow> ent (augment m) r (n + t) = (if r = t then 1 else 0)"
  using assms by (auto simp: shape_def augment_def ent_def nth_append gf_of_ops)

lemma mat_inv_Some:
  assumes m: "shape n n m" and inv: "mat_inv m = Some b"
  shows "shape n n b"
    and "\<And>r c. r < n \<Longrightarrow> c < n \<Longrightarrow> (\<Sum>t<n. ent b r t * ent m t c) = (if r = c then 1 else 0)"
    and "\<And>y t. (\<And>r. r < n \<Longrightarrow> (\<Sum>t<n. ent b r t * y t) = 0) \<Longrightarrow> t < n \<Longrightarrow> y t = 0"
proof -
  have n: "length m = n" using m by (simp add: shape_def)
  obtain a where a: "gauss_jordan n [0..<n] (augment m) = Some a" "b = map (drop n) a"
    using inv n by (auto simp: mat_inv_def)
  have ok: "shape n (2 * n) a" "gj_ok n (ent (augment m)) n (ent a)"
    using gauss_jordan_spec[OF augment_spec(1)[OF m] gj_start[OF augment_spec(3)[OF m]]] a(1) by simp_all
  have b: "ent b r t = ent a r (n + t)" if "r < n" "t < n" for r t
    using that ok(1) by (simp add: a(2) ent_def shape_def)
  show "shape n n b" using ok(1) by (simp add: a(2) shape_def)
  show "(\<Sum>t<n. ent b r t * ent m t c) = (if r = c then 1 else 0)" if rc: "r < n" "c < n" for r c
    using gj_done(1)[OF ok(2) augment_spec(3)[OF m] rc] augment_spec(2)[OF m _ rc(2)] b[OF rc(1)] by simp
  show "y t = 0" if y: "\<And>r. r < n \<Longrightarrow> (\<Sum>t<n. ent b r t * y t) = 0" and t: "t < n" for y t
    using gj_done(2)[OF ok(2) augment_spec(3)[OF m] _ t, of y] y b by simp
qed

lemma mat_inv_None:
  assumes m: "shape n n m" and "mat_inv m = None"
  shows "\<exists>x c. c < n \<and> x c \<noteq> 0 \<and> (\<forall>r<n. (\<Sum>c<n. ent m r c * x c) = 0)"
proof -
  have n: "length m = n" using m by (simp add: shape_def)
  have "gauss_jordan n [0..<n] (augment m) = None" using assms(2) n by (simp add: mat_inv_def)
  then obtain x c where x: "c < n" "x c = 1" "\<forall>r<n. (\<Sum>c<n. ent (augment m) r c * x c) = 0"
    using gauss_jordan_spec[OF augment_spec(1)[OF m] gj_start[OF augment_spec(3)[OF m]]] by auto
  then have "\<forall>r<n. (\<Sum>c<n. ent m r c * x c) = 0" using augment_spec(2)[OF m] by simp
  then show ?thesis using x(1,2) by (metis one_neq_zero)
qed

lemma sum_assoc:
  "(\<Sum>t<n. a t * (\<Sum>u<k. m t u * b u)) = (\<Sum>u<k. (\<Sum>t<n. a t * m t u) * b u)" for a :: "nat \<Rightarrow> 'a::field" and n k :: nat
  unfolding sum_distrib_left sum_distrib_right mult.assoc by (rule sum.swap)

lemma sum_delta_left: "s < n \<Longrightarrow> (\<Sum>u<n. (if s = u then 1 else 0) * b u) = b s" for b :: "nat \<Rightarrow> 'a::field" and n :: nat
proof -
  assume "s < n"
  moreover have "(\<Sum>u<n. (if s = u then 1 else 0) * b u) = (\<Sum>u<n. if u = s then b u else 0)" by (rule sum.cong) auto
  ultimately show ?thesis by simp
qed

text \<open>A left inverse that determines its argument is a right inverse as well.\<close>

lemma mat_inv_right:
  assumes m: "shape n n m" and inv: "mat_inv m = Some b" and "r < n" "c < n"
  shows "(\<Sum>t<n. ent m r t * ent b t c) = (if r = c then 1 else 0)"
proof -
  define y where "y r = (\<Sum>t<n. ent m r t * ent b t c) + - (if r = c then 1 else 0)" for r
  have "(\<Sum>t<n. ent b s t * y t) = 0" if s: "s < n" for s
  proof -
    have "(\<Sum>t<n. ent b s t * (\<Sum>u<n. ent m t u * ent b u c)) = ent b s c"
      unfolding sum_assoc using mat_inv_Some(2)[OF m inv s] sum_delta_left[OF s, of "\<lambda>u. ent b u c"] by simp
    moreover have "(\<Sum>t<n. ent b s t * (if t = c then 1 else 0)) = ent b s c"
      using sum_delta_left[OF assms(4), of "ent b s"] by (simp add: mult.commute eq_commute)
    ultimately show ?thesis unfolding y_def distrib_left sum.distrib by (simp add: sum_negf)
  qed
  then have "y r = 0" using mat_inv_Some(3)[OF m inv _ assms(3)] by blast
  then show ?thesis by (simp add: y_def split: if_splits)
qed

subsection \<open>The generator matrix\<close>

definition vandermonde :: "nat \<Rightarrow> nat \<Rightarrow> matrix" where
  "vandermonde k m = map (\<lambda>r. map (\<lambda>c. gf_pow (of_nat r) c) [0..<k]) [0..<k + m]"

fun dot_bytes :: "nat list \<Rightarrow> (nat \<Rightarrow> u8) \<Rightarrow> (nat \<Rightarrow> u8) \<Rightarrow> u8 \<Rightarrow> u8" where
  "dot_bytes [] f g acc = acc"
| "dot_bytes (t # ts) f g acc = dot_bytes ts f g (acc XOR gf_mul (f t) (g t))"

definition generator :: "nat \<Rightarrow> nat \<Rightarrow> matrix option" where
  "generator k m =
     (let v = vandermonde k m
      in case mat_inv (take k v) of
           None \<Rightarrow> None
         | Some top_inv \<Rightarrow>
             Some (map (\<lambda>r. map (\<lambda>c. dot_bytes [0..<k] (\<lambda>t. v ! r ! t) (\<lambda>t. top_inv ! t ! c) 0) [0..<k]) [0..<k + m]))"

lemma dot_bytes_sum: "gf_of (dot_bytes [0..<n] f g 0) = (\<Sum>t<n. gf_of (f t) * gf_of (g t))"
proof -
  have "dot_bytes (ts @ [t]) f g acc = dot_bytes ts f g acc XOR gf_mul (f t) (g t)" for ts t acc
    by (induction ts arbitrary: acc) simp_all
  then show ?thesis by (induction n) (simp_all add: gf_of_ops)
qed

lemma vandermonde_ent: "r < k + m \<Longrightarrow> c < k \<Longrightarrow> ent (vandermonde k m) r c = gf_of (of_nat r) ^ c"
  by (simp add: ent_def vandermonde_def gf_of_pow)

lemma vandermonde_rows:
  assumes "k + m \<le> 256" "distinct rs" "length rs = k" "\<And>i. i < k \<Longrightarrow> rs ! i < k + m"
    and "\<And>i. i < k \<Longrightarrow> (\<Sum>c<k. ent (vandermonde k m) (rs ! i) c * x c) = 0" "c < k"
  shows "x c = 0"
proof -
  let ?p = "\<lambda>r. gf_of (of_nat r)"
  have lt: "r < 256" if "r \<in> set rs" for r using that assms(1,3,4) by (force simp: in_set_conv_nth)
  have "inj_on ?p (set rs)"
  proof (rule inj_onI)
    fix r s assume rs: "r \<in> set rs" "s \<in> set rs" "?p r = ?p s"
    then have "unat (of_nat r :: u8) = unat (of_nat s :: u8)" by (simp add: gf_of_ops)
    then show "r = s" using lt rs(1,2) by (simp add: unat_of_nat)
  qed
  then have "card (?p ` set rs) = k" using assms(2,3) by (simp add: card_image distinct_card)
  moreover have "(\<Sum>c<k. x c * z ^ c) = 0" if z: "z \<in> ?p ` set rs" for z
  proof -
    obtain i where "i < k" "z = ?p (rs ! i)" using z assms(3) by (auto simp: in_set_conv_nth)
    then show ?thesis using assms(5)[of i] assms(4)[of i] by (simp add: vandermonde_ent mult.commute)
  qed
  ultimately show ?thesis using vandermonde_kernel[of "?p ` set rs" k x c] assms(6) by simp
qed

lemma generator_spec:
  assumes "k + m \<le> 256"
  obtains g where "generator k m = Some g" "shape (k + m) k g"
    "\<And>r c. r < k \<Longrightarrow> c < k \<Longrightarrow> ent g r c = (if r = c then 1 else 0)"
    "\<And>rs x c. distinct rs \<Longrightarrow> length rs = k \<Longrightarrow> (\<And>i. i < k \<Longrightarrow> rs ! i < k + m) \<Longrightarrow>
       (\<And>i. i < k \<Longrightarrow> (\<Sum>c<k. ent g (rs ! i) c * x c) = 0) \<Longrightarrow> c < k \<Longrightarrow> x c = 0"
proof -
  let ?v = "vandermonde k m"
  have top: "shape k k (take k ?v)" by (auto simp: shape_def vandermonde_def)
  have ent: "ent (take k ?v) r c = ent ?v r c" if "r < k" for r c using that by (simp add: ent_def)
  have "mat_inv (take k ?v) \<noteq> None"
  proof
    assume "mat_inv (take k ?v) = None"
    then obtain x c where x: "c < k" "x c \<noteq> 0" "\<forall>r<k. (\<Sum>c<k. ent ?v r c * x c) = 0"
      using mat_inv_None[OF top] ent by auto
    have "x c = 0" by (rule vandermonde_rows[OF assms, of "[0..<k]"]) (use x in auto)
    then show False using x(2) by simp
  qed
  then obtain ti where ti: "mat_inv (take k ?v) = Some ti" by blast
  define g where "g = map (\<lambda>r. map (\<lambda>c. dot_bytes [0..<k] (\<lambda>t. ?v ! r ! t) (\<lambda>t. ti ! t ! c) 0) [0..<k]) [0..<k + m]"
  have g: "ent g r c = (\<Sum>t<k. ent ?v r t * ent ti t c)" if "r < k + m" "c < k" for r c
    using that by (simp add: g_def ent_def dot_bytes_sum)
  show thesis
  proof (rule that[of g])
    show "generator k m = Some g" by (simp add: generator_def ti g_def Let_def)
    show "shape (k + m) k g" by (simp add: shape_def g_def)
    show "ent g r c = (if r = c then 1 else 0)" if rc: "r < k" "c < k" for r c
      using mat_inv_right[OF top ti rc] g[of r c] rc ent by simp
    show "x c = 0" if rs: "distinct rs" "length rs = k" "\<And>i. i < k \<Longrightarrow> rs ! i < k + m"
      and zero: "\<And>i. i < k \<Longrightarrow> (\<Sum>c<k. ent g (rs ! i) c * x c) = 0" and c: "c < k" for rs x c
    proof (rule mat_inv_Some(3)[OF top ti _ c])
      fix r assume r: "r < k"
      show "(\<Sum>t<k. ent ti r t * x t) = 0"
      proof (rule vandermonde_rows[OF assms rs(1-3), where x = "\<lambda>r. \<Sum>t<k. ent ti r t * x t", OF _ _ r])
        fix i assume i: "i < k"
        have "(\<Sum>u<k. (\<Sum>t<k. ent ?v (rs ! i) t * ent ti t u) * x u) = 0" using zero[OF i] g[OF rs(3)[OF i]] by simp
        then show "(\<Sum>c<k. ent ?v (rs ! i) c * (\<Sum>t<k. ent ti c t * x t)) = 0" unfolding sum_assoc .
      qed
    qed
  qed
qed

end
