(* ===== verification/Shreds.thy ===== *)
theory Shreds
  imports Crypto
begin

text \<open>
  Shreds, the pieces of a block that travel through the network
  (\<^verbatim>\<open>crates/turbine/src/shred.rs\<close>): their construction, hash, signed bytes and signature.
\<close>

datatype shred_type = ShredData | ShredCoding

record shred_id =
  sid_slot :: u64
  sid_index :: u64
  sid_type :: shred_type

record shred =
  sh_id :: shred_id
  sh_slot :: u64
  sh_index :: u64
  sh_type :: shred_type
  sh_payload :: bytes
  sh_hash :: hash32
  sh_signer :: pubkey
  sh_signature :: bytes

definition shred_id_data :: "u64 \<Rightarrow> u64 \<Rightarrow> shred_id" where
  "shred_id_data slot i = \<lparr>sid_slot = slot, sid_index = i, sid_type = ShredData\<rparr>"

definition shred_id_coding :: "u64 \<Rightarrow> u64 \<Rightarrow> shred_id" where
  "shred_id_coding slot i = \<lparr>sid_slot = slot, sid_index = i, sid_type = ShredCoding\<rparr>"

definition shred_compute_hash :: "('z) crypto_scheme \<Rightarrow> bytes \<Rightarrow> hash32" where
  "shred_compute_hash cx pl = sha256 cx pl"

definition new_data :: "('z) crypto_scheme \<Rightarrow> u64 \<Rightarrow> u64 \<Rightarrow> bytes \<Rightarrow> shred" where
  "new_data cx slot i pl =
     \<lparr>sh_id = shred_id_data slot i, sh_slot = slot, sh_index = i, sh_type = ShredData, sh_payload = pl,
      sh_hash = shred_compute_hash cx pl, sh_signer = 0, sh_signature = []\<rparr>"

definition new_coding :: "('z) crypto_scheme \<Rightarrow> u64 \<Rightarrow> u64 \<Rightarrow> bytes \<Rightarrow> shred" where
  "new_coding cx slot i pl =
     \<lparr>sh_id = shred_id_coding slot i, sh_slot = slot, sh_index = i, sh_type = ShredCoding, sh_payload = pl,
      sh_hash = shred_compute_hash cx pl, sh_signer = 0, sh_signature = []\<rparr>"

definition shred_signable_data :: "shred \<Rightarrow> bytes" where
  "shred_signable_data s =
     [case sh_type s of ShredData \<Rightarrow> 0 | ShredCoding \<Rightarrow> 1] @ le_u64 (sh_slot s) @ le_u64 (sh_index s) @
     len_u32 (sh_payload s) @ sh_payload s"

definition shred_sign :: "('z) crypto_scheme \<Rightarrow> hash32 \<Rightarrow> shred \<Rightarrow> shred" where
  "shred_sign cx key s =
     (let s = s\<lparr>sh_signer := verifying_key cx key\<rparr>
      in s\<lparr>sh_signature := ed_sign cx key (shred_signable_data s)\<rparr>)"

definition shred_verify_signature :: "('z) crypto_scheme \<Rightarrow> shred \<Rightarrow> bool" where
  "shred_verify_signature cx s = signature_ok cx (sh_signer s) (shred_signable_data s) (sh_signature s)"

definition shred_verify :: "('z) crypto_scheme \<Rightarrow> shred \<Rightarrow> bool" where
  "shred_verify cx s \<longleftrightarrow> sh_hash s = shred_compute_hash cx (sh_payload s)"

text \<open>The size of the identifier in memory is the compiler's choice, a parameter.\<close>

definition shred_size :: "nat \<Rightarrow> shred \<Rightarrow> nat" where
  "shred_size id_size s = id_size + 8 + 8 + 1 + (4 + length (sh_payload s)) + 32 + 32 + (4 + length (sh_signature s))"

definition max_payload_size :: nat where
  "max_payload_size = 1228"

lemma new_shred_sel [simp]:
  "sh_index (new_data cx slot i pl) = i" "sh_payload (new_data cx slot i pl) = pl" "sh_slot (new_data cx slot i pl) = slot"
  "sh_id (new_data cx slot i pl) = shred_id_data slot i" "sh_signature (new_data cx slot i pl) = []"
  "sh_index (new_coding cx slot i pl) = i" "sh_payload (new_coding cx slot i pl) = pl" "sh_slot (new_coding cx slot i pl) = slot"
  "sh_id (new_coding cx slot i pl) = shred_id_coding slot i" "sh_signature (new_coding cx slot i pl) = []"
  by (simp_all add: new_data_def new_coding_def)

lemma new_shred_verifies [simp]: "shred_verify cx (new_data cx slot i pl)" "shred_verify cx (new_coding cx slot i pl)"
  by (simp_all add: shred_verify_def new_data_def new_coding_def)

lemma shred_sign_sel [simp]:
  "sh_index (shred_sign cx key s) = sh_index s" "sh_payload (shred_sign cx key s) = sh_payload s"
  "sh_slot (shred_sign cx key s) = sh_slot s" "sh_id (shred_sign cx key s) = sh_id s"
  "shred_verify cx (shred_sign cx key s) = shred_verify cx s"
  by (simp_all add: shred_sign_def Let_def shred_verify_def)

lemma shred_sign_verifies:
  assumes "ed25519_correct cx"
  shows "shred_verify_signature cx (shred_sign cx key s)"
  using assms by (simp add: ed25519_correct_def shred_verify_signature_def shred_sign_def Let_def shred_signable_data_def)

text \<open>The signed bytes determine type, slot, index and payload, for payloads below 4 GiB.\<close>

lemma shred_signable_data_inj:
  assumes "shred_signable_data s = shred_signable_data t" "length (sh_payload s) < 2 ^ 32" "length (sh_payload t) < 2 ^ 32"
  shows "sh_type s = sh_type t \<and> sh_slot s = sh_slot t \<and> sh_index s = sh_index t \<and> sh_payload s = sh_payload t"
proof -
  have "sh_type s = sh_type t" and e: "le_u64 (sh_slot s) @ le_u64 (sh_index s) @ len_u32 (sh_payload s) @ sh_payload s =
      le_u64 (sh_slot t) @ le_u64 (sh_index t) @ len_u32 (sh_payload t) @ sh_payload t"
    using assms(1) by (simp_all add: shred_signable_data_def split: shred_type.splits)
  moreover have "sh_slot s = sh_slot t" and e2: "le_u64 (sh_index s) @ len_u32 (sh_payload s) @ sh_payload s =
      le_u64 (sh_index t) @ len_u32 (sh_payload t) @ sh_payload t"
    using u64_code.prefix_free[OF _ _ e] by simp_all
  moreover have "sh_index s = sh_index t" and e3: "len_u32 (sh_payload s) @ sh_payload s = len_u32 (sh_payload t) @ sh_payload t"
    using u64_code.prefix_free[OF _ _ e2] by simp_all
  ultimately show ?thesis using len_u32_split[OF assms(2,3) e3] by simp
qed

text \<open>The identifier, by which receivers recognise duplicates, is not covered by hash or signature.\<close>

lemma shred_id_unprotected:
  "shred_verify cx (s\<lparr>sh_id := i\<rparr>) = shred_verify cx s"
  "shred_verify_signature cx (s\<lparr>sh_id := i\<rparr>) = shred_verify_signature cx s"
  by (simp_all add: shred_verify_def shred_verify_signature_def shred_signable_data_def)

end
