(* ===== verification/Erasure.thy ===== *)
theory Erasure
  imports ReedSolomon OrderedMap Shreds
begin

text \<open>
  The Reed-Solomon erasure coder (\<^verbatim>\<open>crates/turbine/src/erasure.rs\<close>): a block is split into
  data shards, extended by parity shards, and reconstructed from any sufficiently many of them.
  A call that panics has the outcome \<^verbatim>\<open>Panicked\<close>.
\<close>

record erasure_config =
  data_shards :: nat
  parity_shards :: nat

definition erasure_default_solana :: erasure_config where
  "erasure_default_solana = \<lparr>data_shards = 16, parity_shards = 4\<rparr>"

definition total_shards :: "erasure_config \<Rightarrow> nat" where
  "total_shards cfg = data_shards cfg + parity_shards cfg"

definition min_shards :: "erasure_config \<Rightarrow> nat" where
  "min_shards cfg = data_shards cfg"

subsection \<open>Encoding\<close>

definition div_ceil :: "nat \<Rightarrow> nat \<Rightarrow> nat" where
  "div_ceil a b = (a + b - 1) div b"

definition resize :: "nat \<Rightarrow> 'a \<Rightarrow> 'a list \<Rightarrow> 'a list" where
  "resize n v xs = take n xs @ replicate (n - length xs) v"

definition shard_size_for :: "nat \<Rightarrow> bytes \<Rightarrow> nat" where
  "shard_size_for k data = max (div_ceil (8 + length data) k) 1"

definition encode_buf :: "nat \<Rightarrow> nat \<Rightarrow> bytes \<Rightarrow> bytes" where
  "encode_buf k shard_size data = resize (shard_size * k) 0 (le_u64 (of_nat (length data)) @ data)"

fun parity_loop :: "nat list \<Rightarrow> bytes \<Rightarrow> bytes \<Rightarrow> nat \<Rightarrow> bytes \<Rightarrow> bytes" where
  "parity_loop [] row buf shard_size parity = parity"
| "parity_loop (c # cs) row buf shard_size parity =
     (let coeff = row ! c
      in if coeff = 0 then parity_loop cs row buf shard_size parity
         else parity_loop cs row buf shard_size
                (map (\<lambda>j. parity ! j XOR gf_mul coeff (buf ! (c * shard_size + j))) [0..<length parity]))"

definition encode :: "('z) crypto_scheme \<Rightarrow> erasure_config \<Rightarrow> bytes \<Rightarrow> u64 \<Rightarrow> shred list outcome" where
  "encode cx cfg data slot =
     (let k = data_shards cfg; m = parity_shards cfg
      in if k = 0 then Panicked
         else
           let shard_size = shard_size_for k data;
               buf = encode_buf k shard_size data
           in case generator k m of
                None \<Rightarrow> Panicked
              | Some g \<Rightarrow>
                  Returned
                    (map (\<lambda>i. new_data cx slot (of_nat i) (take shard_size (drop (i * shard_size) buf))) [0..<k] @
                     map (\<lambda>p. new_coding cx slot (of_nat (k + p))
                            (parity_loop [0..<k] (g ! (k + p)) buf shard_size (replicate shard_size 0))) [0..<m]))"

subsection \<open>Decoding\<close>

fun by_index :: "nat \<Rightarrow> shred list \<Rightarrow> (u64, shred) omap \<Rightarrow> (u64, shred) omap" where
  "by_index n [] acc = acc"
| "by_index n (s # ss) acc =
     by_index n ss
       (if unat (sh_index s) < n \<and> map_of acc (sh_index s) = None then omap_insert (sh_index s) s acc else acc)"

definition recover_buf :: "nat \<Rightarrow> nat \<Rightarrow> matrix \<Rightarrow> (u64 \<times> shred) list \<Rightarrow> bytes" where
  "recover_buf k shard_size sub_inv selected =
     concat (map (\<lambda>c. map (\<lambda>j. dot_bytes [0..<length selected] (\<lambda>r. sub_inv ! c ! r) (\<lambda>r. sh_payload (snd (selected ! r)) ! j) 0)
       [0..<shard_size]) [0..<k])"

definition strip_prefix :: "bytes \<Rightarrow> bytes option outcome" where
  "strip_prefix buf =
     (if length buf < 8 then Panicked
      else let original_len = unat (le_val (take 8 buf) :: u64); capacity = length buf - 8
           in Returned (if capacity < original_len then None else Some (take original_len (drop 8 buf))))"

definition decode :: "erasure_config \<Rightarrow> shred list \<Rightarrow> bytes option outcome" where
  "decode cfg shreds =
     (let k = data_shards cfg; m = parity_shards cfg; found = by_index (k + m) shreds []
      in if length found < k then Returned None
         else
           let selected = take k found
           in if selected = [] then Panicked
              else
                let shard_size = length (sh_payload (snd (hd selected)))
                in if shard_size = 0 \<or> list_ex (\<lambda>(_, s). length (sh_payload s) \<noteq> shard_size) selected then Returned None
                   else
                     case generator k m of
                       None \<Rightarrow> Returned None
                     | Some g \<Rightarrow>
                         case mat_inv (map (\<lambda>(idx, _). g ! unat idx) selected) of
                           None \<Rightarrow> Returned None
                         | Some sub_inv \<Rightarrow> strip_prefix (recover_buf k shard_size sub_inv selected))"

subsection \<open>Shards are codewords\<close>

text \<open>
  The codeword of a buffer: shard \<^verbatim>\<open>r\<close> is row \<^verbatim>\<open>r\<close> of the generator times the data shards.
\<close>

definition codeword :: "matrix \<Rightarrow> nat \<Rightarrow> nat \<Rightarrow> bytes \<Rightarrow> nat \<Rightarrow> bytes \<Rightarrow> bool" where
  "codeword g k shard_size buf r pl \<longleftrightarrow> length pl = shard_size \<and>
     (\<forall>j < shard_size. gf_of (pl ! j) = (\<Sum>c<k. ent g r c * gf_of (buf ! (c * shard_size + j))))"

lemma parity_loop_length [simp]: "length (parity_loop cs row buf sz parity) = length parity"
  by (induction cs row buf sz parity rule: parity_loop.induct) (simp_all add: Let_def)

lemma parity_loop_sum:
  "j < length parity \<Longrightarrow> gf_of (parity_loop [0..<k] row buf sz parity ! j) =
     gf_of (parity ! j) + (\<Sum>c<k. gf_of (row ! c) * gf_of (buf ! (c * sz + j)))"
proof -
  have snoc: "parity_loop (cs @ [c]) row buf sz parity =
      (let q = parity_loop cs row buf sz parity; coeff = row ! c
       in if coeff = 0 then q else map (\<lambda>j. q ! j XOR gf_mul coeff (buf ! (c * sz + j))) [0..<length q])" for cs c parity
    by (induction cs row buf sz parity rule: parity_loop.induct) (simp_all add: Let_def)
  show ?thesis if "j < length parity"
    using that by (induction k) (simp_all add: snoc Let_def gf_of_ops add.assoc)
qed

lemma slice_bounds: "c < k \<Longrightarrow> j < sz \<Longrightarrow> c * sz + j < sz * (k::nat)"
  by (metis add.commute add_less_cancel_left less_le_trans mult.commute mult_Suc mult_le_mono1 Suc_leI)

lemma codeword_data:
  assumes "length buf = sz * k" "r < k" "\<And>c. c < k \<Longrightarrow> ent g r c = (if r = c then 1 else 0)"
  shows "codeword g k sz buf r (take sz (drop (r * sz) buf))"
proof -
  have "(\<Sum>c<k. ent g r c * gf_of (buf ! (c * sz + j))) = gf_of (buf ! (r * sz + j))" for j
    using assms(3) sum_delta_left[OF assms(2), of "\<lambda>c. gf_of (buf ! (c * sz + j))"] by simp
  moreover have "r * sz + sz \<le> sz * k" using assms(2) by (metis Suc_leI add.commute mult.commute mult_Suc mult_le_mono1)
  moreover have "r * sz \<le> length buf" using calculation(2) assms(1) by linarith
  ultimately show ?thesis using assms(1) by (simp add: codeword_def)
qed

lemma codeword_parity: "codeword g k sz buf r (parity_loop [0..<k] (g ! r) buf sz (replicate sz 0))"
  by (simp add: codeword_def parity_loop_sum gf_of_ops ent_def)

lemma encode_buf_length: "0 < k \<Longrightarrow> length (encode_buf k (shard_size_for k data) data) = shard_size_for k data * k"
  by (simp add: encode_buf_def resize_def)

lemma encode_spec:
  fixes data :: bytes and cfg :: erasure_config
  assumes "0 < data_shards cfg" "data_shards cfg + parity_shards cfg \<le> 256"
  defines "k \<equiv> data_shards cfg" and "sz \<equiv> shard_size_for (data_shards cfg) data"
  obtains g shreds where "generator k (parity_shards cfg) = Some g" "encode cx cfg data slot = Returned shreds"
    "length shreds = total_shards cfg"
    "\<And>r. r < total_shards cfg \<Longrightarrow> sh_index (shreds ! r) = of_nat r \<and> sh_slot (shreds ! r) = slot \<and>
       codeword g k sz (encode_buf k sz data) r (sh_payload (shreds ! r))"
proof -
  let ?m = "parity_shards cfg" and ?buf = "encode_buf k sz data"
  have km: "k + ?m \<le> 256" using assms(2) by (simp add: k_def)
  obtain g where g: "generator k ?m = Some g" "\<And>r c. r < k \<Longrightarrow> c < k \<Longrightarrow> ent g r c = (if r = c then 1 else 0)"
    by (rule generator_spec[OF km]) blast
  have len: "length ?buf = sz * k" using encode_buf_length assms(1) by (simp add: k_def sz_def)
  let ?shreds = "map (\<lambda>i. new_data cx slot (of_nat i) (take sz (drop (i * sz) ?buf))) [0..<k] @
    map (\<lambda>p. new_coding cx slot (of_nat (k + p)) (parity_loop [0..<k] (g ! (k + p)) ?buf sz (replicate sz 0))) [0..<?m]"
  show thesis
  proof (rule that[of g ?shreds])
    show "encode cx cfg data slot = Returned ?shreds"
      using g(1) assms(1) by (simp add: encode_def k_def sz_def Let_def)
    show "sh_index (?shreds ! r) = of_nat r \<and> sh_slot (?shreds ! r) = slot \<and> codeword g k sz ?buf r (sh_payload (?shreds ! r))"
      if r: "r < total_shards cfg" for r
    proof (cases "r < k")
      case True
      then show ?thesis using codeword_data[OF len True g(2)[OF True]] by (simp add: nth_append)
    next
      case False
      then have "r = k + (r - k)" "r - k < ?m" using r by (auto simp: total_shards_def k_def)
      then show ?thesis using False codeword_parity[of g k sz ?buf r] by (simp add: nth_append)
    qed
  qed (use g in \<open>simp_all add: total_shards_def k_def\<close>)
qed

lemma by_index_spec:
  "omap_inv acc \<Longrightarrow> omap_inv (by_index n ss acc) \<and>
     fst ` set (by_index n ss acc) = fst ` set acc \<union> {sh_index s |s. s \<in> set ss \<and> unat (sh_index s) < n} \<and>
     set (by_index n ss acc) \<subseteq> set acc \<union> {(sh_index s, s) |s. s \<in> set ss \<and> unat (sh_index s) < n}"
proof (induction n ss acc rule: by_index.induct)
  case (2 n s ss acc)
  define acc' where "acc' = (if unat (sh_index s) < n \<and> map_of acc (sh_index s) = None then omap_insert (sh_index s) s acc else acc)"
  have step: "by_index n (s # ss) acc = by_index n ss acc'" by (simp add: acc'_def)
  have inv: "omap_inv acc'" using 2(2) by (auto simp: acc'_def)
  have keys: "fst ` set acc' = fst ` set acc \<union> {sh_index s' |s'. s' = s \<and> unat (sh_index s') < n}"
    using 2(2) by (force simp: acc'_def omap_insert_set map_of_eq_None_iff)
  have elems: "set acc' \<subseteq> set acc \<union> {(sh_index s', s') |s'. s' = s \<and> unat (sh_index s') < n}"
    using 2(2) by (auto simp: acc'_def omap_insert_set)
  have IH: "omap_inv (by_index n ss acc') \<and>
     fst ` set (by_index n ss acc') = fst ` set acc' \<union> {sh_index s |s. s \<in> set ss \<and> unat (sh_index s) < n} \<and>
     set (by_index n ss acc') \<subseteq> set acc' \<union> {(sh_index s, s) |s. s \<in> set ss \<and> unat (sh_index s) < n}"
    using 2(1) inv by (simp add: acc'_def)
  show ?case unfolding step
  proof (intro conjI)
    show "fst ` set (by_index n ss acc') = fst ` set acc \<union> {sh_index s' |s'. s' \<in> set (s # ss) \<and> unat (sh_index s') < n}"
      using IH keys by auto
    show "set (by_index n ss acc') \<subseteq> set acc \<union> {(sh_index s', s') |s'. s' \<in> set (s # ss) \<and> unat (sh_index s') < n}"
      by (rule order_trans[OF conjunct2[OF conjunct2[OF IH]]]) (use elems in auto)
  qed (use IH in simp)
qed auto

lemma concat_rows: "concat (map (\<lambda>c. map (\<lambda>j. f (c * sz + j)) [0..<sz]) [0..<k]) = map f [0..<sz * k]" for sz :: nat
proof (induction k)
  case (Suc k)
  have "[0..<sz * Suc k] = [0..<sz * k] @ map (\<lambda>j. sz * k + j) [0..<sz]"
    using map_add_upt[of "sz * k" sz] upt_add_eq_append[of 0 "sz * k" sz] by (simp add: add.commute)
  then show ?case using Suc by (simp add: mult.commute)
qed simp

lemma recover_spec:
  assumes g: "shape (k + m) k g" and "length sel = k" "\<And>i. i < k \<Longrightarrow> rs ! i < k + m" "length rs = k"
    and inv: "mat_inv (map (\<lambda>r. g ! r) rs) = Some si" and buf: "length buf = sz * k"
    and code: "\<And>i. i < k \<Longrightarrow> codeword g k sz buf (rs ! i) (sh_payload (snd (sel ! i)))"
  shows "recover_buf k sz si sel = buf"
proof -
  have sub: "shape k k (map (\<lambda>r. g ! r) rs)" using assms(1,3,4) by (simp add: shape_def)
  have ent: "ent (map (\<lambda>r. g ! r) rs) i c = ent g (rs ! i) c" if "i < k" for i c using that assms(4) by (simp add: ent_def)
  have "dot_bytes [0..<k] (\<lambda>r. si ! c ! r) (\<lambda>r. sh_payload (snd (sel ! r)) ! j) 0 = buf ! (c * sz + j)" if cj: "c < k" "j < sz" for c j
  proof -
    have "gf_of (dot_bytes [0..<k] (\<lambda>r. si ! c ! r) (\<lambda>r. sh_payload (snd (sel ! r)) ! j) 0) =
        (\<Sum>r<k. ent si c r * (\<Sum>t<k. ent (map (\<lambda>r. g ! r) rs) r t * gf_of (buf ! (t * sz + j))))"
      unfolding dot_bytes_sum
    proof (intro sum.cong refl)
      fix r assume "r \<in> {..<k}"
      then have r: "r < k" by simp
      show "gf_of (si ! c ! r) * gf_of (sh_payload (snd (sel ! r)) ! j) =
          ent si c r * (\<Sum>t<k. ent (map (\<lambda>r. g ! r) rs) r t * gf_of (buf ! (t * sz + j)))"
        using code[OF r] cj(2) by (simp only: codeword_def ent_def[of si] ent[OF r])
    qed
    also have "\<dots> = gf_of (buf ! (c * sz + j))"
      unfolding sum_assoc using mat_inv_Some(2)[OF sub inv cj(1)] sum_delta_left[OF cj(1), of "\<lambda>t. gf_of (buf ! (t * sz + j))"] by simp
    finally show ?thesis by (simp add: gf_of_ops)
  qed
  then have "recover_buf k sz si sel = concat (map (\<lambda>c. map (\<lambda>j. buf ! (c * sz + j)) [0..<sz]) [0..<k])"
    unfolding recover_buf_def assms(2) by (intro arg_cong[where f = concat] map_cong refl) auto
  then show ?thesis unfolding concat_rows buf[symmetric] map_nth .
qed

lemma strip_prefix_encode_buf:
  assumes "0 < k" "length data < 2 ^ 64"
  shows "strip_prefix (encode_buf k (shard_size_for k data) data) = Returned (Some data)"
proof -
  let ?n = "shard_size_for k data * k" and ?buf = "encode_buf k (shard_size_for k data) data"
  have "8 + length data \<le> div_ceil (8 + length data) k * k"
  proof -
    have "8 + length data + k - 1 < div_ceil (8 + length data) k * k + k"
      unfolding div_ceil_def using div_mult_mod_eq[of "8 + length data + k - 1" k] mod_less_divisor[OF assms(1), of "8 + length data + k - 1"]
      by linarith
    then show ?thesis by linarith
  qed
  also have "\<dots> \<le> ?n" unfolding shard_size_for_def by (intro mult_le_mono1) simp
  finally have n: "8 + length data \<le> ?n" .
  then have buf: "?buf = le_u64 (of_nat (length data)) @ data @ replicate (?n - (8 + length data)) 0"
    by (simp add: encode_buf_def resize_def)
  have len: "unat (of_nat (length data) :: u64) = length data" using assms(2) by (simp add: unat_of_nat)
  show ?thesis using n len by (simp add: strip_prefix_def Let_def buf)
qed

lemma generator_rows_invertible:
  assumes "k + m \<le> 256" "generator k m = Some g" "distinct rs" "length rs = k" "\<And>i. i < k \<Longrightarrow> rs ! i < k + m"
  shows "shape (k + m) k g" and "mat_inv (map (\<lambda>r. g ! r) rs) \<noteq> None"
proof -
  obtain g' where g': "generator k m = Some g'" "shape (k + m) k g'"
    and kernel: "\<And>rs x c. distinct rs \<Longrightarrow> length rs = k \<Longrightarrow> (\<And>i. i < k \<Longrightarrow> rs ! i < k + m) \<Longrightarrow>
       (\<And>i. i < k \<Longrightarrow> (\<Sum>c<k. ent g' (rs ! i) c * x c) = 0) \<Longrightarrow> c < k \<Longrightarrow> x c = 0"
    by (rule generator_spec[OF assms(1)]) blast
  have eq: "g' = g" using g'(1) assms(2) by simp
  show "shape (k + m) k g" using g'(2) eq by simp
  have sub: "shape k k (map (\<lambda>r. g ! r) rs)" using g'(2) assms(4,5) eq by (simp add: shape_def)
  show "mat_inv (map (\<lambda>r. g ! r) rs) \<noteq> None"
  proof
    assume "mat_inv (map (\<lambda>r. g ! r) rs) = None"
    then obtain x c where x: "c < k" "x c \<noteq> 0" "\<And>i. i < k \<Longrightarrow> (\<Sum>c<k. ent (map (\<lambda>r. g ! r) rs) i c * x c) = 0"
      using mat_inv_None[OF sub] by blast
    have "(\<Sum>c<k. ent g' (rs ! i) c * x c) = 0" if "i < k" for i using x(3)[OF that] that assms(4) eq by (simp add: ent_def)
    then show False using kernel[OF assms(3-5), of x c] x(1,2) by blast
  qed
qed

lemma decode_codewords:
  assumes "0 < data_shards cfg" "total_shards cfg \<le> 256" "generator (data_shards cfg) (parity_shards cfg) = Some g"
    and buf: "length buf = sz * data_shards cfg" "0 < sz"
    and code: "\<And>s. s \<in> set rx \<Longrightarrow> unat (sh_index s) < total_shards cfg \<Longrightarrow>
      codeword g (data_shards cfg) sz buf (unat (sh_index s)) (sh_payload s)"
    and enough: "data_shards cfg \<le> card {sh_index s |s. s \<in> set rx \<and> unat (sh_index s) < total_shards cfg}"
  shows "decode cfg rx = strip_prefix buf"
proof -
  let ?k = "data_shards cfg" and ?m = "parity_shards cfg" and ?n = "total_shards cfg"
  define found where "found = by_index (?k + ?m) rx []"
  have n: "?k + ?m = ?n" by (simp add: total_shards_def)
  have spec: "omap_inv found" "fst ` set found = {sh_index s |s. s \<in> set rx \<and> unat (sh_index s) < ?n}"
    "set found \<subseteq> {(sh_index s, s) |s. s \<in> set rx \<and> unat (sh_index s) < ?n}"
    using by_index_spec[of "[]" "?k + ?m" rx] by (simp_all add: found_def n)
  have dist: "distinct (map fst found)" using omap_inv_distinct[OF spec(1)] .
  have "card (fst ` set found) = length found" using distinct_card[OF dist] by simp
  then have long: "?k \<le> length found" using enough spec(2) by simp
  define sel where "sel = take ?k found"
  define rs where "rs = map (\<lambda>p. unat (fst p)) sel"
  have len: "length sel = ?k" "length rs = ?k" using long by (simp_all add: sel_def rs_def)
  have sel: "p \<in> set found" if "p \<in> set sel" for p using that by (auto simp: sel_def dest: in_set_takeD)
  have item: "rs ! i < ?n \<and> codeword g ?k sz buf (rs ! i) (sh_payload (snd (sel ! i)))" if i: "i < ?k" for i
  proof -
    have "sel ! i \<in> set found" using i len(1) sel by (metis nth_mem)
    then obtain s where "sel ! i = (sh_index s, s)" "s \<in> set rx" "unat (sh_index s) < ?n" using spec(3) by blast
    then show ?thesis using code[of s] i len by (simp add: rs_def)
  qed
  have "distinct (map fst sel)" using dist unfolding sel_def take_map[symmetric] by (rule distinct_take)
  then have "distinct (map unat (map fst sel))" by (subst distinct_map) (simp add: inj_on_def word_unat_eq_iff)
  then have drs: "distinct rs" by (simp add: rs_def comp_def)
  note inv = generator_rows_invertible[OF _ assms(3) drs len(2)]
  obtain si where si: "mat_inv (map (\<lambda>r. g ! r) rs) = Some si" using inv(2) assms(2) item n by auto
  have pl: "length (sh_payload (snd p)) = sz" if "p \<in> set sel" for p
    using that item len by (auto simp: in_set_conv_nth codeword_def)
  have rec: "recover_buf ?k sz si sel = buf"
    by (rule recover_spec[OF inv(1) len(1) _ len(2) si buf(1)]) (use item assms(2) n in auto)
  have sub: "map (\<lambda>(idx, _). g ! unat idx) sel = map (\<lambda>r. g ! r) rs" by (simp add: rs_def comp_def case_prod_unfold)
  have ne: "sel \<noteq> []" using len(1) assms(1) by auto
  have hd: "length (sh_payload (snd (hd sel))) = sz" using pl ne by simp
  have all: "\<not> list_ex (\<lambda>(_, s). length (sh_payload s) \<noteq> sz) sel" using pl by (force simp: list_ex_iff)
  show ?thesis
    unfolding decode_def Let_def found_def[symmetric] sel_def[symmetric] hd
    using long ne all buf(2) assms(3) by (simp add: sub si rec del: list_ex_iff)
qed

lemma decode_too_few:
  assumes "card {sh_index s |s. s \<in> set rx \<and> unat (sh_index s) < total_shards cfg} < data_shards cfg"
  shows "decode cfg rx = Returned None"
proof -
  let ?found = "by_index (data_shards cfg + parity_shards cfg) rx []"
  have f: "omap_inv ?found" "fst ` set ?found = {sh_index s |s. s \<in> set rx \<and> unat (sh_index s) < total_shards cfg}"
    using by_index_spec[of "[]" "data_shards cfg + parity_shards cfg" rx] by (simp_all add: total_shards_def)
  have "length ?found = card (fst ` set ?found)" using distinct_card[OF omap_inv_distinct[OF f(1)]] by simp
  then have "length ?found < data_shards cfg" using assms f(2) by simp
  then show ?thesis by (simp add: decode_def Let_def)
qed

lemma encode_shape:
  assumes "encode cx cfg data slot = Returned shreds"
  shows "length shreds = total_shards cfg"
    and "r < total_shards cfg \<Longrightarrow> sh_index (shreds ! r) = of_nat r \<and> sh_slot (shreds ! r) = slot \<and>
      sh_id (shreds ! r) = (if r < data_shards cfg then shred_id_data slot (of_nat r) else shred_id_coding slot (of_nat r)) \<and>
      shred_verify cx (shreds ! r) \<and> sh_signature (shreds ! r) = []"
  using assms by (auto simp: encode_def Let_def total_shards_def nth_append simp flip: of_nat_add split: if_splits option.splits)

lemma decode_encoded:
  assumes "0 < data_shards cfg" "total_shards cfg \<le> 256" "length data < 2 ^ 64" "encode cx cfg data slot = Returned shreds"
    and rx: "\<And>s. s \<in> set rx \<Longrightarrow> unat (sh_index s) < total_shards cfg \<Longrightarrow> sh_payload s = sh_payload (shreds ! unat (sh_index s))"
  shows "decode cfg rx =
    Returned (if min_shards cfg \<le> card {sh_index s |s. s \<in> set rx \<and> unat (sh_index s) < total_shards cfg} then Some data else None)"
proof (cases "data_shards cfg \<le> card {sh_index s |s. s \<in> set rx \<and> unat (sh_index s) < total_shards cfg}")
  case True
  let ?k = "data_shards cfg" and ?n = "total_shards cfg"
  let ?sz = "shard_size_for ?k data"
  let ?buf = "encode_buf ?k ?sz data"
  obtain g where g: "generator ?k (parity_shards cfg) = Some g"
    and code: "\<And>r. r < ?n \<Longrightarrow> codeword g ?k ?sz ?buf r (sh_payload (shreds ! r))"
    by (rule encode_spec[OF assms(1) assms(2)[unfolded total_shards_def], where data = data and cx = cx and slot = slot]) (use assms(4) in auto)
  have buf: "length ?buf = ?sz * ?k" "0 < ?sz" using encode_buf_length[OF assms(1)] by (simp_all add: shard_size_for_def)
  have "decode cfg rx = strip_prefix ?buf"
    using rx code by (intro decode_codewords[OF assms(1,2) g buf _ True]) simp
  then show ?thesis using True strip_prefix_encode_buf[OF assms(1,3)] by (simp add: min_shards_def)
next
  case False
  then show ?thesis using decode_too_few[of rx cfg] by (simp add: min_shards_def)
qed

lemma encode_returns:
  assumes "0 < data_shards cfg" "total_shards cfg \<le> 256"
  shows "\<exists>shreds. encode cx cfg data slot = Returned shreds"
  by (rule encode_spec[OF assms(1) assms(2)[unfolded total_shards_def], where data = data and cx = cx and slot = slot]) blast

text \<open>
  C1 Erasure coding restores every block: with at least one data shard and at most 256 shards,
  encoding returns; whatever shreds are received, in any order, with repetitions and with
  shreds of foreign indices among them, decoding returns exactly the encoded bytes if the
  shreds with an index below the number of shards carry the payload produced for that index,
  and at least as many such indices as data shards occur. With fewer it returns nothing.
\<close>

theorem erasure_roundtrip:
  assumes "0 < data_shards cfg" "total_shards cfg \<le> 256" "length data < 2 ^ 64"
  shows "\<exists>shreds. encode cx cfg data slot = Returned shreds \<and> length shreds = total_shards cfg \<and>
    map sh_index shreds = map of_nat [0..<total_shards cfg] \<and>
    (\<forall>rx. (\<forall>s\<in>set rx. unat (sh_index s) < total_shards cfg \<longrightarrow> sh_payload s = sh_payload (shreds ! unat (sh_index s))) \<longrightarrow>
      decode cfg rx =
        Returned (if min_shards cfg \<le> card {sh_index s |s. s \<in> set rx \<and> unat (sh_index s) < total_shards cfg} then Some data else None))"
proof -
  obtain shreds where enc: "encode cx cfg data slot = Returned shreds" using encode_returns[OF assms(1,2)] by blast
  have "map sh_index shreds = map of_nat [0..<total_shards cfg]"
    using encode_shape[OF enc] by (intro nth_equalityI) auto
  then show ?thesis using enc encode_shape(1)[OF enc] decode_encoded[OF assms enc] by blast
qed

theorem erasure_roundtrip_witness:
  "let cfg = \<lparr>data_shards = 2, parity_shards = 1\<rparr> in
   \<exists>shreds. encode demo_crypto cfg [7, 9, 5] 3 = Returned shreds \<and> length shreds = 3 \<and>
     decode cfg [shreds ! 2, shreds ! 0, shreds ! 2] = Returned (Some [7, 9, 5]) \<and>
     decode cfg [shreds ! 1] = Returned None"
proof -
  let ?cfg = "\<lparr>data_shards = 2, parity_shards = 1\<rparr>"
  obtain shreds where sh: "encode demo_crypto ?cfg [7, 9, 5] 3 = Returned shreds" "length shreds = 3"
    "map sh_index shreds = map of_nat [0..<3]"
    and dec: "\<And>rx. (\<forall>s\<in>set rx. unat (sh_index s) < 3 \<longrightarrow> sh_payload s = sh_payload (shreds ! unat (sh_index s))) \<Longrightarrow>
      decode ?cfg rx = Returned (if 2 \<le> card {sh_index s |s. s \<in> set rx \<and> unat (sh_index s) < 3} then Some [7, 9, 5] else None)"
    using erasure_roundtrip[of ?cfg "[7, 9, 5]" demo_crypto 3] by (auto simp: total_shards_def min_shards_def)
  have "map sh_index shreds ! i = of_nat i" if "i < 3" for i using that by (simp only: sh(3)) simp
  then have ix: "sh_index (shreds ! 0) = 0" "sh_index (shreds ! 1) = 1" "sh_index (shreds ! 2) = 2" using sh(2) by fastforce+
  have "{sh_index s |s. s \<in> set [shreds ! 2, shreds ! 0, shreds ! 2] \<and> unat (sh_index s) < 3} = {2, 0}" using ix by auto
  then have "decode ?cfg [shreds ! 2, shreds ! 0, shreds ! 2] = Returned (Some [7, 9, 5])" using dec[of "[shreds ! 2, shreds ! 0, shreds ! 2]"] ix by simp
  moreover have "{sh_index s |s. s \<in> set [shreds ! 1] \<and> unat (sh_index s) < 3} = {1}" using ix by auto
  then have "decode ?cfg [shreds ! 1] = Returned None" using dec[of "[shreds ! 1]"] ix by simp
  ultimately show ?thesis using sh by simp
qed

text \<open>
  Decoding does not always refuse bad input: four one-byte shreds of a four-shard code give a
  buffer shorter than the length prefix, and reading the prefix panics.
\<close>

lemma decode_short_shreds_panics:
  "decode \<lparr>data_shards = 4, parity_shards = 2\<rparr> (map (\<lambda>i. new_data cx slot i [0]) [0, 1, 2, 3]) = Panicked"
proof -
  let ?cfg = "\<lparr>data_shards = 4, parity_shards = 2\<rparr>" and ?rx = "map (\<lambda>i. new_data cx slot i [0]) [0, 1, 2, 3 :: u64]"
  obtain g where g: "generator 4 2 = Some g" by (rule generator_spec[of 4 2]) auto
  have "{sh_index s |s. s \<in> set ?rx \<and> unat (sh_index s) < total_shards ?cfg} = {0, 1, 2, 3}"
    by (auto simp: total_shards_def intro: exI[of _ "new_data cx slot 0 [0]"] exI[of _ "new_data cx slot 1 [0]"]
        exI[of _ "new_data cx slot 2 [0]"] exI[of _ "new_data cx slot 3 [0]"])
  moreover have "codeword g 4 1 [0, 0, 0, 0] r [0]" for r
    by (auto simp: codeword_def gf_of_ops nth_Cons' intro!: sum.neutral)
  ultimately have "decode ?cfg ?rx = strip_prefix [0, 0, 0, 0]"
    by (intro decode_codewords[where g = g and sz = 1]) (auto simp: g total_shards_def)
  then show ?thesis by (simp add: strip_prefix_def)
qed

end
