(* ===== verification/Neighborhoods.thy ===== *)
theory Neighborhoods
  imports Erasure
begin

text \<open>
  The propagation tree (\<^verbatim>\<open>crates/turbine/src/neighborhoods.rs\<close>): its construction from the
  validators by stake, paths from the root, neighbours. An index out of range panics.
\<close>

record turbine_node =
  tn_validator :: pubkey
  tn_stake :: u64
  tn_depth :: u8
  tn_index :: nat
  tn_parent :: "nat option"
  tn_children :: "nat list"

record neighborhood =
  nb_root :: turbine_node
  nb_nodes :: "turbine_node list"
  nb_depth :: nat

subsection \<open>Building the tree\<close>

definition sort_by_stake :: "(pubkey \<times> u64) list \<Rightarrow> (pubkey \<times> u64) list" where
  "sort_by_stake vs = sort_key (\<lambda>v. - int (unat (snd v))) vs"

definition FAN_OUT :: nat where
  "FAN_OUT = 3"

fun add_children :: "(pubkey \<times> u64) list \<Rightarrow> nat \<Rightarrow> u8 \<Rightarrow> nat list \<Rightarrow> turbine_node list \<Rightarrow> turbine_node list" where
  "add_children vs parent_idx child_depth [] nodes = nodes"
| "add_children vs parent_idx child_depth (child_idx # rest) nodes =
     (let new_idx = length nodes;
          child = \<lparr>tn_validator = fst (vs ! child_idx), tn_stake = snd (vs ! child_idx), tn_depth = child_depth,
                   tn_index = new_idx, tn_parent = Some parent_idx, tn_children = []\<rparr>;
          nodes = nodes @ [child];
          nodes = nodes[parent_idx := (nodes ! parent_idx)\<lparr>tn_children := tn_children (nodes ! parent_idx) @ [new_idx]\<rparr>]
      in add_children vs parent_idx child_depth rest nodes)"

definition distribute :: "nat list \<Rightarrow> nat list \<Rightarrow> (nat \<times> nat list) list" where
  "distribute children next_remaining =
     (if next_remaining = [] \<or> children = [] then []
      else
        let per_child = div_ceil (length next_remaining) (length children)
        in concat (map (\<lambda>i.
             let start = i * per_child; stop = min (start + per_child) (length next_remaining)
             in if start < length next_remaining then [(children ! i, take (stop - start) (drop start next_remaining))] else [])
           [0..<length children]))"

definition queue_size :: "(nat \<times> nat list) list \<Rightarrow> nat" where
  "queue_size q = sum_list (map (\<lambda>(_, r). 2 * length r + 1) q)"

lemma queue_size_simps [simp]:
  "queue_size [] = 0" "queue_size ((p, r) # q) = 2 * length r + 1 + queue_size q" "queue_size (q @ q') = queue_size q + queue_size q'"
  by (simp_all add: queue_size_def)

lemma concat_map_if: "concat (map (\<lambda>i. if P i then [f i] else []) xs) = map f (filter P xs)"
  by (induction xs) auto

lemma slices_append:
  "n = length xs \<Longrightarrow> concat (map (\<lambda>i. take (min (i * d + d) n - i * d) (drop (i * d) xs)) [0..<k]) = take (min (k * d) n) xs"
  for k d n :: nat
proof (induction k)
  case (Suc k)
  have "take (min (k * d) n) xs @ take (min (k * d + d) n - k * d) (drop (k * d) xs) = take (min (k * d + d) n) xs"
    using Suc.prems take_add[of "k * d" "min (k * d + d) n - k * d" xs] by (cases "k * d \<le> n") (auto simp: min_def)
  then show ?case using Suc by (simp add: add.commute)
qed simp

lemma concat_filter_empty: "(\<And>x. x \<in> set xs \<Longrightarrow> \<not> P x \<Longrightarrow> f x = []) \<Longrightarrow> concat (map f (filter P xs)) = concat (map f xs)"
  by (induction xs) auto

lemma div_ceil_ge: "0 < k \<Longrightarrow> n \<le> k * div_ceil n k"
proof -
  assume k: "0 < k"
  have "n + k - 1 < div_ceil n k * k + k"
    unfolding div_ceil_def using div_mult_mod_eq[of "n + k - 1" k] mod_less_divisor[OF k, of "n + k - 1"] by linarith
  then show ?thesis by (simp add: mult.commute)
qed

lemma distribute_items:
  assumes "r \<noteq> [] \<longrightarrow> c \<noteq> []"
  shows "concat (map snd (distribute c r)) = r" "distinct c \<Longrightarrow> distinct (map fst (distribute c r))"
    "set (map fst (distribute c r)) \<subseteq> set c" "length (distribute c r) \<le> length c"
proof -
  let ?d = "div_ceil (length r) (length c)" and ?n = "length r" and ?k = "length c"
  let ?slice = "\<lambda>i. take (min (i * ?d + ?d) ?n - i * ?d) (drop (i * ?d) r)"
  let ?ix = "filter (\<lambda>i. i * ?d < ?n) [0..<?k]"
  have D: "distribute c r = map (\<lambda>i. (c ! i, ?slice i)) ?ix" if "r \<noteq> []"
    unfolding distribute_def Let_def concat_map_if using assms that by simp
  have "concat (map ?slice ?ix) = r" if r: "r \<noteq> []"
  proof -
    have "concat (map ?slice ?ix) = concat (map ?slice [0..<?k])" by (rule concat_filter_empty) auto
    also have "\<dots> = take (min (?k * ?d) ?n) r" by (rule slices_append) (rule refl)
    also have "\<dots> = r" using div_ceil_ge[of ?k ?n] assms r by simp
    finally show ?thesis .
  qed
  then show "concat (map snd (distribute c r)) = r" using D by (cases "r = []") (simp_all add: distribute_def comp_def)
  have ix: "set ?ix \<subseteq> {..<?k}" "distinct ?ix" by auto
  show "distinct (map fst (distribute c r))" if c: "distinct c"
  proof (cases "r = []")
    case False
    have "inj_on ((!) c) {..<?k}" using c by (auto intro!: inj_onI simp: nth_eq_iff_index_eq)
    then show ?thesis using D[OF False] ix by (simp add: comp_def distinct_map inj_on_subset)
  qed (simp add: distribute_def)
  show "set (map fst (distribute c r)) \<subseteq> set c" using D ix(1) by (cases "r = []") (auto simp: distribute_def)
  show "length (distribute c r) \<le> length c" using D length_filter_le[of "\<lambda>i. i * ?d < ?n" "[0..<?k]"]
    by (cases "r = []") (simp_all add: distribute_def)
qed

lemma queue_size_concat: "queue_size q = 2 * length (concat (map snd q)) + length q"
  by (induction q) (auto simp: queue_size_def)

lemma queue_size_distribute:
  assumes "r \<noteq> []"
  shows "queue_size (distribute (take FAN_OUT r) (drop FAN_OUT r)) < 2 * length r + 1"
proof (cases "drop FAN_OUT r = []")
  case False
  then have "queue_size (distribute (take FAN_OUT r) (drop FAN_OUT r)) \<le> 2 * length (drop FAN_OUT r) + length (take FAN_OUT r)"
    using distribute_items(1,4)[of "drop FAN_OUT r" "take FAN_OUT r"] by (cases r) (auto simp: queue_size_concat FAN_OUT_def)
  then show ?thesis using False by (simp add: FAN_OUT_def)
qed (simp add: distribute_def)

function tree_loop :: "(pubkey \<times> u64) list \<Rightarrow> nat \<Rightarrow> (nat \<times> nat list) list \<Rightarrow> turbine_node list \<Rightarrow> nat \<Rightarrow>
    (turbine_node list \<times> nat) outcome" where
  "tree_loop vs max_depth [] nodes depth = Returned (nodes, depth)"
| "tree_loop vs max_depth ((parent_idx, remaining) # queue) nodes depth =
     (if remaining = [] then tree_loop vs max_depth queue nodes depth
      else if length nodes \<le> parent_idx then Panicked
      else if max_depth \<le> unat (tn_depth (nodes ! parent_idx)) then tree_loop vs max_depth queue nodes depth
      else
        let child_depth = tn_depth (nodes ! parent_idx) + 1;
            children = take FAN_OUT remaining
        in tree_loop vs max_depth (queue @ distribute children (drop FAN_OUT remaining))
             (add_children vs parent_idx child_depth children nodes) (max depth (unat child_depth)))"
  by pat_completeness auto
termination
  by (relation "measure (\<lambda>(vs, max_depth, q, nodes, depth). queue_size q)")
    (auto simp: queue_size_distribute[simplified])

definition build_tree :: "(pubkey \<times> u64) list \<Rightarrow> nat \<Rightarrow> neighborhood outcome" where
  "build_tree validators max_depth =
     (let vs = sort_by_stake validators
      in if vs = []
         then Returned \<lparr>nb_root = \<lparr>tn_validator = 0, tn_stake = 0, tn_depth = 0, tn_index = 0, tn_parent = None, tn_children = []\<rparr>,
                        nb_nodes = [], nb_depth = 0\<rparr>
         else
           let root = \<lparr>tn_validator = fst (vs ! 0), tn_stake = snd (vs ! 0), tn_depth = 0, tn_index = 0, tn_parent = None, tn_children = []\<rparr>
           in case tree_loop vs max_depth [(0, [1..<length vs])] [root] 0 of
                Panicked \<Rightarrow> Panicked
              | Returned (nodes, depth) \<Rightarrow> Returned \<lparr>nb_root = nodes ! 0, nb_nodes = nodes, nb_depth = depth\<rparr>)"

subsection \<open>Queries\<close>

definition node_position :: "pubkey \<Rightarrow> neighborhood \<Rightarrow> nat option" where
  "node_position v nb = find (\<lambda>i. tn_validator (nb_nodes nb ! i) = v) [0..<length (nb_nodes nb)]"

text \<open>The walk along parents ends on a tree; on other structures it may not, then the result is \<^term>\<open>None\<close>.\<close>

partial_function (option) walk_up :: "turbine_node list \<Rightarrow> nat option \<Rightarrow> turbine_node list \<Rightarrow> turbine_node list outcome option" where
  "walk_up nodes current path =
     (case current of
        None \<Rightarrow> Some (Returned (rev path))
      | Some idx \<Rightarrow>
          if length nodes \<le> idx then Some Panicked
          else walk_up nodes (tn_parent (nodes ! idx)) (path @ [nodes ! idx]))"

definition path_to :: "pubkey \<Rightarrow> neighborhood \<Rightarrow> turbine_node list option outcome option" where
  "path_to v nb =
     (case node_position v nb of
        None \<Rightarrow> Some (Returned None)
      | Some target_idx \<Rightarrow>
          (case walk_up (nb_nodes nb) (Some target_idx) [] of
             None \<Rightarrow> None
           | Some Panicked \<Rightarrow> Some Panicked
           | Some (Returned path) \<Rightarrow> Some (Returned (Some path))))"

definition nb_neighbors :: "pubkey \<Rightarrow> neighborhood \<Rightarrow> turbine_node list outcome" where
  "nb_neighbors v nb =
     (case find (\<lambda>n. tn_validator n = v) (nb_nodes nb) of
        None \<Rightarrow> Returned []
      | Some node \<Rightarrow>
          (let idxs = (case tn_parent node of None \<Rightarrow> [] | Some p \<Rightarrow> [p]) @ tn_children node
           in if list_all (\<lambda>i. i < length (nb_nodes nb)) idxs then Returned (map ((!) (nb_nodes nb)) idxs) else Panicked))"

definition at_depth :: "u8 \<Rightarrow> neighborhood \<Rightarrow> turbine_node list" where
  "at_depth d nb = filter (\<lambda>n. tn_depth n = d) (nb_nodes nb)"

definition nb_total_stake :: "neighborhood \<Rightarrow> u64" where
  "nb_total_stake nb = sum_list (map tn_stake (nb_nodes nb))"

subsection \<open>Shape of the tree\<close>

definition tree_ok :: "turbine_node list \<Rightarrow> bool" where
  "tree_ok nodes \<longleftrightarrow> nodes \<noteq> [] \<and> tn_parent (nodes ! 0) = None \<and>
     (\<forall>i<length nodes. tn_index (nodes ! i) = i \<and> distinct (tn_children (nodes ! i)) \<and> length (tn_children (nodes ! i)) \<le> FAN_OUT) \<and>
     (\<forall>i<length nodes. \<forall>c. c \<in> set (tn_children (nodes ! i)) \<longleftrightarrow> c < length nodes \<and> tn_parent (nodes ! c) = Some i) \<and>
     (\<forall>i<length nodes. 0 < i \<longrightarrow> (\<exists>p<i. tn_parent (nodes ! i) = Some p \<and> tn_depth (nodes ! i) = tn_depth (nodes ! p) + 1))"

definition entries :: "turbine_node list \<Rightarrow> (pubkey \<times> u64) list" where
  "entries nodes = map (\<lambda>n. (tn_validator n, tn_stake n)) nodes"

text \<open>The state of the loop: \<^verbatim>\<open>placed\<close> are the validators of the nodes, \<^verbatim>\<open>done\<close> the expanded parents.\<close>

definition loop_inv :: "(pubkey \<times> u64) list \<Rightarrow> (nat \<times> nat list) list \<Rightarrow> turbine_node list \<Rightarrow> nat list \<Rightarrow> nat set \<Rightarrow> bool" where
  "loop_inv vs q nodes placed expanded \<longleftrightarrow> tree_ok nodes \<and> entries nodes = map ((!) vs) placed \<and>
     distinct (placed @ concat (map snd q)) \<and> set (placed @ concat (map snd q)) \<subseteq> {..<length vs} \<and>
     distinct (map fst q) \<and> set (map fst q) \<subseteq> set placed - expanded \<and> expanded \<subseteq> set placed \<and>
     (\<forall>i<length nodes. tn_children (nodes ! i) \<noteq> [] \<longrightarrow> i \<in> expanded) \<and> hd placed = 0"

definition add_child :: "(pubkey \<times> u64) \<Rightarrow> nat \<Rightarrow> u8 \<Rightarrow> turbine_node list \<Rightarrow> turbine_node list" where
  "add_child v p d nodes =
     (let child = \<lparr>tn_validator = fst v, tn_stake = snd v, tn_depth = d, tn_index = length nodes, tn_parent = Some p, tn_children = []\<rparr>
      in (nodes @ [child])[p := (nodes ! p)\<lparr>tn_children := tn_children (nodes ! p) @ [length nodes]\<rparr>])"

lemma add_children_Cons:
  "p < length nodes \<Longrightarrow> add_children vs p d (c # cs) nodes = add_children vs p d cs (add_child (vs ! c) p d nodes)"
  by (simp add: add_child_def Let_def nth_append)

lemma add_child_sel:
  assumes "p < length nodes"
  shows "length (add_child v p d nodes) = Suc (length nodes)" "entries (add_child v p d nodes) = entries nodes @ [v]"
    "i < length nodes \<Longrightarrow> tn_children (add_child v p d nodes ! i) = (if i = p then tn_children (nodes ! i) @ [length nodes] else tn_children (nodes ! i))"
    "i < length nodes \<Longrightarrow> tn_parent (add_child v p d nodes ! i) = tn_parent (nodes ! i)"
    "i < length nodes \<Longrightarrow> tn_depth (add_child v p d nodes ! i) = tn_depth (nodes ! i)"
    "i < length nodes \<Longrightarrow> tn_index (add_child v p d nodes ! i) = tn_index (nodes ! i)"
    "add_child v p d nodes ! length nodes = \<lparr>tn_validator = fst v, tn_stake = snd v, tn_depth = d, tn_index = length nodes, tn_parent = Some p, tn_children = []\<rparr>"
  using assms
  by (auto simp: add_child_def Let_def nth_list_update nth_append entries_def list_eq_iff_nth_eq)

lemma tree_okD:
  assumes "tree_ok nodes"
  shows "nodes \<noteq> []" "tn_parent (nodes ! 0) = None"
    "i < length nodes \<Longrightarrow> tn_index (nodes ! i) = i" "i < length nodes \<Longrightarrow> distinct (tn_children (nodes ! i))"
    "i < length nodes \<Longrightarrow> length (tn_children (nodes ! i)) \<le> FAN_OUT"
    "i < length nodes \<Longrightarrow> c \<in> set (tn_children (nodes ! i)) \<longleftrightarrow> c < length nodes \<and> tn_parent (nodes ! c) = Some i"
    "i < length nodes \<Longrightarrow> 0 < i \<Longrightarrow> \<exists>p<i. tn_parent (nodes ! i) = Some p \<and> tn_depth (nodes ! i) = tn_depth (nodes ! p) + 1"
  using assms unfolding tree_ok_def by blast+

lemma tree_parent_less: "tree_ok nodes \<Longrightarrow> i < length nodes \<Longrightarrow> tn_parent (nodes ! i) = Some p \<Longrightarrow> p < i"
  using tree_okD(2)[of nodes] tree_okD(7)[of nodes i] by (cases "i = 0") auto

lemma add_child_ok:
  assumes ok: "tree_ok nodes" and p: "p < length nodes" "length (tn_children (nodes ! p)) < FAN_OUT" "d = tn_depth (nodes ! p) + 1"
  shows "tree_ok (add_child v p d nodes)"
proof -
  let ?ns = "add_child v p d nodes" and ?n = "length nodes"
  note sel = add_child_sel[OF p(1), where v = v and d = d]
  have ne: "0 < ?n" using tree_okD(1)[OF ok] by simp
  have fresh: "length nodes \<notin> set (tn_children (nodes ! i))" if "i < ?n" for i using tree_okD(6)[OF ok that] by blast
  have 1: "tn_index (?ns ! i) = i \<and> distinct (tn_children (?ns ! i)) \<and> length (tn_children (?ns ! i)) \<le> FAN_OUT" if "i < Suc ?n" for i
  proof (cases "i = ?n")
    case False
    then have "i < ?n" using that by simp
    then show ?thesis using tree_okD(3-5)[OF ok, of i] fresh[of i] p(2) by (auto simp: sel)
  qed (simp add: sel)
  have 2: "c \<in> set (tn_children (?ns ! i)) \<longleftrightarrow> c < Suc ?n \<and> tn_parent (?ns ! c) = Some i" if "i < Suc ?n" for i c
  proof (cases "i = ?n")
    case True
    have "tn_parent (nodes ! c) \<noteq> Some ?n" if "c < ?n" using tree_parent_less[OF ok that] that by fastforce
    then show ?thesis using True p(1) by (auto simp: sel less_Suc_eq)
  next
    case False
    then have i: "i < ?n" using that by simp
    then show ?thesis using tree_okD(6)[OF ok i, of c] fresh[OF i] by (cases "c = ?n") (auto simp: sel less_Suc_eq)
  qed
  have 3: "\<exists>q<i. tn_parent (?ns ! i) = Some q \<and> tn_depth (?ns ! i) = tn_depth (?ns ! q) + 1" if i0: "i < Suc ?n" "0 < i" for i
  proof (cases "i = ?n")
    case True
    then show ?thesis using p(1) by (intro exI[of _ p]) (simp add: sel p(3)[symmetric])
  next
    case False
    then have i: "i < ?n" using i0(1) by simp
    obtain q where "q < i" "tn_parent (nodes ! i) = Some q" "tn_depth (nodes ! i) = tn_depth (nodes ! q) + 1"
      using tree_okD(7)[OF ok i i0(2)] by blast
    then show ?thesis using i by (intro exI[of _ q]) (simp add: sel)
  qed
  have 4: "?ns \<noteq> []" "tn_parent (?ns ! 0) = None" using sel(1) sel(4)[OF ne] tree_okD(2)[OF ok] by auto
  show ?thesis unfolding tree_ok_def sel(1) using 1 2 3 4 by blast
qed

lemma add_children_ok:
  assumes "tree_ok nodes" "p < length nodes" "length (tn_children (nodes ! p)) + length cs \<le> FAN_OUT" "d = tn_depth (nodes ! p) + 1"
  shows "tree_ok (add_children vs p d cs nodes) \<and> entries (add_children vs p d cs nodes) = entries nodes @ map ((!) vs) cs \<and>
    length (add_children vs p d cs nodes) = length nodes + length cs \<and>
    (\<forall>i<length nodes. i \<noteq> p \<longrightarrow> tn_children (add_children vs p d cs nodes ! i) = tn_children (nodes ! i)) \<and>
    (\<forall>i. length nodes \<le> i \<and> i < length nodes + length cs \<longrightarrow> tn_children (add_children vs p d cs nodes ! i) = [])"
  using assms
proof (induction cs arbitrary: nodes)
  case (Cons c cs)
  let ?ns = "add_child (vs ! c) p d nodes"
  note sel = add_child_sel[OF Cons.prems(2), where v = "vs ! c" and d = d]
  have step: "add_children vs p d (c # cs) nodes = add_children vs p d cs ?ns"
    using Cons.prems(2) by (rule add_children_Cons)
  have "tree_ok ?ns" using add_child_ok Cons.prems by simp
  then have IH: "tree_ok (add_children vs p d cs ?ns) \<and> entries (add_children vs p d cs ?ns) = entries ?ns @ map ((!) vs) cs \<and>
    length (add_children vs p d cs ?ns) = length ?ns + length cs \<and>
    (\<forall>i<length ?ns. i \<noteq> p \<longrightarrow> tn_children (add_children vs p d cs ?ns ! i) = tn_children (?ns ! i)) \<and>
    (\<forall>i. length ?ns \<le> i \<and> i < length ?ns + length cs \<longrightarrow> tn_children (add_children vs p d cs ?ns ! i) = [])"
    using Cons.prems sel by (intro Cons.IH) simp_all
  have "tn_children (add_children vs p d cs ?ns ! length nodes) = []" using IH sel Cons.prems(2) by simp
  then have "tn_children (add_children vs p d cs ?ns ! i) = []" if "length nodes \<le> i" "i < length nodes + length (c # cs)" for i
    using IH that sel(1) by (cases "i = length nodes") auto
  then show ?case unfolding step using IH sel Cons.prems(2) by auto
qed auto

lemma loop_inv_step:
  assumes inv: "loop_inv vs ((p, r) # q) nodes placed expanded" and r: "r \<noteq> []" and p: "p < length nodes"
  shows "loop_inv vs (q @ distribute (take FAN_OUT r) (drop FAN_OUT r))
    (add_children vs p (tn_depth (nodes ! p) + 1) (take FAN_OUT r) nodes) (placed @ take FAN_OUT r) (insert p expanded)"
proof -
  let ?c = "take FAN_OUT r" and ?d = "distribute (take FAN_OUT r) (drop FAN_OUT r)"
  let ?ns = "add_children vs p (tn_depth (nodes ! p) + 1) ?c nodes"
  have I: "tree_ok nodes" "entries nodes = map ((!) vs) placed" "distinct (placed @ r @ concat (map snd q))"
    "set (placed @ r @ concat (map snd q)) \<subseteq> {..<length vs}" "distinct (p # map fst q)" "p \<in> set placed - expanded"
    "set (map fst q) \<subseteq> set placed - expanded" "expanded \<subseteq> set placed"
    "\<And>i. i < length nodes \<Longrightarrow> tn_children (nodes ! i) \<noteq> [] \<Longrightarrow> i \<in> expanded" "hd placed = 0"
    using inv unfolding loop_inv_def by auto
  have "tn_children (nodes ! p) = []" using I(6,9) p by blast
  then have A: "tree_ok ?ns" "entries ?ns = entries nodes @ map ((!) vs) ?c" "length ?ns = length nodes + length ?c"
    "\<And>i. i < length nodes \<Longrightarrow> i \<noteq> p \<Longrightarrow> tn_children (?ns ! i) = tn_children (nodes ! i)"
    "\<And>i. length nodes \<le> i \<Longrightarrow> i < length nodes + length ?c \<Longrightarrow> tn_children (?ns ! i) = []"
    using add_children_ok[OF I(1) p _ refl, of ?c vs] by (simp_all add: FAN_OUT_def)
  have c: "distinct ?c" "set ?c \<inter> set placed = {}" using I(3) by (auto dest: in_set_takeD)
  have D: "concat (map snd ?d) = drop FAN_OUT r" "distinct (map fst ?d)" "set (map fst ?d) \<subseteq> set ?c"
    using distribute_items[of "drop FAN_OUT r" ?c] c(1) r by (simp_all add: FAN_OUT_def)
  have "mset (placed @ ?c @ concat (map snd (q @ ?d))) = mset (placed @ (?c @ drop FAN_OUT r) @ concat (map snd q))"
    by (simp only: map_append concat_append D(1) mset_append ac_simps)
  then have m: "mset ((placed @ ?c) @ concat (map snd (q @ ?d))) = mset (placed @ r @ concat (map snd q))"
    by (simp only: append_take_drop_id append.assoc)
  show ?thesis unfolding loop_inv_def
  proof (intro conjI)
    show "distinct ((placed @ ?c) @ concat (map snd (q @ ?d)))" using I(3) m mset_eq_imp_distinct_iff by blast
    show "set ((placed @ ?c) @ concat (map snd (q @ ?d))) \<subseteq> {..<length vs}" using I(4) mset_eq_setD[OF m] by simp
    show "distinct (map fst (q @ ?d))" using I(5,7) D(2,3) c(2) by auto
    show "set (map fst (q @ ?d)) \<subseteq> set (placed @ ?c) - insert p expanded"
    proof -
      have "fst ` set q \<subseteq> set placed - insert p expanded" using I(5,7) by auto
      moreover have "set ?c \<subseteq> set (placed @ ?c) - insert p expanded" using I(6,8) c(2) by auto
      ultimately show ?thesis using D(3) by auto
    qed
    show "\<forall>i<length ?ns. tn_children (?ns ! i) \<noteq> [] \<longrightarrow> i \<in> insert p expanded"
      using A(3-5) I(9) by (metis insertCI not_le)
    show "hd (placed @ ?c) = 0" using I(6,10) by (cases placed) auto
  qed (use A I in auto)
qed

lemma tree_loop_inv:
  "loop_inv vs q nodes placed expanded \<Longrightarrow> tree_loop vs max_depth q nodes depth = Returned (nodes', depth') \<Longrightarrow>
     \<exists>placed expanded. loop_inv vs [] nodes' placed expanded"
proof (induction vs max_depth q nodes depth arbitrary: placed expanded rule: tree_loop.induct)
  case (2 vs max_depth p r q nodes depth)
  have skip: "loop_inv vs q nodes placed expanded"
    using 2(4) unfolding loop_inv_def by auto
  show ?case
  proof (cases "r = [] \<or> max_depth \<le> unat (tn_depth (nodes ! p))")
    case True
    then show ?thesis using 2(1,2,5) skip by (auto split: if_splits)
  next
    case False
    then have "p < length nodes" using 2(5) by (auto split: if_splits)
    then show ?thesis using 2(3)[OF _ _ _ refl refl loop_inv_step[OF 2(4)]] False 2(5) by (simp add: Let_def)
  qed
qed auto

lemma build_tree_inv:
  assumes "build_tree validators max_depth = Returned nb" "validators \<noteq> []"
  obtains placed where "tree_ok (nb_nodes nb)" "entries (nb_nodes nb) = map ((!) (sort_by_stake validators)) placed"
    "distinct placed" "set placed \<subseteq> {..<length validators}" "hd placed = 0" "nb_root nb = nb_nodes nb ! 0"
proof -
  define vs where "vs = sort_by_stake validators"
  have len: "length vs = length validators" by (simp add: vs_def sort_by_stake_def)
  then have "vs \<noteq> []" using assms(2) by fastforce
  note vs = len this
  define root where "root = \<lparr>tn_validator = fst (vs ! 0), tn_stake = snd (vs ! 0), tn_depth = 0, tn_index = 0, tn_parent = None, tn_children = []\<rparr>"
  have B: "Returned nb = (case tree_loop vs max_depth [(0, [1..<length vs])] [root] 0 of Panicked \<Rightarrow> Panicked
      | Returned (nodes, depth) \<Rightarrow> Returned \<lparr>nb_root = nodes ! 0, nb_nodes = nodes, nb_depth = depth\<rparr>)"
    using assms(1) vs(2) by (simp only: build_tree_def Let_def vs_def[symmetric] root_def[symmetric] if_False)
  obtain nodes depth where loop: "tree_loop vs max_depth [(0, [1..<length vs])] [root] 0 = Returned (nodes, depth)"
    using B by (cases "tree_loop vs max_depth [(0, [1..<length vs])] [root] 0") auto
  have nb: "nb = \<lparr>nb_root = nodes ! 0, nb_nodes = nodes, nb_depth = depth\<rparr>" using B unfolding loop by simp
  have "tree_ok [root]" by (auto simp: tree_ok_def root_def)
  then have "loop_inv vs [(0, [1..<length vs])] [root] [0] {}"
    using vs(2) unfolding loop_inv_def by (simp add: entries_def root_def atLeastLessThan_def)
  then obtain placed expanded where P: "loop_inv vs [] nodes placed expanded" using tree_loop_inv[OF _ loop] by blast
  show thesis
  proof (rule that)
    show "set placed \<subseteq> {..<length validators}" "distinct placed" "hd placed = 0" "tree_ok (nb_nodes nb)" "nb_root nb = nb_nodes nb ! 0"
      "entries (nb_nodes nb) = map ((!) (sort_by_stake validators)) placed"
      using P vs(1) by (simp_all add: loop_inv_def nb vs_def[symmetric])
  qed
qed

lemma mset_nth_subset:
  assumes "distinct js" "set js \<subseteq> {..<length xs}"
  shows "mset (map ((!) xs) js) \<subseteq># mset xs"
proof -
  have "mset js \<subseteq># mset [0..<length xs]"
    using assms subset_imp_msubset_mset_set[of "set js" "{0..<length xs}"] by (simp add: mset_set_set[symmetric] atLeast0LessThan)
  then have "image_mset ((!) xs) (mset js) \<subseteq># image_mset ((!) xs) (mset [0..<length xs])" by (rule image_mset_subseteq_mono)
  then show ?thesis by (simp only: mset_map[symmetric] map_nth)
qed

text \<open>
  C35 Whenever the tree can be built it is one: node 0 is the root, every other node has its
  parent among the earlier nodes, lies one level below it and is one of its children; children
  lists agree with the parent links, hold no index twice and at most three; the root has the
  highest stake, and no validator is placed more often than it was listed.
\<close>

theorem turbine_tree_wellformed:
  assumes "build_tree validators max_depth = Returned nb" "validators \<noteq> []"
  shows "tree_ok (nb_nodes nb) \<and> nb_root nb = nb_nodes nb ! 0 \<and> mset (entries (nb_nodes nb)) \<subseteq># mset validators \<and>
    list_all (\<lambda>v. snd v \<le> tn_stake (nb_root nb)) validators"
proof -
  obtain placed where b: "tree_ok (nb_nodes nb)" "entries (nb_nodes nb) = map ((!) (sort_by_stake validators)) placed"
    "distinct placed" "set placed \<subseteq> {..<length validators}" "hd placed = 0" "nb_root nb = nb_nodes nb ! 0"
    by (rule build_tree_inv[OF assms])
  let ?vs = "sort_by_stake validators"
  have len: "length ?vs = length validators" by (simp add: sort_by_stake_def)
  have "mset (map ((!) ?vs) placed) \<subseteq># mset ?vs" using b(3,4) len by (intro mset_nth_subset) simp_all
  then have sub: "mset (entries (nb_nodes nb)) \<subseteq># mset validators" by (simp add: b(2) sort_by_stake_def)
  have ne: "placed \<noteq> []" "nb_nodes nb \<noteq> []" using b(2) tree_okD(1)[OF b(1)] by (auto simp: entries_def)
  have "hd (entries (nb_nodes nb)) = ?vs ! 0" using b(2,5) ne(1) by (simp add: hd_map)
  then have root: "tn_stake (nb_root nb) = snd (?vs ! 0)" using ne(2) by (auto simp: b(6) entries_def hd_map hd_conv_nth dest: arg_cong[where f = snd])
  have "snd v \<le> snd (?vs ! 0)" if v: "v \<in> set validators" for v
  proof -
    have "v \<in> set ?vs" using v by (simp add: sort_by_stake_def)
    moreover have "sorted (map (\<lambda>v. - int (unat (snd v))) ?vs)" by (simp add: sort_by_stake_def)
    ultimately show ?thesis by (cases ?vs) (auto simp: word_le_def)
  qed
  then show ?thesis using b(1,6) sub root by (simp add: list_all_iff)
qed

theorem turbine_tree_wellformed_witness:
  "\<exists>nb. build_tree [(1, 5), (2, 9), (3, 1), (4, 2), (5, 2)] 4 = Returned nb \<and> tree_ok (nb_nodes nb) \<and> tn_validator (nb_root nb) = 2"
proof -
  have "build_tree [(1, 5), (2, 9), (3, 1), (4, 2), (5, 2)] 4 \<noteq> Panicked" by code_simp
  then obtain nb where nb: "build_tree [(1, 5), (2, 9), (3, 1), (4, 2), (5, 2)] 4 = Returned nb" by (cases "build_tree [(1, 5), (2, 9), (3, 1), (4, 2), (5, 2)] 4") auto
  have "map_outcome (\<lambda>nb. tn_validator (nb_root nb)) (build_tree [(1, 5), (2, 9), (3, 1), (4, 2), (5, 2)] 4) = Returned 2" by code_simp
  then show ?thesis using turbine_tree_wellformed[OF nb] nb by auto
qed

text \<open>
  Larger trees cannot be built at all: the queue refers to a node by its validator's rank, not
  by its place in the tree, so that with 18 validators and two levels a parent is looked up
  that does not exist yet.
\<close>

lemma build_tree_panics: "build_tree (map (\<lambda>i. (of_nat i, 1)) [0..<18]) 2 = Panicked"
  by code_simp

subsection \<open>Paths\<close>

lemma walk_up_spec:
  assumes "tree_ok nodes"
  shows "i < length nodes \<Longrightarrow> \<exists>ps. walk_up nodes (Some i) acc = Some (Returned (rev (acc @ ps))) \<and> ps \<noteq> [] \<and>
    hd ps = nodes ! i \<and> last ps = nodes ! 0 \<and> successively (\<lambda>a b. tn_parent a = Some (tn_index b)) ps"
proof (induction i arbitrary: acc rule: less_induct)
  case (less i)
  show ?case
  proof (cases "i = 0")
    case True
    then have "walk_up nodes (Some i) acc = Some (Returned (rev (acc @ [nodes ! 0])))"
      using less.prems tree_okD(2)[OF assms] by (simp add: walk_up.simps)
    then show ?thesis using True by (intro exI[of _ "[nodes ! 0]"]) simp
  next
    case False
    then obtain p where p: "p < i" "tn_parent (nodes ! i) = Some p" using tree_okD(7)[OF assms less.prems] by auto
    then obtain ps where ps: "walk_up nodes (Some p) (acc @ [nodes ! i]) = Some (Returned (rev ((acc @ [nodes ! i]) @ ps)))" "ps \<noteq> []"
      "hd ps = nodes ! p" "last ps = nodes ! 0" "successively (\<lambda>a b. tn_parent a = Some (tn_index b)) ps"
      using less.IH[of p "acc @ [nodes ! i]"] less.prems by auto
    have "walk_up nodes (Some i) acc = Some (Returned (rev (acc @ nodes ! i # ps)))"
      using ps(1) p(2) less.prems by (simp add: walk_up.simps[of nodes "Some i"])
    moreover have "tn_index (nodes ! p) = p" using tree_okD(3)[OF assms] p(1) less.prems by simp
    ultimately show ?thesis using ps p by (intro exI[of _ "nodes ! i # ps"]) (cases ps; simp)
  qed
qed

text \<open>
  Every path query on a built tree ends and gives the path from the root: the first node is
  the root, the last the asked validator's, and each node's parent is the one before it; a
  validator that is not in the tree has no path.
\<close>

theorem path_to_root:
  assumes "build_tree validators max_depth = Returned nb" "validators \<noteq> []"
  shows "\<exists>r. path_to v nb = Some (Returned r) \<and>
    (case r of None \<Rightarrow> list_all (\<lambda>n. tn_validator n \<noteq> v) (nb_nodes nb)
     | Some path \<Rightarrow> path \<noteq> [] \<and> hd path = nb_root nb \<and> tn_validator (last path) = v \<and>
         successively (\<lambda>a b. tn_parent b = Some (tn_index a)) path)"
proof -
  obtain placed where b: "tree_ok (nb_nodes nb)" "nb_root nb = nb_nodes nb ! 0"
    by (rule build_tree_inv[OF assms])
  show ?thesis
  proof (cases "node_position v nb")
    case None
    then have "list_all (\<lambda>n. tn_validator n \<noteq> v) (nb_nodes nb)"
      by (auto simp: node_position_def find_None_iff list_all_length)
    then show ?thesis using None by (simp add: path_to_def)
  next
    case (Some i)
    then have i: "i < length (nb_nodes nb)" "tn_validator (nb_nodes nb ! i) = v"
      by (auto simp: node_position_def find_Some_iff)
    obtain ps where ps: "walk_up (nb_nodes nb) (Some i) [] = Some (Returned (rev ps))" "ps \<noteq> []" "hd ps = nb_nodes nb ! i"
      "last ps = nb_nodes nb ! 0" "successively (\<lambda>a b. tn_parent a = Some (tn_index b)) ps"
      using walk_up_spec[OF b(1) i(1), of "[]"] by auto
    have "path_to v nb = Some (Returned (Some (rev ps)))" using Some ps(1) by (simp add: path_to_def)
    then show ?thesis using ps(2-5) b(2) i(2) by (simp add: hd_rev last_rev successively_rev)
  qed
qed

theorem path_to_root_witness:
  "\<exists>nb path. build_tree [(1, 5), (2, 9), (3, 1), (4, 2), (5, 2)] 4 = Returned nb \<and>
     path_to 3 nb = Some (Returned (Some path)) \<and> hd path = nb_root nb \<and> tn_validator (last path) = 3"
proof -
  let ?b = "build_tree [(1, 5), (2, 9), (3, 1), (4, 2), (5, 2)] 4"
  have "?b \<noteq> Panicked" by code_simp
  then obtain nb where nb: "?b = Returned nb" by (cases ?b) auto
  have "map_outcome (\<lambda>nb. list_ex (\<lambda>n. tn_validator n = 3) (nb_nodes nb)) ?b = Returned True" by code_simp
  then have "list_ex (\<lambda>n. tn_validator n = 3) (nb_nodes nb)" using nb by simp
  then have "\<not> list_all (\<lambda>n. tn_validator n \<noteq> 3) (nb_nodes nb)" by (auto simp: list_ex_iff list_all_iff)
  then show ?thesis using path_to_root[OF nb, of 3] nb by (auto split: option.splits)
qed

text \<open>On a built tree the neighbours of a validator can always be listed.\<close>

lemma nb_neighbors_returns:
  assumes "tree_ok (nb_nodes nb)"
  shows "\<exists>ns. nb_neighbors v nb = Returned ns"
proof (cases "find (\<lambda>n. tn_validator n = v) (nb_nodes nb)")
  case None
  then show ?thesis by (simp add: nb_neighbors_def)
next
  case (Some n)
  then obtain i where i: "i < length (nb_nodes nb)" "n = nb_nodes nb ! i" by (auto simp: find_Some_iff)
  have "\<forall>c\<in>set (tn_children n). c < length (nb_nodes nb)" using tree_okD(6)[OF assms i(1)] i(2) by auto
  moreover have "p < length (nb_nodes nb)" if "tn_parent n = Some p" for p using tree_parent_less[OF assms i(1)] that i by fastforce
  ultimately show ?thesis using Some by (auto simp: nb_neighbors_def Let_def list_all_iff split: option.splits)
qed

end
