(* ===== verification/Turbine.thy ===== *)
theory Turbine
  imports Neighborhoods
begin

text \<open>
  The block propagator (\<^verbatim>\<open>crates/turbine/src/propagate.rs\<close>): erasure coding a block and sending
  the shreds to the neighbours, receiving, buffering and pruning shreds, reassembling blocks
  and forwarding. The unbounded channel is the list of what was sent, with a flag that says
  whether the receiving end still exists; the system clock is a parameter.
\<close>

record received_shred =
  rs_shred :: shred
  rs_from :: pubkey
  rs_at :: u64

record propagation_stats =
  blocks_propagated :: u64
  shreds_sent :: u64
  shreds_received :: u64
  blocks_reassembled :: u64
  propagation_errors :: u64
  invalid_shreds :: u64
  duplicate_shreds :: u64
  slots_pruned :: u64

definition stats_default :: propagation_stats where
  "stats_default = \<lparr>blocks_propagated = 0, shreds_sent = 0, shreds_received = 0, blocks_reassembled = 0,
     propagation_errors = 0, invalid_shreds = 0, duplicate_shreds = 0, slots_pruned = 0\<rparr>"

record propagator =
  tp_coder :: erasure_config
  tp_neighborhood :: neighborhood
  tp_validator_id :: pubkey
  tp_received :: "(u64 \<times> received_shred list) list"
  tp_sent :: "(bytes \<times> shred list) list"
  tp_receiver_alive :: bool
  tp_signer :: "hash32 option"
  tp_stats :: propagation_stats

definition propagator_new :: "pubkey \<Rightarrow> neighborhood \<Rightarrow> propagator" where
  "propagator_new validator_id nb =
     \<lparr>tp_coder = erasure_default_solana, tp_neighborhood = nb, tp_validator_id = validator_id, tp_received = [],
      tp_sent = [], tp_receiver_alive = True, tp_signer = None, tp_stats = stats_default\<rparr>"

definition with_signer :: "hash32 \<Rightarrow> propagator \<Rightarrow> propagator" where
  "with_signer key p = p\<lparr>tp_signer := Some key\<rparr>"

subsection \<open>Sending\<close>

definition channel_send :: "bytes \<times> shred list \<Rightarrow> propagator \<Rightarrow> bool \<times> propagator" where
  "channel_send msg p = (if tp_receiver_alive p then (True, p\<lparr>tp_sent := tp_sent p @ [msg]\<rparr>) else (False, p))"

definition sign_shreds :: "('z) crypto_scheme \<Rightarrow> hash32 option \<Rightarrow> shred list \<Rightarrow> shred list" where
  "sign_shreds cx signer shreds = (case signer of None \<Rightarrow> shreds | Some key \<Rightarrow> map (shred_sign cx key) shreds)"

fun send_to_neighbors :: "bytes list \<Rightarrow> shred list \<Rightarrow> propagator \<Rightarrow> propagator" where
  "send_to_neighbors [] shreds p = p"
| "send_to_neighbors (key # keys) shreds p =
     (let (ok, p) = channel_send (key, shreds) p
      in send_to_neighbors keys shreds
           (if ok then p else p\<lparr>tp_stats := (tp_stats p)\<lparr>propagation_errors := propagation_errors (tp_stats p) + 1\<rparr>\<rparr>))"

definition propagate_block :: "('z) crypto_scheme \<Rightarrow> bytes \<Rightarrow> u64 \<Rightarrow> propagator \<Rightarrow> propagator outcome" where
  "propagate_block cx block_data slot p =
     (case encode cx (tp_coder p) block_data slot of
        Panicked \<Rightarrow> Panicked
      | Returned shreds \<Rightarrow>
          (let shreds = sign_shreds cx (tp_signer p) shreds
           in case nb_neighbors (tp_validator_id p) (tp_neighborhood p) of
                Panicked \<Rightarrow> Panicked
              | Returned ns \<Rightarrow>
                  (let p = send_to_neighbors (map (\<lambda>n. bytes32 (tn_validator n)) ns) shreds p
                   in Returned (p\<lparr>tp_stats := (tp_stats p)\<lparr>blocks_propagated := blocks_propagated (tp_stats p) + 1,
                        shreds_sent := shreds_sent (tp_stats p) + of_nat (length shreds)\<rparr>\<rparr>))))"

fun forward_to :: "nat list \<Rightarrow> shred list \<Rightarrow> propagator \<Rightarrow> propagator outcome" where
  "forward_to [] shreds p = Returned p"
| "forward_to (child_idx # rest) shreds p =
     (if length (nb_nodes (tp_neighborhood p)) \<le> child_idx then Panicked
      else forward_to rest shreds
             (snd (channel_send (bytes32 (tn_validator (nb_nodes (tp_neighborhood p) ! child_idx)), shreds) p)))"

definition forward_shreds :: "shred list \<Rightarrow> propagator \<Rightarrow> propagator outcome" where
  "forward_shreds shreds p =
     (case find (\<lambda>n. tn_validator n = tp_validator_id p) (nb_nodes (tp_neighborhood p)) of
        None \<Rightarrow> Returned p
      | Some node \<Rightarrow> forward_to (tn_children node) shreds p)"

subsection \<open>Receiving\<close>

definition slot_shreds :: "u64 \<Rightarrow> propagator \<Rightarrow> received_shred list" where
  "slot_shreds slot p = (case map_of (tp_received p) slot of None \<Rightarrow> [] | Some rs \<Rightarrow> rs)"

definition receive_shred :: "('z) crypto_scheme \<Rightarrow> u64 \<Rightarrow> shred \<Rightarrow> pubkey \<Rightarrow> propagator \<Rightarrow> bool \<times> propagator" where
  "receive_shred cx now s from p =
     (if \<not> shred_verify cx s \<or> sh_signature s \<noteq> [] \<and> \<not> shred_verify_signature cx s
      then (False, p\<lparr>tp_stats := (tp_stats p)\<lparr>invalid_shreds := invalid_shreds (tp_stats p) + 1\<rparr>\<rparr>)
      else
        let rs = slot_shreds (sh_slot s) p;
            p = p\<lparr>tp_received := AList.update (sh_slot s) rs (tp_received p)\<rparr>
        in if list_ex (\<lambda>r. sh_id (rs_shred r) = sh_id s) rs
           then (False, p\<lparr>tp_stats := (tp_stats p)\<lparr>duplicate_shreds := duplicate_shreds (tp_stats p) + 1\<rparr>\<rparr>)
           else
             (True, p\<lparr>tp_received := AList.update (sh_slot s) (rs @ [\<lparr>rs_shred = s, rs_from = from, rs_at = now\<rparr>]) (tp_received p),
                tp_stats := (tp_stats p)\<lparr>shreds_received := shreds_received (tp_stats p) + 1\<rparr>\<rparr>))"

definition prune_slots_below :: "u64 \<Rightarrow> propagator \<Rightarrow> nat \<times> propagator" where
  "prune_slots_below slot p =
     (let stale = filter (\<lambda>s. s < slot) (map fst (tp_received p));
          p = p\<lparr>tp_received := fold AList.delete stale (tp_received p)\<rparr>
      in (length stale,
          if stale = [] then p
          else p\<lparr>tp_stats := (tp_stats p)\<lparr>slots_pruned := slots_pruned (tp_stats p) + of_nat (length stale)\<rparr>\<rparr>))"

definition buffered_slots :: "propagator \<Rightarrow> nat" where
  "buffered_slots p = length (tp_received p)"

definition try_reassemble :: "u64 \<Rightarrow> propagator \<Rightarrow> (bytes option \<times> propagator) outcome" where
  "try_reassemble slot p =
     (case map_of (tp_received p) slot of
        None \<Rightarrow> Returned (None, p)
      | Some rs \<Rightarrow>
          (case decode (tp_coder p) (map rs_shred rs) of
             Panicked \<Rightarrow> Panicked
           | Returned result \<Rightarrow>
               Returned (result,
                 if result \<noteq> None
                 then p\<lparr>tp_stats := (tp_stats p)\<lparr>blocks_reassembled := blocks_reassembled (tp_stats p) + 1\<rparr>\<rparr> else p)))"

definition shreds_received_for_slot :: "u64 \<Rightarrow> propagator \<Rightarrow> nat" where
  "shreds_received_for_slot slot p = (case map_of (tp_received p) slot of None \<Rightarrow> 0 | Some rs \<Rightarrow> length rs)"

subsection \<open>The buffers\<close>

lemma receive_shred_buffer:
  "tp_coder (snd (receive_shred cx now s from p)) = tp_coder p"
  "map rs_shred (slot_shreds sl (snd (receive_shred cx now s from p))) =
     map rs_shred (slot_shreds sl p) @ (if fst (receive_shred cx now s from p) \<and> sh_slot s = sl then [s] else [])"
  by (auto simp: receive_shred_def Let_def slot_shreds_def update_conv' split: option.splits)

lemma receive_shred_accepts:
  "fst (receive_shred cx now s from p) \<longleftrightarrow>
     shred_verify cx s \<and> (sh_signature s = [] \<or> shred_verify_signature cx s) \<and>
     sh_id s \<notin> sh_id ` set (map rs_shred (slot_shreds (sh_slot s) p))"
  by (simp add: receive_shred_def Let_def list_ex_iff image_iff) (metis (no_types))

fun receive_all :: "('z) crypto_scheme \<Rightarrow> (shred \<times> pubkey \<times> u64) list \<Rightarrow> propagator \<Rightarrow> propagator" where
  "receive_all cx [] p = p"
| "receive_all cx ((s, from, now) # rx) p = receive_all cx rx (snd (receive_shred cx now s from p))"

lemma receive_all_coder [simp]: "tp_coder (receive_all cx rx p) = tp_coder p"
  by (induction cx rx p rule: receive_all.induct) (simp_all add: receive_shred_buffer)

text \<open>What a slot's buffer holds after shreds with distinct identifiers have arrived.\<close>

lemma receive_all_buffer:
  assumes "inj_on sh_id S" "\<And>s. s \<in> S \<Longrightarrow> shred_verify cx s \<and> (sh_signature s = [] \<or> shred_verify_signature cx s)"
  shows "set (map rs_shred (slot_shreds sl p)) \<subseteq> S \<Longrightarrow> {s \<in> fst ` set rx. sh_slot s = sl} \<subseteq> S \<Longrightarrow>
    set (map rs_shred (slot_shreds sl (receive_all cx rx p))) =
      set (map rs_shred (slot_shreds sl p)) \<union> {s \<in> fst ` set rx. sh_slot s = sl}"
proof (induction rx arbitrary: p)
  case (Cons x rx)
  obtain s src now where x: "x = (s, src, now)" by (cases x)
  define p1 where "p1 = snd (receive_shred cx now s src p)"
  have buf: "set (map rs_shred (slot_shreds sl p1)) = set (map rs_shred (slot_shreds sl p)) \<union> (if sh_slot s = sl then {s} else {})"
  proof (cases "sh_slot s = sl \<and> \<not> fst (receive_shred cx now s src p)")
    case True
    then have s: "s \<in> S" using Cons.prems(2) by (auto simp: x)
    then have "sh_id s \<in> sh_id ` set (map rs_shred (slot_shreds sl p))"
      using True assms(2)[OF s] receive_shred_accepts[of cx now s src p] by blast
    then obtain b where "b \<in> set (map rs_shred (slot_shreds sl p))" "sh_id b = sh_id s" by (metis imageE)
    then have "s \<in> set (map rs_shred (slot_shreds sl p))" using Cons.prems(1) s assms(1) by (metis inj_onD subsetD)
    then show ?thesis unfolding p1_def receive_shred_buffer using True by auto
  qed (auto simp: p1_def receive_shred_buffer simp del: set_map)
  have "set (map rs_shred (slot_shreds sl p1)) \<subseteq> S" using Cons.prems buf by (auto simp: x)
  then have "set (map rs_shred (slot_shreds sl (receive_all cx rx p1))) =
      set (map rs_shred (slot_shreds sl p1)) \<union> {s \<in> fst ` set rx. sh_slot s = sl}"
    using Cons.prems(2) by (intro Cons.IH) auto
  then show ?case unfolding buf by (auto simp: x p1_def[symmetric])
qed simp

lemma encoded_shreds:
  fixes key :: "hash32 option"
  assumes "ed25519_correct cx" "encode cx cfg data slot = Returned shreds" "total_shards cfg \<le> 256"
  defines "S \<equiv> set (sign_shreds cx key shreds)"
  shows "s \<in> S \<Longrightarrow> shred_verify cx s \<and> (sh_signature s = [] \<or> shred_verify_signature cx s)"
    and "s \<in> S \<Longrightarrow> unat (sh_index s) < total_shards cfg \<and> sh_payload s = sh_payload (shreds ! unat (sh_index s))"
    and "inj_on sh_id S"
proof -
  define f where "f = (case key of None \<Rightarrow> id | Some k \<Rightarrow> shred_sign cx k)"
  have S: "S = f ` set shreds" by (auto simp: S_def sign_shreds_def f_def split: option.splits)
  have f: "sh_index (f s) = sh_index s" "sh_payload (f s) = sh_payload s" "sh_id (f s) = sh_id s" "shred_verify cx (f s) = shred_verify cx s"
    "sh_signature s = [] \<Longrightarrow> sh_signature (f s) = [] \<or> shred_verify_signature cx (f s)" for s
    using shred_sign_verifies[OF assms(1)] by (auto simp: f_def split: option.splits)
  note shape = encode_shape[OF assms(2)]
  have nat: "unat (of_nat r :: u64) = r" if "r < total_shards cfg" for r using that assms(3) by (simp add: unat_of_nat)
  have item: "\<exists>r<total_shards cfg. s = f (shreds ! r)" if "s \<in> S" for s
    using that shape(1) by (auto simp: S in_set_conv_nth)
  show "shred_verify cx s \<and> (sh_signature s = [] \<or> shred_verify_signature cx s)" if "s \<in> S" for s
    using item[OF that] shape(2) f by metis
  show "unat (sh_index s) < total_shards cfg \<and> sh_payload s = sh_payload (shreds ! unat (sh_index s))" if "s \<in> S" for s
    using item[OF that] shape(2) f nat by metis
  show "inj_on sh_id S"
  proof (rule inj_onI)
    fix s t assume st: "s \<in> S" "t \<in> S" "sh_id s = sh_id t"
    obtain r q where r: "r < total_shards cfg" "s = f (shreds ! r)" and q: "q < total_shards cfg" "t = f (shreds ! q)"
      using item st(1,2) by metis
    have "(of_nat r :: u64) = of_nat q"
      using st(3) shape(2)[OF r(1)] shape(2)[OF q(1)] by (simp add: r(2) q(2) f shred_id_data_def shred_id_coding_def split: if_splits)
    then have "r = q" using nat r(1) q(1) by metis
    then show "s = t" using r q by simp
  qed
qed


definition demo_propagator :: propagator where
  "demo_propagator = propagator_new 2
     \<lparr>nb_root = \<lparr>tn_validator = 2, tn_stake = 1, tn_depth = 0, tn_index = 0, tn_parent = None, tn_children = []\<rparr>, nb_nodes = [], nb_depth = 0\<rparr>"


text \<open>
  An attacker can keep a block from being reassembled: a shred that carries any payload but
  the identifier of a genuine one is accepted without a signature, and the genuine shred is
  then dropped as a duplicate.
\<close>

lemma spoofed_shred_shadows:
  assumes "sh_id s = shred_id_data slot i" "sh_slot s = slot" "slot_shreds slot q = []"
  shows "fst (receive_shred cx now (new_data cx slot i pl) a q)"
    and "\<not> fst (receive_shred cx now' s b (snd (receive_shred cx now (new_data cx slot i pl) a q)))"
  using assms receive_shred_buffer(2)[of slot cx now "new_data cx slot i pl" a q]
  by (simp_all add: receive_shred_accepts)

text \<open>Pruning drops exactly the slots below the bound.\<close>

lemma prune_slots_below_buffer:
  "slot_shreds sl (snd (prune_slots_below slot p)) = (if sl < slot then [] else slot_shreds sl p)"
proof -
  have del: "map_of (fold AList.delete ks al) k = (if k \<in> set ks then None else map_of al k)" for ks :: "u64 list" and al :: "(u64 \<times> received_shred list) list" and k
    by (induction ks arbitrary: al) (simp_all add: delete_conv')
  let ?stale = "filter (\<lambda>s. s < slot) (map fst (tp_received p))"
  have "tp_received (snd (prune_slots_below slot p)) = fold AList.delete ?stale (tp_received p)"
    by (simp add: prune_slots_below_def Let_def)
  then have "map_of (tp_received (snd (prune_slots_below slot p))) sl = (if sl \<in> set ?stale then None else map_of (tp_received p) sl)"
    by (simp only: del)
  also have "\<dots> = (if sl < slot then None else map_of (tp_received p) sl)" by (auto simp: map_of_eq_None_iff)
  finally show ?thesis by (simp add: slot_shreds_def)
qed

end
