(* ===== verification/Crds.thy ===== *)
theory Crds
  imports Crypto
begin

text \<open>
  Gossip messages (\<^verbatim>\<open>crates/gossip/src/message.rs\<close>) and the replicated data store
  (\<^verbatim>\<open>crates/gossip/src/crds.rs\<close>). The JSON encoding of a payload is a parameter, beside the
  cryptographic ones; the clock and the random shuffle are arguments.
\<close>

subsection \<open>Messages\<close>

datatype message_type = MT_Push | MT_PullRequest | MT_PullResponse | MT_Prune | MT_Ping | MT_Pong

record socket_addr =
  sa_ip :: "u8 list"
  sa_port :: u16

definition localhost :: "u16 \<Rightarrow> socket_addr" where
  "localhost port = \<lparr>sa_ip = [127, 0, 0, 1], sa_port = port\<rparr>"

record contact_info =
  ci_pubkey :: pubkey
  ci_gossip :: socket_addr
  ci_tpu :: socket_addr
  ci_rpc :: socket_addr
  ci_tvu :: socket_addr
  ci_stake :: u64
  ci_version :: string
  ci_wallclock :: u64

record push_data =
  pd_id :: hash32
  pd_content :: bytes
  pd_kind :: string

record pull_request_data =
  filters :: "(string \<times> u64) list"
  req_contact_info :: contact_info

record pull_response_data =
  items :: "push_data list"
  resp_contact_info :: contact_info

record prune_data =
  kinds :: "string list"
  prune_from :: pubkey

datatype gossip_payload =
    Push push_data
  | PullRequest pull_request_data
  | PullResponse pull_response_data
  | Prune prune_data
  | Ping u64
  | Pong u64

record gossip_message =
  gm_from :: pubkey
  gm_type :: message_type
  gm_payload :: gossip_payload
  gm_timestamp :: u64
  gm_signature :: bytes

record gossip_ext = crypto +
  payload_to_json :: "gossip_payload \<Rightarrow> bytes"

definition gossip_message_new :: "u64 \<Rightarrow> pubkey \<Rightarrow> message_type \<Rightarrow> gossip_payload \<Rightarrow> gossip_message" where
  "gossip_message_new now sender message_type payload =
     \<lparr>gm_from = sender, gm_type = message_type, gm_payload = payload, gm_timestamp = now, gm_signature = []\<rparr>"

fun message_type_u8 :: "message_type \<Rightarrow> u8" where
  "message_type_u8 MT_Push = 0"
| "message_type_u8 MT_PullRequest = 1"
| "message_type_u8 MT_PullResponse = 2"
| "message_type_u8 MT_Prune = 3"
| "message_type_u8 MT_Ping = 4"
| "message_type_u8 MT_Pong = 5"

definition gm_signable_data :: "('z) gossip_ext_scheme \<Rightarrow> gossip_message \<Rightarrow> bytes" where
  "gm_signable_data cx m =
     bytes32 (gm_from m) @ [message_type_u8 (gm_type m)] @ le_u64 (gm_timestamp m) @ payload_to_json cx (gm_payload m)"

definition gm_hash :: "('z) gossip_ext_scheme \<Rightarrow> gossip_message \<Rightarrow> hash32" where
  "gm_hash cx m = sha256 cx (gm_signable_data cx m)"

definition gm_sign :: "('z) gossip_ext_scheme \<Rightarrow> hash32 \<Rightarrow> gossip_message \<Rightarrow> gossip_message" where
  "gm_sign cx key m =
     (let m = m\<lparr>gm_from := verifying_key cx key\<rparr>
      in m\<lparr>gm_signature := ed_sign cx key (gm_signable_data cx m)\<rparr>)"

definition gm_verify_signature :: "('z) gossip_ext_scheme \<Rightarrow> gossip_message \<Rightarrow> bool" where
  "gm_verify_signature cx m = signature_ok cx (gm_from m) (gm_signable_data cx m) (gm_signature m)"

definition gm_age_ms :: "u64 \<Rightarrow> gossip_message \<Rightarrow> u64" where
  "gm_age_ms now m = saturating_sub now (gm_timestamp m)"

text \<open>Two payloads never have the same JSON text.\<close>

definition payload_json_ok :: "('z) gossip_ext_scheme \<Rightarrow> bool" where
  "payload_json_ok cx \<longleftrightarrow> inj (payload_to_json cx)"

lemma message_type_u8_inj: "message_type_u8 a = message_type_u8 b \<Longrightarrow> a = b"
  by (cases a; cases b) simp_all

lemma gm_signable_data_inj:
  assumes "payload_json_ok cx" "gm_signable_data cx m = gm_signable_data cx n"
  shows "m\<lparr>gm_signature := []\<rparr> = n\<lparr>gm_signature := []\<rparr>"
  using assms by (cases m; cases n) (auto simp: gm_signable_data_def payload_json_ok_def dest: message_type_u8_inj injD)

lemma gm_sign_verifies: "ed25519_correct cx \<Longrightarrow> gm_verify_signature cx (gm_sign cx key m)"
  by (simp add: gm_verify_signature_def gm_sign_def Let_def ed25519_correct_def gm_signable_data_def)

lemma gm_sign_sel [simp]:
  "gm_from (gm_sign cx key m) = verifying_key cx key" "gm_type (gm_sign cx key m) = gm_type m"
  "gm_payload (gm_sign cx key m) = gm_payload m" "gm_timestamp (gm_sign cx key m) = gm_timestamp m"
  by (simp_all add: gm_sign_def Let_def)

subsection \<open>The store\<close>

record crds_entry =
  ce_data :: push_data
  ce_inserted_at :: u64
  ce_from :: pubkey
  propagation_count :: u32

record crds =
  crds_entries :: "(hash32 \<times> crds_entry) list"
  crds_contacts :: "(pubkey \<times> contact_info) list"
  self_info :: "contact_info option"
  max_entries :: nat
  total_inserted :: u64
  total_pruned :: u64

record crds_stats =
  cs_entries :: nat
  cs_contacts :: nat
  cs_total_inserted :: u64
  cs_total_pruned :: u64

definition crds_new :: "nat \<Rightarrow> crds" where
  "crds_new n = \<lparr>crds_entries = [], crds_contacts = [], self_info = None, max_entries = n, total_inserted = 0, total_pruned = 0\<rparr>"

definition default_store :: crds where
  "default_store = crds_new 100000"

definition prune_entry :: "hash32 \<Rightarrow> crds \<Rightarrow> crds" where
  "prune_entry i c = c\<lparr>crds_entries := AList.delete i (crds_entries c), total_pruned := total_pruned c + 1\<rparr>"

definition prune_old :: "crds \<Rightarrow> crds" where
  "prune_old c =
     (let entries = sort_key snd (map (\<lambda>(k, e). (k, ce_inserted_at e)) (crds_entries c));
          to_remove = length entries - max_entries c * 9 div 10
      in fold (\<lambda>(i, _). prune_entry i) (take to_remove entries) c)"

definition insert_push :: "u64 \<Rightarrow> gossip_message \<Rightarrow> crds \<Rightarrow> bool \<times> crds" where
  "insert_push now msg c =
     (case gm_payload msg of
        Push data \<Rightarrow>
          if map_of (crds_entries c) (pd_id data) \<noteq> None then (False, c)
          else
            let entry = \<lparr>ce_data = data, ce_inserted_at = now, ce_from = gm_from msg, propagation_count = 0\<rparr>;
                c = c\<lparr>crds_entries := AList.update (pd_id data) entry (crds_entries c), total_inserted := total_inserted c + 1\<rparr>;
                c = (if max_entries c < length (crds_entries c) then prune_old c else c)
            in (True, c)
      | _ \<Rightarrow> (False, c))"

definition insert_contact :: "contact_info \<Rightarrow> crds \<Rightarrow> crds" where
  "insert_contact contact c = c\<lparr>crds_contacts := AList.update (ci_pubkey contact) contact (crds_contacts c)\<rparr>"

definition set_self_info :: "contact_info \<Rightarrow> crds \<Rightarrow> crds" where
  "set_self_info info c = c\<lparr>self_info := Some info\<rparr>"

definition crds_get :: "hash32 \<Rightarrow> crds \<Rightarrow> crds_entry option" where
  "crds_get i c = map_of (crds_entries c) i"

definition entries_newer_than :: "u64 \<Rightarrow> crds \<Rightarrow> crds_entry list" where
  "entries_newer_than ts c = filter (\<lambda>e. ts < ce_inserted_at e) (map snd (crds_entries c))"

definition entries_by_kind :: "string \<Rightarrow> crds \<Rightarrow> crds_entry list" where
  "entries_by_kind kind c = filter (\<lambda>e. pd_kind (ce_data e) = kind) (map snd (crds_entries c))"

definition contacts :: "crds \<Rightarrow> contact_info list" where
  "contacts c = map snd (crds_contacts c)"

definition random_contacts :: "(contact_info list \<Rightarrow> contact_info list) \<Rightarrow> nat \<Rightarrow> crds \<Rightarrow> contact_info list" where
  "random_contacts shuffle n c = take n (shuffle (contacts c))"

definition crds_len :: "crds \<Rightarrow> nat" where
  "crds_len c = length (crds_entries c)"

definition crds_is_empty :: "crds \<Rightarrow> bool" where
  "crds_is_empty c \<longleftrightarrow> crds_entries c = []"

definition crds_stats_of :: "crds \<Rightarrow> crds_stats" where
  "crds_stats_of c = \<lparr>cs_entries = length (crds_entries c), cs_contacts = length (crds_contacts c),
     cs_total_inserted = total_inserted c, cs_total_pruned = total_pruned c\<rparr>"

subsection \<open>Invariant\<close>

definition crds_inv :: "crds \<Rightarrow> bool" where
  "crds_inv c \<longleftrightarrow> distinct (map fst (crds_entries c)) \<and> length (crds_entries c) \<le> max_entries c \<and>
     (\<forall>(i, e) \<in> set (crds_entries c). pd_id (ce_data e) = i) \<and>
     total_inserted c = total_pruned c + of_nat (length (crds_entries c))"

lemma prune_entries:
  assumes "distinct ks" "set ks \<subseteq> set (map fst (crds_entries c))" "distinct (map fst (crds_entries c))"
  shows "fold prune_entry ks c =
    c\<lparr>crds_entries := filter (\<lambda>(k, _). k \<notin> set ks) (crds_entries c), total_pruned := total_pruned c + of_nat (length ks)\<rparr>"
  using assms
proof (induction ks arbitrary: c)
  case Nil
  then show ?case by (simp add: split_def)
next
  case (Cons k ks)
  have del: "AList.delete k xs = filter (\<lambda>(k', _). k \<noteq> k') xs" for xs :: "(hash32 \<times> crds_entry) list"
    by (simp add: AList.delete_eq split_def)
  have "set ks \<subseteq> set (map fst (crds_entries (prune_entry k c)))" "distinct (map fst (crds_entries (prune_entry k c)))"
    using Cons.prems by (simp_all add: prune_entry_def del distinct_map_filter) force
  then show ?case using Cons.IH[of "prune_entry k c"] Cons.prems(1)
    by (auto simp: prune_entry_def del conj_commute split_def intro!: arg_cong2[where f = "\<lambda>es n. c\<lparr>crds_entries := es, total_pruned := n\<rparr>"] filter_cong)
qed

definition prune_keys :: "crds \<Rightarrow> hash32 list" where
  "prune_keys c =
     (let entries = sort_key snd (map (\<lambda>(k, e). (k, ce_inserted_at e)) (crds_entries c))
      in map fst (take (length entries - max_entries c * 9 div 10) entries))"

lemma prune_old_fold: "prune_old c = fold prune_entry (prune_keys c) c"
  by (simp add: prune_old_def prune_keys_def Let_def fold_map comp_def split_def)

lemma sorted_entry_keys:
  "mset (map fst (sort_key snd (map (\<lambda>(k, e). (k, ce_inserted_at e)) (crds_entries c)))) = mset (map fst (crds_entries c))"
  by (simp add: image_mset.compositionality comp_def split_def)

lemma prune_keys_spec:
  assumes "distinct (map fst (crds_entries c))"
  shows "distinct (prune_keys c)" "set (prune_keys c) \<subseteq> set (map fst (crds_entries c))"
    "length (prune_keys c) = length (crds_entries c) - max_entries c * 9 div 10"
proof -
  let ?s = "sort_key snd (map (\<lambda>(k, e). (k, ce_inserted_at e)) (crds_entries c))"
  have pk: "prune_keys c = take (length (crds_entries c) - max_entries c * 9 div 10) (map fst ?s)"
    by (simp add: prune_keys_def Let_def take_map)
  have d: "distinct (map fst ?s)" using assms mset_eq_imp_distinct_iff[OF sorted_entry_keys[of c]] by blast
  show "distinct (prune_keys c)" unfolding pk using d by (rule distinct_take)
  show "set (prune_keys c) \<subseteq> set (map fst (crds_entries c))"
    unfolding pk using mset_eq_setD[OF sorted_entry_keys[of c]] set_take_subset by fast
  show "length (prune_keys c) = length (crds_entries c) - max_entries c * 9 div 10" unfolding pk by simp
qed

lemma filter_keys_length:
  assumes "distinct (map fst al)" "distinct ks" "set ks \<subseteq> set (map fst al)"
  shows "length (filter (\<lambda>(k, _). k \<notin> set ks) al) + length ks = length al"
proof -
  have "length (filter (\<lambda>(k, _). k \<in> set ks) al) = card (set (map fst (filter (\<lambda>(k, _). k \<in> set ks) al)))"
    using distinct_card[OF distinct_map_filter[OF assms(1)]] by simp
  also have "set (map fst (filter (\<lambda>(k, _). k \<in> set ks) al)) = set ks" using assms(3) by force
  finally have "length (filter (\<lambda>(k, _). k \<in> set ks) al) = length ks" using assms(2) distinct_card by metis
  then show ?thesis using sum_length_filter_compl[of "\<lambda>(k, _). k \<in> set ks" al] by (simp add: split_def)
qed

lemma prune_old_spec:
  assumes "distinct (map fst (crds_entries c))"
  shows "crds_entries (prune_old c) = filter (\<lambda>(k, _). k \<notin> set (prune_keys c)) (crds_entries c)"
    "length (crds_entries (prune_old c)) = min (length (crds_entries c)) (max_entries c * 9 div 10)"
    "total_pruned (prune_old c) + of_nat (length (crds_entries (prune_old c))) = total_pruned c + of_nat (length (crds_entries c))"
    "total_inserted (prune_old c) = total_inserted c" "max_entries (prune_old c) = max_entries c"
    "self_info (prune_old c) = self_info c" "crds_contacts (prune_old c) = crds_contacts c"
proof -
  note k = prune_keys_spec[OF assms]
  have p: "prune_old c = c\<lparr>crds_entries := filter (\<lambda>(i, _). i \<notin> set (prune_keys c)) (crds_entries c),
      total_pruned := total_pruned c + of_nat (length (prune_keys c))\<rparr>"
    unfolding prune_old_fold using prune_entries[OF k(1,2) assms] .
  show e: "crds_entries (prune_old c) = filter (\<lambda>(k, _). k \<notin> set (prune_keys c)) (crds_entries c)"
    "total_inserted (prune_old c) = total_inserted c" "max_entries (prune_old c) = max_entries c"
    "self_info (prune_old c) = self_info c" "crds_contacts (prune_old c) = crds_contacts c" by (simp_all add: p)
  have len: "length (crds_entries (prune_old c)) + length (prune_keys c) = length (crds_entries c)"
    unfolding e(1) by (rule filter_keys_length[OF assms k(1,2)])
  show "length (crds_entries (prune_old c)) = min (length (crds_entries c)) (max_entries c * 9 div 10)" using len k(3) by linarith
  have "(of_nat (length (prune_keys c)) + of_nat (length (crds_entries (prune_old c))) :: u64) = of_nat (length (crds_entries c))"
    using len by (metis add.commute of_nat_add)
  then show "total_pruned (prune_old c) + of_nat (length (crds_entries (prune_old c))) = total_pruned c + of_nat (length (crds_entries c))"
    by (simp add: p add.assoc)
qed

text \<open>What inserting a push does to the entries: nothing, or the new entry and perhaps fewer of the old ones.\<close>

abbreviation pushed_entry :: "u64 \<Rightarrow> gossip_message \<Rightarrow> push_data \<Rightarrow> crds_entry" where
  "pushed_entry now msg data \<equiv> \<lparr>ce_data = data, ce_inserted_at = now, ce_from = gm_from msg, propagation_count = 0\<rparr>"

lemma insert_push_spec:
  assumes inv: "crds_inv c" and c2_def: "c2 = snd (insert_push now msg c)"
  shows "crds_inv c2 \<and> max_entries c2 = max_entries c \<and> self_info c2 = self_info c \<and> crds_contacts c2 = crds_contacts c \<and>
    set (crds_entries c2) \<subseteq> set (crds_entries c) \<union> {(pd_id data, pushed_entry now msg data) | data. gm_payload msg = Push data}"
proof (cases "\<exists>data. gm_payload msg = Push data \<and> map_of (crds_entries c) (pd_id data) = None")
  case False
  then have "c2 = c" by (auto simp: c2_def insert_push_def split: gossip_payload.split)
  then show ?thesis using inv by simp
next
  case True
  then obtain data where d: "gm_payload msg = Push data" "map_of (crds_entries c) (pd_id data) = None" by blast
  define e where "e = pushed_entry now msg data"
  define c' where "c' = c\<lparr>crds_entries := crds_entries c @ [(pd_id data, e)], total_inserted := total_inserted c + 1\<rparr>"
  have fresh: "pd_id data \<notin> set (map fst (crds_entries c))" using d(2) by (simp add: map_of_eq_None_iff)
  then have upd: "AList.update (pd_id data) e (crds_entries c) = crds_entries c @ [(pd_id data, e)]" by (simp add: alist_update_nonmem)
  have dist: "distinct (map fst (crds_entries c'))" using inv fresh by (simp add: crds_inv_def c'_def)
  note p = prune_old_spec[OF dist]
  have r: "c2 = (if max_entries c < length (crds_entries c') then prune_old c' else c')"
    using d upd by (simp add: c2_def insert_push_def Let_def e_def c'_def)
  have ids: "\<forall>(i, e) \<in> set (crds_entries c'). pd_id (ce_data e) = i" using inv by (auto simp: crds_inv_def c'_def e_def)
  have cnt: "total_inserted c' = total_pruned c' + of_nat (length (crds_entries c'))" using inv by (simp add: crds_inv_def c'_def add.assoc)
  show ?thesis
  proof (cases "max_entries c < length (crds_entries c')")
    case True
    then have r: "c2 = prune_old c'" using r by simp
    have "length (crds_entries (prune_old c')) \<le> max_entries c'" unfolding p(2) by linarith
    then show ?thesis unfolding r crds_inv_def using p dist ids cnt d(1)
      by (auto simp: c'_def e_def distinct_map_filter)
  next
    case False
    then show ?thesis using r dist ids cnt d(1) by (auto simp: crds_inv_def c'_def e_def)
  qed
qed

end
