(* ===== verification/Gossip.thy ===== *)
theory Gossip
  imports Crds Machines
begin

text \<open>
  The gossip node (\<^verbatim>\<open>crates/gossip/src/protocol.rs\<close>). The unbounded channel is the list of what
  was sent, with a flag that says whether its receiver is alive. One reading of the clock, the
  random shuffle and the random nonce are arguments of the operations that use them.
\<close>

subsection \<open>State\<close>

record protocol_stats =
  messages_handled :: u64
  invalid_messages :: u64
  prunes_received :: u64
  pongs_received :: u64

record gossip_protocol =
  gp_crds :: crds
  gp_validator_id :: pubkey
  gp_signer :: hash32
  gp_sent :: "gossip_message list"
  gp_receiver_alive :: bool
  received_count :: "(message_type \<times> u64) list"
  pending_pings :: "(u64 \<times> pubkey) list"
  pruned :: "((pubkey \<times> string) \<times> u64) list"
  gp_stats :: protocol_stats

type_synonym shuffle = "contact_info list \<Rightarrow> contact_info list"

definition gossip_new :: "('z) gossip_ext_scheme \<Rightarrow> hash32 \<Rightarrow> crds \<Rightarrow> gossip_protocol" where
  "gossip_new cx signer c =
     \<lparr>gp_crds = c, gp_validator_id = verifying_key cx signer, gp_signer = signer, gp_sent = [], gp_receiver_alive = True,
      received_count = [], pending_pings = [], pruned = [],
      gp_stats = \<lparr>messages_handled = 0, invalid_messages = 0, prunes_received = 0, pongs_received = 0\<rparr>\<rparr>"

definition signed_message :: "('z) gossip_ext_scheme \<Rightarrow> u64 \<Rightarrow> message_type \<Rightarrow> gossip_payload \<Rightarrow> gossip_protocol \<Rightarrow> gossip_message" where
  "signed_message cx now message_type payload p =
     gm_sign cx (gp_signer p) (gossip_message_new now (gp_validator_id p) message_type payload)"

text \<open>Sending on the channel; the callers log or ignore the failure.\<close>

definition gossip_send :: "gossip_message \<Rightarrow> gossip_protocol \<Rightarrow> gossip_protocol" where
  "gossip_send msg p = (if gp_receiver_alive p then p\<lparr>gp_sent := gp_sent p @ [msg]\<rparr> else p)"

subsection \<open>Handlers\<close>

definition is_pruned :: "pubkey \<Rightarrow> string \<Rightarrow> gossip_protocol \<Rightarrow> bool" where
  "is_pruned peer kind p \<longleftrightarrow> map_of (pruned p) (peer, kind) \<noteq> None"

definition pruned_count :: "gossip_protocol \<Rightarrow> nat" where
  "pruned_count p = length (pruned p)"

fun forward_peers :: "('z) gossip_ext_scheme \<Rightarrow> u64 \<Rightarrow> gossip_message \<Rightarrow> string \<Rightarrow> contact_info list \<Rightarrow> gossip_protocol \<Rightarrow> gossip_protocol" where
  "forward_peers cx now msg kind [] p = p"
| "forward_peers cx now msg kind (peer # peers) p =
     (if ci_pubkey peer = gp_validator_id p \<or> ci_pubkey peer = gm_from msg then forward_peers cx now msg kind peers p
      else if is_pruned (ci_pubkey peer) kind p then forward_peers cx now msg kind peers p
      else forward_peers cx now msg kind peers (gossip_send (signed_message cx now MT_Push (gm_payload msg) p) p))"

definition forward_push :: "('z) gossip_ext_scheme \<Rightarrow> shuffle \<Rightarrow> u64 \<Rightarrow> gossip_message \<Rightarrow> gossip_protocol \<Rightarrow> gossip_protocol" where
  "forward_push cx shuffle now msg p =
     (case gm_payload msg of
        Push data \<Rightarrow> forward_peers cx now msg (pd_kind data) (random_contacts shuffle 3 (gp_crds p)) p
      | _ \<Rightarrow> p)"

definition handle_push :: "('z) gossip_ext_scheme \<Rightarrow> shuffle \<Rightarrow> u64 \<Rightarrow> gossip_message \<Rightarrow> gossip_protocol \<Rightarrow> gossip_protocol" where
  "handle_push cx shuffle now msg p =
     (case insert_push now msg (gp_crds p) of
        (inserted, c) \<Rightarrow>
          let p = p\<lparr>gp_crds := c\<rparr> in if inserted then forward_push cx shuffle now msg p else p)"

definition own_contact_info :: "gossip_protocol \<Rightarrow> contact_info" where
  "own_contact_info p =
     (case self_info (gp_crds p) of
        Some info \<Rightarrow> info
      | None \<Rightarrow>
          \<lparr>ci_pubkey = gp_validator_id p, ci_gossip = localhost 8000, ci_tpu = localhost 8001, ci_rpc = localhost 8002,
           ci_tvu = localhost 8003, ci_stake = 0, ci_version = ''0.1.0'', ci_wallclock = 0\<rparr>)"

definition pull_items :: "(string \<times> u64) list \<Rightarrow> crds \<Rightarrow> push_data list" where
  "pull_items fs c =
     concat (map (\<lambda>(kind, ts). map ce_data (filter (\<lambda>e. pd_kind (ce_data e) = kind) (entries_newer_than ts c))) fs)"

definition handle_pull_request :: "('z) gossip_ext_scheme \<Rightarrow> u64 \<Rightarrow> gossip_message \<Rightarrow> gossip_protocol \<Rightarrow> gossip_protocol" where
  "handle_pull_request cx now msg p =
     (case gm_payload msg of
        PullRequest request \<Rightarrow>
          gossip_send (signed_message cx now MT_PullResponse
            (PullResponse \<lparr>items = pull_items (filters request) (gp_crds p), resp_contact_info = own_contact_info p\<rparr>) p) p
      | _ \<Rightarrow> p)"

definition insert_item :: "u64 \<Rightarrow> pubkey \<Rightarrow> push_data \<Rightarrow> crds \<Rightarrow> crds" where
  "insert_item now sender item c = snd (insert_push now (gossip_message_new now sender MT_Push (Push item)) c)"

definition handle_pull_response :: "u64 \<Rightarrow> gossip_message \<Rightarrow> gossip_protocol \<Rightarrow> gossip_protocol" where
  "handle_pull_response now msg p =
     (case gm_payload msg of
        PullResponse response \<Rightarrow>
          p\<lparr>gp_crds := insert_contact (resp_contact_info response) (fold (insert_item now (gm_from msg)) (items response) (gp_crds p))\<rparr>
      | _ \<Rightarrow> p)"

definition handle_prune :: "u64 \<Rightarrow> gossip_message \<Rightarrow> gossip_protocol \<Rightarrow> gossip_protocol" where
  "handle_prune now msg p =
     (let p = (case gm_payload msg of
                 Prune prune \<Rightarrow> p\<lparr>pruned := fold (\<lambda>kind. AList.update (gm_from msg, kind) now) (kinds prune) (pruned p)\<rparr>
               | _ \<Rightarrow> p)
      in p\<lparr>gp_stats := (gp_stats p)\<lparr>prunes_received := prunes_received (gp_stats p) + 1\<rparr>\<rparr>)"

definition handle_ping :: "('z) gossip_ext_scheme \<Rightarrow> u64 \<Rightarrow> gossip_message \<Rightarrow> gossip_protocol \<Rightarrow> gossip_protocol" where
  "handle_ping cx now msg p =
     (case gm_payload msg of
        Ping nonce \<Rightarrow> gossip_send (signed_message cx now MT_Pong (Pong nonce) p) p
      | _ \<Rightarrow> p)"

definition handle_pong :: "gossip_message \<Rightarrow> gossip_protocol \<Rightarrow> gossip_protocol" where
  "handle_pong msg p =
     (case gm_payload msg of
        Pong nonce \<Rightarrow>
          p\<lparr>pending_pings := AList.delete nonce (pending_pings p),
            gp_stats := (gp_stats p)\<lparr>pongs_received := pongs_received (gp_stats p) + 1\<rparr>\<rparr>
      | _ \<Rightarrow> p)"

definition count_received :: "message_type \<Rightarrow> gossip_protocol \<Rightarrow> gossip_protocol" where
  "count_received t p =
     p\<lparr>received_count := AList.update t ((case map_of (received_count p) t of Some n \<Rightarrow> n | None \<Rightarrow> 0) + 1) (received_count p)\<rparr>"

definition handle_message :: "('z) gossip_ext_scheme \<Rightarrow> shuffle \<Rightarrow> u64 \<Rightarrow> gossip_message \<Rightarrow> gossip_protocol \<Rightarrow> gossip_protocol" where
  "handle_message cx shuffle now msg p =
     (if \<not> gm_verify_signature cx msg
      then p\<lparr>gp_stats := (gp_stats p)\<lparr>invalid_messages := invalid_messages (gp_stats p) + 1\<rparr>\<rparr>
      else
        let p = count_received (gm_type msg) p;
            p = (case gm_type msg of
                   MT_Push \<Rightarrow> handle_push cx shuffle now msg p
                 | MT_PullRequest \<Rightarrow> handle_pull_request cx now msg p
                 | MT_PullResponse \<Rightarrow> handle_pull_response now msg p
                 | MT_Prune \<Rightarrow> handle_prune now msg p
                 | MT_Ping \<Rightarrow> handle_ping cx now msg p
                 | MT_Pong \<Rightarrow> handle_pong msg p)
        in p\<lparr>gp_stats := (gp_stats p)\<lparr>messages_handled := messages_handled (gp_stats p) + 1\<rparr>\<rparr>)"

subsection \<open>Requests of the node itself\<close>

definition send_prune :: "('z) gossip_ext_scheme \<Rightarrow> u64 \<Rightarrow> contact_info \<Rightarrow> string list \<Rightarrow> gossip_protocol \<Rightarrow> gossip_protocol" where
  "send_prune cx now peer ks p =
     gossip_send (signed_message cx now MT_Prune (Prune \<lparr>kinds = ks, prune_from = gp_validator_id p\<rparr>) p) p"

definition send_ping :: "('z) gossip_ext_scheme \<Rightarrow> u64 \<Rightarrow> u64 \<Rightarrow> contact_info \<Rightarrow> gossip_protocol \<Rightarrow> gossip_protocol" where
  "send_ping cx now nonce peer p =
     (let p = p\<lparr>pending_pings := AList.update nonce (ci_pubkey peer) (pending_pings p)\<rparr>
      in gossip_send (signed_message cx now MT_Ping (Ping nonce) p) p)"

definition send_pull_request :: "('z) gossip_ext_scheme \<Rightarrow> u64 \<Rightarrow> contact_info \<Rightarrow> (string \<times> u64) list \<Rightarrow> gossip_protocol \<Rightarrow> gossip_protocol" where
  "send_pull_request cx now peer fs p =
     gossip_send (signed_message cx now MT_PullRequest
       (PullRequest \<lparr>filters = fs, req_contact_info = own_contact_info p\<rparr>) p) p"

subsection \<open>Runs\<close>

datatype gossip_op =
    Receive u64 shuffle gossip_message
  | Request_Ping u64 u64 contact_info
  | Request_Pull u64 contact_info "(string \<times> u64) list"
  | Request_Prune u64 contact_info "string list"
  | Add_Contact contact_info
  | Set_Self_Info contact_info

fun gossip_step :: "('z) gossip_ext_scheme \<Rightarrow> gossip_op \<Rightarrow> gossip_protocol \<Rightarrow> gossip_protocol" where
  "gossip_step cx (Receive now shuffle msg) p = handle_message cx shuffle now msg p"
| "gossip_step cx (Request_Ping now nonce peer) p = send_ping cx now nonce peer p"
| "gossip_step cx (Request_Pull now peer fs) p = send_pull_request cx now peer fs p"
| "gossip_step cx (Request_Prune now peer ks) p = send_prune cx now peer ks p"
| "gossip_step cx (Add_Contact c) p = p\<lparr>gp_crds := insert_contact c (gp_crds p)\<rparr>"
| "gossip_step cx (Set_Self_Info c) p = p\<lparr>gp_crds := set_self_info c (gp_crds p)\<rparr>"

definition gossip_run :: "('z) gossip_ext_scheme \<Rightarrow> hash32 \<Rightarrow> nat \<Rightarrow> gossip_op list \<Rightarrow> gossip_protocol" where
  "gossip_run cx signer n ops = fold (gossip_step cx) ops (gossip_new cx signer (crds_new n))"

subsection \<open>Frames\<close>

lemma count_received_sel [simp]:
  "gp_crds (count_received t p) = gp_crds p" "gp_signer (count_received t p) = gp_signer p" "gp_sent (count_received t p) = gp_sent p"
  "gp_receiver_alive (count_received t p) = gp_receiver_alive p" "gp_validator_id (count_received t p) = gp_validator_id p"
  by (simp_all add: count_received_def)

lemma gossip_send_sel [simp]:
  "gp_crds (gossip_send m p) = gp_crds p" "gp_validator_id (gossip_send m p) = gp_validator_id p"
  "gp_signer (gossip_send m p) = gp_signer p" "pruned (gossip_send m p) = pruned p"
  "gp_receiver_alive (gossip_send m p) = gp_receiver_alive p" "gp_stats (gossip_send m p) = gp_stats p"
  "set (gp_sent (gossip_send m p)) \<subseteq> insert m (set (gp_sent p))"
  by (auto simp: gossip_send_def)

lemma forward_peers_sel [simp]:
  "gp_crds (forward_peers cx now msg kind peers p) = gp_crds p"
  "gp_validator_id (forward_peers cx now msg kind peers p) = gp_validator_id p"
  "gp_signer (forward_peers cx now msg kind peers p) = gp_signer p" "pruned (forward_peers cx now msg kind peers p) = pruned p"
  by (induction cx now msg kind peers p rule: forward_peers.induct) auto

text \<open>Messages of the node itself: signed with its key.\<close>

definition own_message :: "('z) gossip_ext_scheme \<Rightarrow> hash32 \<Rightarrow> gossip_message \<Rightarrow> bool" where
  "own_message cx key m \<longleftrightarrow> gm_from m = verifying_key cx key \<and> gm_verify_signature cx m"

lemma own_signed_message: "ed25519_correct cx \<Longrightarrow> own_message cx (gp_signer p) (signed_message cx now t pl p)"
  by (simp add: own_message_def signed_message_def gm_sign_verifies)

lemma gossip_send_own:
  "own_message cx (gp_signer p) m \<Longrightarrow> list_all (own_message cx (gp_signer p)) (gp_sent p) \<Longrightarrow>
   list_all (own_message cx (gp_signer p)) (gp_sent (gossip_send m p))"
  by (simp add: gossip_send_def)

lemma forward_peers_own:
  "ed25519_correct cx \<Longrightarrow> list_all (own_message cx (gp_signer p)) (gp_sent p) \<Longrightarrow>
   list_all (own_message cx (gp_signer p)) (gp_sent (forward_peers cx now msg kind peers p))"
  by (induction cx now msg kind peers p rule: forward_peers.induct) (auto simp: gossip_send_own own_signed_message)

subsection \<open>Provenance\<close>

text \<open>The data a message delivers to the store, and the kinds it prunes.\<close>

definition delivered :: "gossip_message \<Rightarrow> push_data list" where
  "delivered m =
     (case (gm_type m, gm_payload m) of
        (MT_Push, Push data) \<Rightarrow> [data]
      | (MT_PullResponse, PullResponse response) \<Rightarrow> items response
      | _ \<Rightarrow> [])"

definition pruned_kinds :: "gossip_message \<Rightarrow> string list" where
  "pruned_kinds m = (case (gm_type m, gm_payload m) of (MT_Prune, Prune prune) \<Rightarrow> kinds prune | _ \<Rightarrow> [])"

text \<open>The authentic messages received.\<close>

definition received :: "('z) gossip_ext_scheme \<Rightarrow> gossip_op list \<Rightarrow> (u64 \<times> gossip_message) list" where
  "received cx ops =
     concat (map (\<lambda>op. case op of Receive now _ m \<Rightarrow> if gm_verify_signature cx m then [(now, m)] else [] | _ \<Rightarrow> []) ops)"

definition entry_from :: "(u64 \<times> gossip_message) list \<Rightarrow> crds_entry \<Rightarrow> bool" where
  "entry_from ms e \<longleftrightarrow> list_ex (\<lambda>(now, m). gm_from m = ce_from e \<and> ce_data e \<in> set (delivered m) \<and> ce_inserted_at e = now) ms"

definition prune_requested :: "(u64 \<times> gossip_message) list \<Rightarrow> (pubkey \<times> string) \<times> u64 \<Rightarrow> bool" where
  "prune_requested ms q \<longleftrightarrow>
     list_ex (\<lambda>(now, m). gm_from m = fst (fst q) \<and> snd (fst q) \<in> set (pruned_kinds m) \<and> snd q = now) ms"

definition gossip_inv :: "('z) gossip_ext_scheme \<Rightarrow> hash32 \<Rightarrow> nat \<Rightarrow> gossip_op list \<Rightarrow> gossip_protocol \<Rightarrow> bool" where
  "gossip_inv cx key n ops p \<longleftrightarrow>
     gp_signer p = key \<and> gp_validator_id p = verifying_key cx key \<and> crds_inv (gp_crds p) \<and> max_entries (gp_crds p) = n \<and>
     list_all (own_message cx key) (gp_sent p) \<and>
     (\<forall>(i, e) \<in> set (crds_entries (gp_crds p)). entry_from (received cx ops) e) \<and>
     (\<forall>q \<in> set (pruned p). prune_requested (received cx ops) q)"

lemma received_append [simp]: "received cx (xs @ ys) = received cx xs @ received cx ys"
  by (simp add: received_def)

lemma entry_from_append: "entry_from ms e \<Longrightarrow> entry_from (ms @ ns) e"
  by (simp add: entry_from_def)

lemma prune_requested_append: "prune_requested ms q \<Longrightarrow> prune_requested (ms @ ns) q"
  by (simp add: prune_requested_def)

lemma insert_items_spec:
  assumes "crds_inv c"
  shows "crds_inv (fold (insert_item now sender) ds c) \<and> max_entries (fold (insert_item now sender) ds c) = max_entries c \<and>
    (\<forall>(i, e) \<in> set (crds_entries (fold (insert_item now sender) ds c)).
       (i, e) \<in> set (crds_entries c) \<or> ce_data e \<in> set ds \<and> ce_from e = sender \<and> ce_inserted_at e = now)"
  using assms
proof (induction ds arbitrary: c)
  case (Cons d ds)
  let ?c = "insert_item now sender d c"
  have s: "crds_inv ?c \<and> max_entries ?c = max_entries c \<and> set (crds_entries ?c) \<subseteq> set (crds_entries c) \<union>
      {(pd_id d, pushed_entry now (gossip_message_new now sender MT_Push (Push d)) d)}"
    using insert_push_spec[OF Cons.prems insert_item_def[of now sender d c]] by (auto simp: gossip_message_new_def)
  then have "crds_inv ?c" by blast
  from Cons.IH[OF this] s show ?case by (fastforce simp: gossip_message_new_def)
qed auto

lemma gossip_inv_more: "gossip_inv cx key n ops p \<Longrightarrow> gossip_inv cx key n (ops @ ops') p"
  by (auto simp: gossip_inv_def intro: entry_from_append prune_requested_append)

lemma gossip_inv_frame [simp]:
  "gossip_inv cx key n ops (p\<lparr>gp_stats := st\<rparr>) \<longleftrightarrow> gossip_inv cx key n ops p"
  "gossip_inv cx key n ops (p\<lparr>pending_pings := pp\<rparr>) \<longleftrightarrow> gossip_inv cx key n ops p"
  "gossip_inv cx key n ops (p\<lparr>received_count := rc\<rparr>) \<longleftrightarrow> gossip_inv cx key n ops p"
  "gossip_inv cx key n ops (count_received t p) \<longleftrightarrow> gossip_inv cx key n ops p"
  by (simp_all add: gossip_inv_def count_received_def)

lemma gossip_inv_contact [simp]:
  "gossip_inv cx key n ops (p\<lparr>gp_crds := insert_contact c (gp_crds p)\<rparr>) \<longleftrightarrow> gossip_inv cx key n ops p"
  "gossip_inv cx key n ops (p\<lparr>gp_crds := set_self_info c (gp_crds p)\<rparr>) \<longleftrightarrow> gossip_inv cx key n ops p"
  by (simp_all add: gossip_inv_def crds_inv_def insert_contact_def set_self_info_def)

lemma gossip_inv_send:
  assumes "ed25519_correct cx" "gossip_inv cx key n ops p"
  shows "gossip_inv cx key n ops (gossip_send (signed_message cx now t pl p) p)"
  using assms gossip_send_own[OF own_signed_message[OF assms(1)], of p] by (simp add: gossip_inv_def)

lemma gossip_inv_store:
  assumes inv: "gossip_inv cx key n ops p" and m: "(now, msg) \<in> set (received cx ops)"
    and c: "crds_inv c" "max_entries c = n"
    and e: "\<And>i e. (i, e) \<in> set (crds_entries c) \<Longrightarrow>
      (i, e) \<in> set (crds_entries (gp_crds p)) \<or> ce_data e \<in> set (delivered msg) \<and> ce_from e = gm_from msg \<and> ce_inserted_at e = now"
  shows "gossip_inv cx key n ops (p\<lparr>gp_crds := c\<rparr>)"
proof -
  have "entry_from (received cx ops) e" if "(i, e) \<in> set (crds_entries c)" for i e
    using e[OF that] inv m by (force simp: gossip_inv_def entry_from_def list_ex_iff)
  then show ?thesis using inv c by (auto simp: gossip_inv_def)
qed

lemma handle_push_inv:
  assumes ed: "ed25519_correct cx" and inv: "gossip_inv cx key n ops p" and m: "(now, msg) \<in> set (received cx ops)" "gm_type msg = MT_Push"
  shows "gossip_inv cx key n ops (handle_push cx shuffle now msg p)"
proof -
  let ?c = "snd (insert_push now msg (gp_crds p))"
  have ci: "crds_inv (gp_crds p)" "max_entries (gp_crds p) = n" using inv by (simp_all add: gossip_inv_def)
  note s = insert_push_spec[OF ci(1) refl[of ?c]]
  have q: "gossip_inv cx key n ops (p\<lparr>gp_crds := ?c\<rparr>)"
    using s m(2) ci(2) by (intro gossip_inv_store[OF inv m(1)]) (auto simp: delivered_def)
  have "gossip_inv cx key n ops (forward_push cx shuffle now msg (p\<lparr>gp_crds := ?c\<rparr>))"
    using q forward_peers_own[OF ed, of "p\<lparr>gp_crds := ?c\<rparr>"] inv
    by (auto simp: forward_push_def gossip_inv_def split: gossip_payload.split)
  then show ?thesis using q by (cases "insert_push now msg (gp_crds p)") (auto simp: handle_push_def Let_def)
qed

lemma handle_pull_response_inv:
  assumes inv: "gossip_inv cx key n ops p" and m: "(now, msg) \<in> set (received cx ops)" "gm_type msg = MT_PullResponse"
  shows "gossip_inv cx key n ops (handle_pull_response now msg p)"
proof (cases "gm_payload msg")
  case (PullResponse r)
  let ?c = "fold (insert_item now (gm_from msg)) (items r) (gp_crds p)"
  have ci: "crds_inv (gp_crds p)" "max_entries (gp_crds p) = n" using inv by (simp_all add: gossip_inv_def)
  have "gossip_inv cx key n ops (p\<lparr>gp_crds := ?c\<rparr>)"
    using insert_items_spec[OF ci(1), of now "gm_from msg" "items r"] ci(2) m(2) PullResponse
    by (intro gossip_inv_store[OF inv m(1)]) (auto simp: delivered_def)
  then have "gossip_inv cx key n ops (p\<lparr>gp_crds := ?c\<rparr>\<lparr>gp_crds := insert_contact (resp_contact_info r) (gp_crds (p\<lparr>gp_crds := ?c\<rparr>))\<rparr>)"
    by (simp only: gossip_inv_contact)
  then show ?thesis using PullResponse by (simp add: handle_pull_response_def)
qed (use inv in \<open>simp_all add: handle_pull_response_def\<close>)

lemma set_alist_updates: "set (fold (\<lambda>k. AList.update (f k) v) ks al) \<subseteq> (\<lambda>k. (f k, v)) ` set ks \<union> set al"
proof (induction ks arbitrary: al)
  case (Cons k ks)
  have "set (AList.update (f k) v al) \<subseteq> insert (f k, v) (set al)" by (induction al) auto
  then show ?case using Cons[of "AList.update (f k) v al"] by auto
qed simp

lemma handle_prune_inv:
  assumes inv: "gossip_inv cx key n ops p" and m: "(now, msg) \<in> set (received cx ops)" "gm_type msg = MT_Prune"
  shows "gossip_inv cx key n ops (handle_prune now msg p)"
proof (cases "gm_payload msg")
  case (Prune d)
  have "prune_requested (received cx ops) q" if "q \<in> set (fold (\<lambda>kind. AList.update (gm_from msg, kind) now) (kinds d) (pruned p))" for q
    using subsetD[OF set_alist_updates that] inv m Prune
    by (force simp: gossip_inv_def prune_requested_def list_ex_iff pruned_kinds_def)
  then have "gossip_inv cx key n ops (p\<lparr>pruned := fold (\<lambda>kind. AList.update (gm_from msg, kind) now) (kinds d) (pruned p)\<rparr>)"
    using inv by (auto simp: gossip_inv_def)
  then show ?thesis using Prune by (simp add: handle_prune_def)
qed (use inv in \<open>simp_all add: handle_prune_def\<close>)

lemma handle_message_inv:
  assumes ed: "ed25519_correct cx" and inv: "gossip_inv cx key n ops p"
  shows "gossip_inv cx key n (ops @ [Receive now shuffle msg]) (handle_message cx shuffle now msg p)"
proof (cases "gm_verify_signature cx msg")
  case True
  let ?ops = "ops @ [Receive now shuffle msg]" and ?p = "count_received (gm_type msg) p"
  have m: "(now, msg) \<in> set (received cx ?ops)" using True by (simp add: received_def)
  have i: "gossip_inv cx key n ?ops ?p" using gossip_inv_more[OF inv] by simp
  show ?thesis
  proof (cases "gm_type msg")
    case MT_Push
    then show ?thesis using handle_push_inv[OF ed i m] True by (simp add: handle_message_def Let_def)
  next
    case MT_PullRequest
    have "gossip_inv cx key n ?ops (handle_pull_request cx now msg ?p)"
      using gossip_inv_send[OF ed i] i by (simp add: handle_pull_request_def split: gossip_payload.split)
    then show ?thesis using MT_PullRequest True by (simp add: handle_message_def Let_def)
  next
    case MT_PullResponse
    then show ?thesis using handle_pull_response_inv[OF i m] True by (simp add: handle_message_def Let_def)
  next
    case MT_Prune
    then show ?thesis using handle_prune_inv[OF i m] True by (simp add: handle_message_def Let_def)
  next
    case MT_Ping
    have "gossip_inv cx key n ?ops (handle_ping cx now msg ?p)"
      using gossip_inv_send[OF ed i] i by (simp add: handle_ping_def split: gossip_payload.split)
    then show ?thesis using MT_Ping True by (simp add: handle_message_def Let_def)
  next
    case MT_Pong
    have "gossip_inv cx key n ?ops (handle_pong msg ?p)"
      using i by (simp add: handle_pong_def gossip_inv_def split: gossip_payload.split)
    then show ?thesis using MT_Pong True by (simp add: handle_message_def Let_def)
  qed
qed (use gossip_inv_more[OF inv] in \<open>simp add: handle_message_def\<close>)

lemma gossip_step_inv:
  assumes "ed25519_correct cx" "gossip_inv cx key n ops p"
  shows "gossip_inv cx key n (ops @ [op]) (gossip_step cx op p)"
proof -
  note i = gossip_inv_more[OF assms(2), of "[op]"]
  show ?thesis
  proof (cases op)
    case (Receive now sh m)
    then show ?thesis using handle_message_inv[OF assms] by simp
  next
    case (Request_Ping now nonce peer)
    have "gossip_inv cx key n (ops @ [op]) (p\<lparr>pending_pings := AList.update nonce (ci_pubkey peer) (pending_pings p)\<rparr>)" using i by simp
    then show ?thesis using Request_Ping gossip_inv_send[OF assms(1)] by (simp add: send_ping_def Let_def)
  qed (use i gossip_inv_send[OF assms(1) i] in \<open>simp_all add: send_pull_request_def send_prune_def\<close>)
qed

text \<open>
  The node as a machine: its invariant relates the store, the prune table and the outgoing
  messages to the messages received so far. Where signatures were not correct nothing would be
  claimed of the outgoing messages, so the invariant is conditional on that.
\<close>

interpretation gossip_node: traced_machine "gossip_step cx" "\<lambda>ops p. ed25519_correct cx \<longrightarrow> gossip_inv cx key n ops p" for cx key n
  by unfold_locales (simp add: gossip_step_inv)

lemma gossip_run_inv: "ed25519_correct cx \<Longrightarrow> gossip_inv cx key n ops (gossip_run cx key n ops)"
  using gossip_node.inv_run[of cx key n "gossip_new cx key (crds_new n)" ops]
  by (simp add: gossip_run_def gossip_inv_def gossip_new_def crds_new_def crds_inv_def)

subsection \<open>Properties\<close>

lemma receivedD:
  assumes "(now, m) \<in> set (received cx ops)"
  shows "\<exists>shuffle. Receive now shuffle m \<in> set ops" "gm_verify_signature cx m"
proof -
  obtain op where "op \<in> set ops" "(now, m) \<in> set (case op of Receive now _ m \<Rightarrow> if gm_verify_signature cx m then [(now, m)] else [] | _ \<Rightarrow> [])"
    using assms by (auto simp: received_def)
  then show "\<exists>shuffle. Receive now shuffle m \<in> set ops" "gm_verify_signature cx m"
    by (auto split: gossip_op.splits if_splits)
qed

text \<open>
  C12 Through any sequence of received messages and local requests, the data store keeps to its
  capacity; every stored item is filed under its own id and was delivered by a correctly signed
  message of the peer recorded as its sender; a peer is pruned for a kind only if that peer
  signed a request for it; everything the node sends is correctly signed under its own identity;
  and a message with an invalid signature changes nothing but the count of invalid messages.
\<close>

theorem gossip_provenance:
  assumes ed: "ed25519_correct cx" and p: "p = gossip_run cx key n ops"
  shows "crds_len (gp_crds p) \<le> n \<and>
    (crds_get i (gp_crds p) = Some e \<longrightarrow> pd_id (ce_data e) = i \<and>
      (\<exists>now shuffle m. Receive now shuffle m \<in> set ops \<and> gm_verify_signature cx m \<and> gm_from m = ce_from e \<and> ce_data e \<in> set (delivered m))) \<and>
    (is_pruned peer kind p \<longrightarrow>
      (\<exists>now shuffle m. Receive now shuffle m \<in> set ops \<and> gm_verify_signature cx m \<and> gm_from m = peer \<and> kind \<in> set (pruned_kinds m))) \<and>
    (m \<in> set (gp_sent p) \<longrightarrow> gm_from m = verifying_key cx key \<and> gm_verify_signature cx m) \<and>
    (\<not> gm_verify_signature cx m \<longrightarrow>
      gossip_step cx (Receive now shuffle m) p = p\<lparr>gp_stats := (gp_stats p)\<lparr>invalid_messages := invalid_messages (gp_stats p) + 1\<rparr>\<rparr>)"
proof -
  have inv: "gossip_inv cx key n ops p" unfolding p by (rule gossip_run_inv[OF ed])
  have c1: "crds_len (gp_crds p) \<le> n" using inv by (simp add: gossip_inv_def crds_inv_def crds_len_def)
  have c2: "pd_id (ce_data e) = i \<and>
      (\<exists>now shuffle m. Receive now shuffle m \<in> set ops \<and> gm_verify_signature cx m \<and> gm_from m = ce_from e \<and> ce_data e \<in> set (delivered m))"
    if "crds_get i (gp_crds p) = Some e"
  proof -
    have "(i, e) \<in> set (crds_entries (gp_crds p))" using that by (simp add: crds_get_def map_of_SomeD)
    then have "pd_id (ce_data e) = i" "entry_from (received cx ops) e" using inv by (auto simp: gossip_inv_def crds_inv_def)
    then obtain now m where "(now, m) \<in> set (received cx ops)" "gm_from m = ce_from e" "ce_data e \<in> set (delivered m)"
      by (auto simp: entry_from_def list_ex_iff)
    then show ?thesis using receivedD[of now m cx ops] \<open>pd_id (ce_data e) = i\<close> by blast
  qed
  have c3: "\<exists>now shuffle m. Receive now shuffle m \<in> set ops \<and> gm_verify_signature cx m \<and> gm_from m = peer \<and> kind \<in> set (pruned_kinds m)"
    if "is_pruned peer kind p"
  proof -
    obtain t where "((peer, kind), t) \<in> set (pruned p)" using \<open>is_pruned peer kind p\<close> by (auto simp: is_pruned_def dest: map_of_SomeD)
    then have "prune_requested (received cx ops) ((peer, kind), t)" using inv by (auto simp: gossip_inv_def)
    then obtain now m where "(now, m) \<in> set (received cx ops)" "gm_from m = peer" "kind \<in> set (pruned_kinds m)"
      by (auto simp: prune_requested_def list_ex_iff)
    then show ?thesis using receivedD[of now m cx ops] by blast
  qed
  have c4: "gm_from m = verifying_key cx key \<and> gm_verify_signature cx m" if "m \<in> set (gp_sent p)"
    using inv that by (simp add: gossip_inv_def own_message_def list_all_iff)
  have c5: "\<not> gm_verify_signature cx m \<Longrightarrow>
      gossip_step cx (Receive now shuffle m) p = p\<lparr>gp_stats := (gp_stats p)\<lparr>invalid_messages := invalid_messages (gp_stats p) + 1\<rparr>\<rparr>"
    by (simp add: handle_message_def)
  show ?thesis using c1 c2 c3 c4 c5 by blast
qed

subsection \<open>Anti-entropy\<close>

lemma insert_item_room:
  assumes "crds_inv c" "length (crds_entries c) < max_entries c"
  shows "crds_inv (insert_item now sender d c) \<and> max_entries (insert_item now sender d c) = max_entries c \<and>
    length (crds_entries (insert_item now sender d c)) \<le> Suc (length (crds_entries c)) \<and>
    crds_get (pd_id d) (insert_item now sender d c) \<noteq> None \<and>
    (\<forall>i e. crds_get i c = Some e \<longrightarrow> crds_get i (insert_item now sender d c) = Some e)"
proof -
  let ?m = "gossip_message_new now sender MT_Push (Push d)"
  have inv: "crds_inv (insert_item now sender d c)" "max_entries (insert_item now sender d c) = max_entries c"
    using insert_push_spec[OF assms(1) insert_item_def[of now sender d c]] by blast+
  show ?thesis
  proof (cases "map_of (crds_entries c) (pd_id d)")
    case None
    then have "insert_item now sender d c = c\<lparr>crds_entries := crds_entries c @ [(pd_id d, pushed_entry now ?m d)], total_inserted := total_inserted c + 1\<rparr>"
      using assms(2) by (simp add: insert_item_def insert_push_def gossip_message_new_def Let_def alist_update_nonmem map_of_eq_None_iff)
    then show ?thesis using inv None by (auto simp: crds_get_def map_add_Some_iff)
  next
    case (Some e)
    then have "insert_item now sender d c = c" by (simp add: insert_item_def insert_push_def gossip_message_new_def)
    then show ?thesis using inv Some by (simp add: crds_get_def)
  qed
qed

lemma insert_items_room:
  assumes "crds_inv c" "length (crds_entries c) + length ds \<le> max_entries c"
  shows "(\<forall>d \<in> set ds. crds_get (pd_id d) (fold (insert_item now sender) ds c) \<noteq> None) \<and>
    (\<forall>i e. crds_get i c = Some e \<longrightarrow> crds_get i (fold (insert_item now sender) ds c) = Some e)"
  using assms
proof (induction ds arbitrary: c)
  case (Cons d ds)
  have s: "crds_inv (insert_item now sender d c) \<and> max_entries (insert_item now sender d c) = max_entries c \<and>
    length (crds_entries (insert_item now sender d c)) \<le> Suc (length (crds_entries c)) \<and>
    crds_get (pd_id d) (insert_item now sender d c) \<noteq> None \<and>
    (\<forall>i e. crds_get i c = Some e \<longrightarrow> crds_get i (insert_item now sender d c) = Some e)"
    using insert_item_room[OF Cons.prems(1)] Cons.prems(2) by simp
  then have "crds_inv (insert_item now sender d c)"
    "length (crds_entries (insert_item now sender d c)) + length ds \<le> max_entries (insert_item now sender d c)"
    using Cons.prems(2) by simp_all
  from Cons.IH[OF this] s show ?case by force
qed simp

lemma in_alist_update: "(k, v) \<in> set (AList.update k v al)"
  by (induction al) auto

text \<open>One round: a node asks, its peer answers, the node takes the answer in.\<close>

definition pull_round ::
    "('z) gossip_ext_scheme \<Rightarrow> u64 \<Rightarrow> shuffle \<Rightarrow> contact_info \<Rightarrow> (string \<times> u64) list \<Rightarrow> gossip_protocol \<Rightarrow> gossip_protocol \<Rightarrow> gossip_protocol \<times> gossip_protocol" where
  "pull_round cx now shuffle peer fs a b =
     (let a = send_pull_request cx now peer fs a;
          b = handle_message cx shuffle now (last (gp_sent a)) b;
          a = handle_message cx shuffle now (last (gp_sent b)) a
      in (a, b))"

lemma signed_message_sel [simp]:
  "gm_from (signed_message cx now t pl p) = verifying_key cx (gp_signer p)" "gm_type (signed_message cx now t pl p) = t"
  "gm_payload (signed_message cx now t pl p) = pl"
  by (simp_all add: signed_message_def gossip_message_new_def)

lemma signed_message_verifies: "ed25519_correct cx \<Longrightarrow> gm_verify_signature cx (signed_message cx now t pl p)"
  using own_signed_message own_message_def by blast

lemma pull_round_store:
  assumes ed: "ed25519_correct cx" and alive: "gp_receiver_alive a" "gp_receiver_alive b"
  shows "gp_crds (fst (pull_round cx now shuffle peer fs a b)) =
    insert_contact (own_contact_info b)
      (fold (insert_item now (verifying_key cx (gp_signer b))) (pull_items fs (gp_crds b)) (gp_crds a))"
proof -
  let ?req = "signed_message cx now MT_PullRequest (PullRequest \<lparr>filters = fs, req_contact_info = own_contact_info a\<rparr>) a"
  let ?b = "count_received MT_PullRequest b"
  let ?resp = "signed_message cx now MT_PullResponse (PullResponse \<lparr>items = pull_items fs (gp_crds b), resp_contact_info = own_contact_info b\<rparr>) ?b"
  have own: "own_contact_info ?b = own_contact_info b" "gp_crds ?b = gp_crds b" "gp_receiver_alive ?b" "gp_signer ?b = gp_signer b"
    using alive(2) by (simp_all add: own_contact_info_def split: option.split)
  have a1: "send_pull_request cx now peer fs a = a\<lparr>gp_sent := gp_sent a @ [?req]\<rparr>"
    using alive(1) by (simp add: send_pull_request_def gossip_send_def)
  have "gp_sent (handle_message cx shuffle now ?req b) = gp_sent ?b @ [?resp]"
    using own signed_message_verifies[OF ed] by (simp add: handle_message_def Let_def handle_pull_request_def gossip_send_def)
  then have b1: "last (gp_sent (handle_message cx shuffle now ?req b)) = ?resp" by simp
  have last1: "last (gp_sent (a\<lparr>gp_sent := gp_sent a @ [?req]\<rparr>)) = ?req" by simp
  have round: "fst (pull_round cx now shuffle peer fs a b) = handle_message cx shuffle now ?resp (a\<lparr>gp_sent := gp_sent a @ [?req]\<rparr>)"
    unfolding pull_round_def Let_def a1 last1 b1 by (rule fst_conv)
  have v: "gm_verify_signature cx ?resp" by (rule signed_message_verifies[OF ed])
  show ?thesis unfolding round handle_message_def Let_def
    by (simp add: v handle_pull_response_def)
qed

text \<open>
  C36 One pull round brings a node level with its peer: after it, the node holds an item under the
  id of every item of the peer that is of a requested kind and newer than the requested time,
  still holds everything it held before, and knows the peer's contact information, as long as
  its store has room for the answer.
\<close>

theorem pull_round_synchronises:
  assumes "ed25519_correct cx" "gp_receiver_alive a" "gp_receiver_alive b" "crds_inv (gp_crds a)"
    and room: "crds_len (gp_crds a) + length (pull_items fs (gp_crds b)) \<le> max_entries (gp_crds a)"
    and a2: "a2 = fst (pull_round cx now shuffle peer fs a b)"
  shows "((kind, ts) \<in> set fs \<longrightarrow> crds_get i (gp_crds b) = Some e \<longrightarrow> pd_kind (ce_data e) = kind \<longrightarrow> ts < ce_inserted_at e \<longrightarrow>
      crds_get (pd_id (ce_data e)) (gp_crds a2) \<noteq> None) \<and>
    (crds_get i (gp_crds a) = Some e \<longrightarrow> crds_get i (gp_crds a2) = Some e) \<and>
    own_contact_info b \<in> set (contacts (gp_crds a2))"
proof -
  have g: "crds_get i (insert_contact ci c) = crds_get i c" for i ci c by (simp add: crds_get_def insert_contact_def)
  note c = pull_round_store[OF assms(1-3), of now shuffle peer fs, folded a2]
  note r = insert_items_room[OF assms(4) room[unfolded crds_len_def], of now "verifying_key cx (gp_signer b)"]
  have c1: "crds_get (pd_id (ce_data e)) (gp_crds a2) \<noteq> None"
    if "(kind, ts) \<in> set fs" "crds_get i (gp_crds b) = Some e" "pd_kind (ce_data e) = kind" "ts < ce_inserted_at e"
  proof -
    have "e \<in> set (map snd (crds_entries (gp_crds b)))" using map_of_SomeD[OF that(2)[unfolded crds_get_def]] by force
    then have "e \<in> set (filter (\<lambda>e. pd_kind (ce_data e) = kind) (entries_newer_than ts (gp_crds b)))"
      using that(3,4) by (simp add: entries_newer_than_def)
    then have "ce_data e \<in> set (pull_items fs (gp_crds b))"
      unfolding pull_items_def set_concat set_map using that(1) by (intro UN_I[OF imageI]) auto
    then show ?thesis using r by (simp add: c g)
  qed
  have c2: "crds_get i (gp_crds a2) = Some e" if "crds_get i (gp_crds a) = Some e" using r that by (simp add: c g)
  have c3: "own_contact_info b \<in> set (contacts (gp_crds a2))"
    using in_alist_update[of "ci_pubkey (own_contact_info b)" "own_contact_info b"] unfolding c
    unfolding contacts_def insert_contact_def by (simp add: image_iff) (metis snd_conv)
  show ?thesis using c1 c2 c3 by blast
qed

subsection \<open>Instances\<close>

definition demo_gossip :: gossip_ext where
  "demo_gossip = crypto.extend demo_crypto (gossip_ext.fields (\<lambda>_. []))"

definition demo_push :: push_data where
  "demo_push = \<lparr>pd_id = 7, pd_content = [1], pd_kind = ''vote''\<rparr>"

definition demo_peer_message :: "message_type \<Rightarrow> gossip_payload \<Rightarrow> gossip_message" where
  "demo_peer_message t pl = gm_sign demo_gossip 9 (gossip_message_new 4 0 t pl)"

definition demo_gossip_ops :: "gossip_op list" where
  "demo_gossip_ops = [Receive 5 (\<lambda>cs. cs) (demo_peer_message MT_Push (Push demo_push)),
     Receive 6 (\<lambda>cs. cs) (demo_peer_message MT_Prune (Prune \<lparr>kinds = [''vote''], prune_from = 9\<rparr>))]"

lemma demo_gossip_correct: "ed25519_correct demo_gossip"
  using demo_crypto_correct by (simp add: ed25519_correct_def signature_ok_def demo_gossip_def crypto.defs gossip_ext.defs demo_crypto_def)

lemma demo_peer_message_sel [simp]:
  "gm_verify_signature demo_gossip (demo_peer_message t pl)" "gm_type (demo_peer_message t pl) = t" "gm_payload (demo_peer_message t pl) = pl"
  "gm_from (demo_peer_message t pl) = 9"
  by (simp_all add: demo_peer_message_def gm_sign_verifies demo_gossip_correct gossip_message_new_def)
    (simp add: demo_gossip_def crypto.defs gossip_ext.defs demo_crypto_def)

lemmas gossip_eval = gossip_run_def gossip_new_def crds_new_def demo_gossip_ops_def handle_message_def Let_def count_received_def
  handle_push_def insert_push_def forward_push_def random_contacts_def contacts_def handle_prune_def demo_push_def

lemma demo_gossip_state:
  "crds_entries (gp_crds (gossip_run demo_gossip 1 3 demo_gossip_ops)) =
     [(7, \<lparr>ce_data = demo_push, ce_inserted_at = 5, ce_from = 9, propagation_count = 0\<rparr>)]"
  "pruned (gossip_run demo_gossip 1 3 demo_gossip_ops) = [((9, ''vote''), 6)]"
  by (simp_all add: gossip_eval)

theorem gossip_provenance_witness:
  "crds_len (gp_crds (gossip_run demo_gossip 1 3 demo_gossip_ops)) \<le> 3 \<and>
   (\<exists>now shuffle m. Receive now shuffle m \<in> set demo_gossip_ops \<and> gm_verify_signature demo_gossip m \<and> gm_from m = 9 \<and> demo_push \<in> set (delivered m)) \<and>
   (\<exists>now shuffle m. Receive now shuffle m \<in> set demo_gossip_ops \<and> gm_verify_signature demo_gossip m \<and> gm_from m = 9 \<and> ''vote'' \<in> set (pruned_kinds m))"
proof -
  have get: "crds_get 7 (gp_crds (gossip_run demo_gossip 1 3 demo_gossip_ops)) =
      Some \<lparr>ce_data = demo_push, ce_inserted_at = 5, ce_from = 9, propagation_count = 0\<rparr>"
    unfolding crds_get_def demo_gossip_state by simp
  have "is_pruned 9 ''vote'' (gossip_run demo_gossip 1 3 demo_gossip_ops)" unfolding is_pruned_def demo_gossip_state by simp
  with get gossip_provenance[OF demo_gossip_correct refl, where key = 1 and n = 3 and ops = demo_gossip_ops and i = 7 and peer = 9
      and e = "\<lparr>ce_data = demo_push, ce_inserted_at = 5, ce_from = 9, propagation_count = 0\<rparr>" and kind = "''vote''"]
  show ?thesis by simp
qed

definition demo_node :: gossip_protocol where
  "demo_node = gossip_new demo_gossip 1 (crds_new 10)"

definition demo_peer :: gossip_protocol where
  "demo_peer = gossip_new demo_gossip 2 ((crds_new 10)\<lparr>crds_entries :=
     [(7, \<lparr>ce_data = demo_push, ce_inserted_at = 5, ce_from = 9, propagation_count = 0\<rparr>)]\<rparr>)"

theorem pull_round_synchronises_witness:
  "crds_get 7 (gp_crds (fst (pull_round demo_gossip 8 (\<lambda>cs. cs) (own_contact_info demo_peer) [(''vote'', 4)] demo_node demo_peer))) \<noteq> None \<and>
   own_contact_info demo_peer \<in> set (contacts (gp_crds (fst (pull_round demo_gossip 8 (\<lambda>cs. cs) (own_contact_info demo_peer) [(''vote'', 4)] demo_node demo_peer))))"
proof -
  have h: "gp_receiver_alive demo_node" "gp_receiver_alive demo_peer" "crds_inv (gp_crds demo_node)"
    "crds_len (gp_crds demo_node) + length (pull_items [(''vote'', 4)] (gp_crds demo_peer)) \<le> max_entries (gp_crds demo_node)"
    by (simp_all add: demo_node_def demo_peer_def gossip_new_def crds_new_def crds_inv_def crds_len_def pull_items_def entries_newer_than_def demo_push_def)
  have e: "crds_get 7 (gp_crds demo_peer) = Some \<lparr>ce_data = demo_push, ce_inserted_at = 5, ce_from = 9, propagation_count = 0\<rparr>"
    by (simp add: demo_peer_def gossip_new_def crds_get_def)
  note f = pull_round_synchronises[OF demo_gossip_correct h refl, where now = 8 and shuffle = "\<lambda>cs. cs" and peer = "own_contact_info demo_peer"]
  show ?thesis using e f[where kind = "''vote''" and ts = 4 and i = 7
      and e = "\<lparr>ce_data = demo_push, ce_inserted_at = 5, ce_from = 9, propagation_count = 0\<rparr>"] by (simp add: demo_push_def)
qed

subsection \<open>What a signature does not cover\<close>

text \<open>
  The contact information of a pull response is not compared with the signer of the message: a
  peer that signs for itself replaces what the node knows about any other validator.
\<close>

lemma pull_response_replaces_contact:
  assumes "gm_verify_signature cx m" "gm_type m = MT_PullResponse" "gm_payload m = PullResponse r"
  shows "map_of (crds_contacts (gp_crds (handle_message cx shuffle now m p))) (ci_pubkey (resp_contact_info r)) = Some (resp_contact_info r)"
  using assms by (simp add: handle_message_def Let_def handle_pull_response_def insert_contact_def update_conv)

text \<open>
  The id of an item is chosen by its sender and not computed from its content: once an id is
  taken, an item with that id and any other content is refused.
\<close>

lemma taken_id_refuses_content:
  assumes "crds_get (pd_id d) c = Some e" "gm_payload m = Push (d\<lparr>pd_content := other\<rparr>)"
  shows "insert_push now m c = (False, c)"
  using assms by (simp add: insert_push_def crds_get_def)

end
