(* ===== verification/Net.thy ===== *)
theory Net
  imports Shreds Crds
begin

text \<open>
  The datagrams (\<^verbatim>\<open>crates/net/src/lib.rs\<close>): framing, the length guards and the receive loop. The
  JSON codec of a message and the socket are parameters; what the socket hands out is a list of
  results, an error or a datagram with its sender, and the loop that has used it up is waiting.
\<close>

subsection \<open>Messages and errors\<close>

datatype net_message = Net_Shred shred | Net_Gossip gossip_message

datatype 'io net_error = Encode string | Malformed string | TooLarge nat | Io 'io

record net_ext =
  net_to_json :: "net_message \<Rightarrow> string + bytes"
  net_from_json :: "bytes \<Rightarrow> string + net_message"

definition MAX_DATAGRAM :: nat where
  "MAX_DATAGRAM = 64 * 1024"

definition NET_MAGIC :: bytes where
  "NET_MAGIC = [0x54, 0x4E]"

definition TAG_SHRED :: u8 where
  "TAG_SHRED = 1"

definition TAG_GOSSIP :: u8 where
  "TAG_GOSSIP = 2"

fun net_kind :: "net_message \<Rightarrow> string" where
  "net_kind (Net_Shred _) = ''shred''"
| "net_kind (Net_Gossip _) = ''gossip''"

fun net_error_display :: "('io \<Rightarrow> string) \<Rightarrow> 'io net_error \<Rightarrow> string" where
  "net_error_display io_display (Encode e) = ''encode error: '' @ e"
| "net_error_display io_display (Malformed e) = ''malformed datagram: '' @ e"
| "net_error_display io_display (TooLarge n) = ''datagram too large: '' @ show_nat n @ '' > '' @ show_nat MAX_DATAGRAM @ '' bytes''"
| "net_error_display io_display (Io e) = ''io error: '' @ io_display e"

subsection \<open>Framing\<close>

fun net_tag :: "net_message \<Rightarrow> u8" where
  "net_tag (Net_Shred _) = TAG_SHRED"
| "net_tag (Net_Gossip _) = TAG_GOSSIP"

definition net_encode :: "net_ext \<Rightarrow> net_message \<Rightarrow> 'io net_error + bytes" where
  "net_encode nx m =
     (case net_to_json nx m of
        Inl e \<Rightarrow> Inl (Encode e)
      | Inr body \<Rightarrow>
          let total = length NET_MAGIC + 1 + length body
          in if MAX_DATAGRAM < total then Inl (TooLarge total) else Inr (NET_MAGIC @ [net_tag m] @ body))"

definition net_decode :: "net_ext \<Rightarrow> bytes \<Rightarrow> 'io net_error + net_message" where
  "net_decode nx bs =
     (if length bs < length NET_MAGIC + 1 then Inl (Malformed ''datagram too short'')
      else if take (length NET_MAGIC) bs \<noteq> NET_MAGIC then Inl (Malformed ''bad magic'')
      else
        let tag = bs ! length NET_MAGIC; body = drop (length NET_MAGIC + 1) bs
        in if tag = TAG_SHRED
           then (case net_from_json nx body of Inl e \<Rightarrow> Inl (Malformed (''shred: '' @ e)) | Inr m \<Rightarrow> Inr m)
           else if tag = TAG_GOSSIP
           then (case net_from_json nx body of Inl e \<Rightarrow> Inl (Malformed (''gossip: '' @ e)) | Inr m \<Rightarrow> Inr m)
           else Inl (Malformed (''unknown tag '' @ show_nat (unat tag))))"

subsection \<open>The socket\<close>

definition send_raw :: "(bytes \<Rightarrow> 'peer \<Rightarrow> 'io + nat) \<Rightarrow> bytes \<Rightarrow> 'peer \<Rightarrow> 'io net_error + nat" where
  "send_raw socket bs peer =
     (if MAX_DATAGRAM < length bs then Inl (TooLarge (length bs))
      else case socket bs peer of Inl e \<Rightarrow> Inl (Io e) | Inr n \<Rightarrow> Inr n)"

definition send_to :: "net_ext \<Rightarrow> (bytes \<Rightarrow> 'peer \<Rightarrow> 'io + nat) \<Rightarrow> net_message \<Rightarrow> 'peer \<Rightarrow> 'io net_error + nat" where
  "send_to nx socket m peer = (case net_encode nx m of Inl e \<Rightarrow> Inl e | Inr bs \<Rightarrow> send_raw socket bs peer)"

text \<open>A datagram longer than the buffer is cut to it.\<close>

fun recv :: "net_ext \<Rightarrow> ('io + bytes \<times> 'peer) list \<Rightarrow> (('io net_error + net_message \<times> 'peer) \<times> ('io + bytes \<times> 'peer) list) option" where
  "recv nx [] = None"
| "recv nx (Inl e # events) = Some (Inl (Io e), events)"
| "recv nx (Inr (bs, peer) # events) =
     (case net_decode nx (take MAX_DATAGRAM bs) :: 'io net_error + net_message of
        Inr m \<Rightarrow> Some (Inr (m, peer), events)
      | Inl e \<Rightarrow> recv nx events)"

subsection \<open>Round trip\<close>

text \<open>Documented behaviour of the JSON codec: what was serialised parses back.\<close>

definition net_json_ok :: "net_ext \<Rightarrow> bool" where
  "net_json_ok nx \<longleftrightarrow> (\<forall>m body. net_to_json nx m = Inr body \<longrightarrow> net_from_json nx body = Inr m)"

lemma net_encode_Inr:
  "net_encode nx m = Inr bs \<longleftrightarrow>
     (\<exists>body. net_to_json nx m = Inr body \<and> 3 + length body \<le> MAX_DATAGRAM \<and> bs = NET_MAGIC @ net_tag m # body)"
  by (auto simp: net_encode_def Let_def NET_MAGIC_def not_less split: sum.splits)

lemma net_decode_encode:
  assumes "net_json_ok nx" "net_encode nx m = (Inr bs :: 'io net_error + bytes)"
  shows "length bs \<le> MAX_DATAGRAM" "net_decode nx bs = (Inr m :: 'io net_error + net_message)"
proof -
  obtain body where b: "net_to_json nx m = Inr body" "3 + length body \<le> MAX_DATAGRAM" "bs = NET_MAGIC @ net_tag m # body"
    using assms(2) unfolding net_encode_Inr by blast
  then show "length bs \<le> MAX_DATAGRAM" by (simp add: NET_MAGIC_def)
  have "net_from_json nx body = Inr m" using assms(1) b(1) by (simp add: net_json_ok_def)
  then show "net_decode nx bs = (Inr m :: 'io net_error + net_message)"
    unfolding b(3) by (cases m) (simp_all add: net_decode_def NET_MAGIC_def Let_def TAG_SHRED_def TAG_GOSSIP_def)
qed

lemma recv_skips:
  assumes "list_all (\<lambda>ev. \<exists>d p e. ev = Inr (d, p) \<and> net_decode nx (take MAX_DATAGRAM d) = (Inl e :: 'io net_error + net_message)) junk"
  shows "recv nx (junk @ events) = recv nx (events :: ('io + bytes \<times> 'peer) list)"
  using assms by (induction junk) auto

text \<open>
  C40 A message that was encoded fits a datagram and is what the receiver gets, whatever malformed
  datagrams precede it on its socket: the receive loop drops those and goes on.
\<close>

theorem datagram_delivered:
  fixes junk events :: "('io + bytes \<times> 'peer) list" and socket :: "bytes \<Rightarrow> 'peer \<Rightarrow> 'io + nat"
  assumes "net_json_ok nx" and "net_encode nx m = (Inr bs :: 'io net_error + bytes)"
    and "list_all (\<lambda>ev. \<exists>d p e. ev = Inr (d, p) \<and> net_decode nx (take MAX_DATAGRAM d) = (Inl e :: 'io net_error + net_message)) junk"
  shows "recv nx (junk @ Inr (bs, peer) # events) = Some (Inr (m, peer), events) \<and>
    send_to nx socket m peer = send_raw socket bs peer \<and>
    send_raw socket bs peer \<noteq> Inl (TooLarge k)"
proof -
  note d = net_decode_encode[OF assms(1,2)]
  have c1: "recv nx (junk @ Inr (bs, peer) # events) = Some (Inr (m, peer), events)"
    using d(1) d(2) by (simp add: recv_skips[OF assms(3)])
  have c2: "send_to nx socket m peer = send_raw socket bs peer" using assms(2) by (simp add: send_to_def)
  have c3: "send_raw socket bs peer \<noteq> Inl (TooLarge k)" using d(1) by (simp add: send_raw_def split: sum.split)
  show ?thesis using c1 c2 c3 by blast
qed

definition demo_net_message :: net_message where
  "demo_net_message = Net_Gossip \<lparr>gm_from = 1, gm_type = MT_Ping, gm_payload = Ping 5, gm_timestamp = 2, gm_signature = []\<rparr>"

definition demo_net :: net_ext where
  "demo_net = \<lparr>net_to_json = (\<lambda>m. if m = demo_net_message then Inr [9, 9] else Inl ''other''), net_from_json = (\<lambda>_. Inr demo_net_message)\<rparr>"

theorem datagram_delivered_witness:
  "recv demo_net [Inr ([1, 2], 0), Inr ([0x54, 0x4E, 3, 4], 1 :: nat), Inr ([0x54, 0x4E, 2, 9, 9], 2), Inl (0 :: nat)] =
     Some (Inr (demo_net_message, 2), [Inl 0])"
proof -
  have ok: "net_json_ok demo_net" by (simp add: net_json_ok_def demo_net_def)
  have enc: "net_encode demo_net demo_net_message = (Inr [0x54, 0x4E, 2, 9, 9] :: nat net_error + bytes)"
    by (simp add: net_encode_def demo_net_def NET_MAGIC_def MAX_DATAGRAM_def TAG_GOSSIP_def demo_net_message_def)
  have "list_all (\<lambda>ev. \<exists>d p e. ev = Inr (d, p) \<and> net_decode demo_net (take MAX_DATAGRAM d) = (Inl e :: nat net_error + net_message))
      [Inr ([1, 2], 0), Inr ([0x54, 0x4E, 3, 4], 1 :: nat)]"
    by (simp add: net_decode_def NET_MAGIC_def MAX_DATAGRAM_def TAG_SHRED_def TAG_GOSSIP_def)
  from datagram_delivered[OF ok enc this, of 2 "[Inl 0]", THEN conjunct1] show ?thesis by simp
qed

text \<open>The tag is not compared with the message it frames: a gossip message framed as a shred is a gossip message.\<close>

lemma mistagged_datagram_accepted:
  "net_from_json nx body = Inr (Net_Gossip m) \<Longrightarrow> net_decode nx (NET_MAGIC @ TAG_SHRED # body) = Inr (Net_Gossip m)"
  by (simp add: net_decode_def NET_MAGIC_def)

end
