(* ===== verification/Base58.thy ===== *)
theory Base58
  imports Prelude
begin

text \<open>
  The base-58 text of a signature (\<^verbatim>\<open>bs58_encode\<close> in \<^verbatim>\<open>crates/rpc/src/handler.rs\<close>) and a reference
  decoder. The digits are kept least significant first, as in the code.
\<close>

definition BS58_ALPHABET :: string where
  "BS58_ALPHABET = ''123456789ABCDEFGHJKLMNPQRSTUVWXYZabcdefghijkmnopqrstuvwxyz''"

fun push_carry :: "nat \<Rightarrow> u8 list" where
  "push_carry carry = (if 0 < carry then of_nat (carry mod 58) # push_carry (carry div 58) else [])"

declare push_carry.simps [simp del]

fun add_byte :: "nat \<Rightarrow> u8 list \<Rightarrow> u8 list" where
  "add_byte carry [] = push_carry carry"
| "add_byte carry (digit # digits) =
     (let carry = carry + 256 * unat digit in of_nat (carry mod 58) # add_byte (carry div 58) digits)"

definition bs58_digits :: "bytes \<Rightarrow> u8 list" where
  "bs58_digits bs = fold (\<lambda>byte. add_byte (unat byte)) bs []"

definition bs58_encode :: "bytes \<Rightarrow> string" where
  "bs58_encode bs =
     (if bs = [] then []
      else
        let zeros = length (takeWhile (\<lambda>b. b = 0) bs);
            digits = bs58_digits (drop zeros bs)
        in replicate zeros (CHR ''1'') @ map (\<lambda>digit. BS58_ALPHABET ! unat digit) (rev digits))"

subsection \<open>The reference decoder\<close>

fun be_of_nat :: "nat \<Rightarrow> bytes" where
  "be_of_nat v = (if v = 0 then [] else be_of_nat (v div 256) @ [of_nat (v mod 256)])"

declare be_of_nat.simps [simp del]

definition bs58_index :: "char \<Rightarrow> nat" where
  "bs58_index c = length (takeWhile (\<lambda>a. a \<noteq> c) BS58_ALPHABET)"

definition bs58_decode :: "string \<Rightarrow> bytes" where
  "bs58_decode s =
     (let zeros = length (takeWhile (\<lambda>c. c = CHR ''1'') s)
      in replicate zeros 0 @ be_of_nat (foldl (\<lambda>v c. 58 * v + bs58_index c) 0 (drop zeros s)))"

subsection \<open>Values\<close>

fun le58 :: "u8 list \<Rightarrow> nat" where
  "le58 [] = 0"
| "le58 (d # ds) = unat d + 58 * le58 ds"

definition be256 :: "bytes \<Rightarrow> nat" where
  "be256 bs = foldl (\<lambda>v b. 256 * v + unat b) 0 bs"

text \<open>Digits in range, the most significant one not zero.\<close>

definition canonical58 :: "u8 list \<Rightarrow> bool" where
  "canonical58 ds \<longleftrightarrow> list_all (\<lambda>d. unat d < 58) ds \<and> (ds = [] \<or> last ds \<noteq> 0)"

lemma unat_digit: "unat (of_nat (n mod 58) :: u8) = n mod 58"
proof -
  have "n mod 58 < 58" by simp
  then show ?thesis by (simp add: unsigned_of_nat take_bit_nat_eq_self)
qed

lemma push_carry_spec: "le58 (push_carry c) = c \<and> canonical58 (push_carry c) \<and> (push_carry c = [] \<longleftrightarrow> c = 0)"
proof (induction c rule: push_carry.induct)
  case (1 c)
  show ?case
  proof (cases "0 < c")
    case True
    have ih: "le58 (push_carry (c div 58)) = c div 58 \<and> canonical58 (push_carry (c div 58)) \<and> (push_carry (c div 58) = [] \<longleftrightarrow> c div 58 = 0)"
      using 1[OF True] .
    have e: "push_carry c = of_nat (c mod 58) # push_carry (c div 58)" using True by (simp add: push_carry.simps[of c])
    have "(of_nat (c mod 58) :: u8) \<noteq> 0" if "c div 58 = 0"
    proof -
      have "c mod 58 = c" using that by (metis div_mult_mod_eq add_0 mult_0)
      then have "unat (of_nat (c mod 58) :: u8) \<noteq> 0" using unat_digit[of c] True by simp
      then show ?thesis by force
    qed
    moreover have "c mod 58 + 58 * (c div 58) = c" by simp
    ultimately show ?thesis unfolding e using ih True by (auto simp: canonical58_def unat_digit)
  qed (simp add: push_carry.simps[of 0] canonical58_def)
qed

lemma add_byte_value: "le58 (add_byte c ds) = c + 256 * le58 ds"
proof (induction c ds rule: add_byte.induct)
  case (2 c d ds)
  let ?n = "c + 256 * unat d"
  have "le58 (add_byte c (d # ds)) = ?n mod 58 + 58 * (?n div 58 + 256 * le58 ds)" using 2 by (simp add: Let_def unat_digit)
  also have "\<dots> = ?n + 58 * 256 * le58 ds" using mod_mult_div_eq[of ?n 58] by (simp only: distrib_left)
  finally show ?case by simp
qed (simp add: push_carry_spec)

lemma add_byte_digits: "list_all (\<lambda>d. unat d < 58) (add_byte c ds)"
  by (induction c ds rule: add_byte.induct) (use push_carry_spec in \<open>auto simp: canonical58_def Let_def unat_digit\<close>)

lemma add_byte_canonical:
  assumes "canonical58 ds"
  shows "canonical58 (add_byte c ds)"
proof -
  have "last (add_byte c ds) \<noteq> 0" if "ds = [] \<or> last ds \<noteq> 0" "add_byte c ds \<noteq> []" using that
  proof (induction c ds rule: add_byte.induct)
    case (1 c)
    then show ?case using push_carry_spec[of c] by (auto simp: canonical58_def)
  next
    case (2 c d ds)
    let ?n = "c + 256 * unat d"
    show ?case
    proof (cases ds)
      case Nil
      then have "0 < unat d" using 2 by (simp add: unat_gt_0)
      then have "0 < ?n div 58" by (simp add: div_greater_zero_iff)
      then have "push_carry (?n div 58) \<noteq> []" using push_carry_spec[of "?n div 58"] by simp
      then show ?thesis using Nil 2 by (simp add: Let_def)
    next
      case (Cons d' ds')
      then have "add_byte (?n div 58) ds \<noteq> []" by (simp add: Let_def)
      then show ?thesis using 2 Cons by (simp add: Let_def)
    qed
  qed
  then show ?thesis using assms add_byte_digits[of c ds] by (auto simp: canonical58_def)
qed

lemma bs58_digits_spec: "le58 (bs58_digits bs) = be256 bs \<and> canonical58 (bs58_digits bs)"
proof -
  have "le58 (fold (\<lambda>byte. add_byte (unat byte)) bs ds) = foldl (\<lambda>v b. 256 * v + unat b) (le58 ds) bs \<and>
      canonical58 (fold (\<lambda>byte. add_byte (unat byte)) bs ds)" if "canonical58 ds" for ds
    using that by (induction bs arbitrary: ds) (auto simp: add_byte_canonical add_byte_value add.commute)
  from this[of "[]"] show ?thesis by (simp add: bs58_digits_def be256_def canonical58_def)
qed

subsection \<open>Round trip\<close>

lemma be_of_nat_be256: "bs = [] \<or> hd bs \<noteq> 0 \<Longrightarrow> be_of_nat (be256 bs) = bs"
proof (induction bs rule: rev_induct)
  case Nil
  show ?case by (simp add: be256_def be_of_nat.simps)
next
  case (snoc b bs)
  have v: "be256 (bs @ [b]) = 256 * be256 bs + unat b" by (simp add: be256_def)
  have lt: "unat b < 256" using unsigned_less[of b, where 'a = nat] by simp
  have ih: "be_of_nat (be256 bs) = bs" using snoc by (cases bs) auto
  have "be256 (bs @ [b]) \<noteq> 0"
  proof (cases bs)
    case Nil
    then show ?thesis using snoc.prems v by (simp add: unat_eq_0 be256_def)
  next
    case (Cons c cs)
    then have "be256 bs \<noteq> 0" using ih by (metis be_of_nat.simps list.distinct(1))
    then show ?thesis using v by simp
  qed
  moreover have "be256 (bs @ [b]) div 256 = be256 bs" "be256 (bs @ [b]) mod 256 = unat b" using v lt by simp_all
  ultimately show ?case using ih by (simp add: be_of_nat.simps[of "be256 (bs @ [b])"])
qed

lemma bs58_alphabet: "d < 58 \<Longrightarrow> bs58_index (BS58_ALPHABET ! d) = d" "d < 58 \<Longrightarrow> BS58_ALPHABET ! d = CHR ''1'' \<longleftrightarrow> d = 0"
proof -
  have "list_all (\<lambda>d. bs58_index (BS58_ALPHABET ! d) = d \<and> (BS58_ALPHABET ! d = CHR ''1'') = (d = 0)) [0..<58]" by code_simp
  then have "\<forall>d \<in> set [0..<58]. bs58_index (BS58_ALPHABET ! d) = d \<and> (BS58_ALPHABET ! d = CHR ''1'') = (d = 0)" unfolding list_all_iff .
  then show "d < 58 \<Longrightarrow> bs58_index (BS58_ALPHABET ! d) = d" "d < 58 \<Longrightarrow> BS58_ALPHABET ! d = CHR ''1'' \<longleftrightarrow> d = 0" by simp_all
qed

lemma decode_digits:
  "list_all (\<lambda>d. unat d < 58) ds \<Longrightarrow> foldl (\<lambda>v c. 58 * v + bs58_index c) 0 (map (\<lambda>d. BS58_ALPHABET ! unat d) (rev ds)) = le58 ds"
  by (induction ds) (simp_all add: bs58_alphabet(1))

lemma bs58_decode_encode: "bs58_decode (bs58_encode bs) = bs"
proof -
  define zeros where "zeros = length (takeWhile (\<lambda>b. b = 0) bs)"
  define ds where "ds = bs58_digits (drop zeros bs)"
  let ?cs = "map (\<lambda>d. BS58_ALPHABET ! unat d) (rev ds)"
  have bs: "bs = replicate zeros 0 @ drop zeros bs"
  proof -
    have "takeWhile (\<lambda>b. b = 0) bs = replicate zeros 0" unfolding zeros_def by (rule replicate_length_same[symmetric]) (auto dest: set_takeWhileD)
    moreover have "drop zeros bs = dropWhile (\<lambda>b. b = 0) bs" unfolding zeros_def by (simp add: dropWhile_eq_drop)
    ultimately show ?thesis by (metis takeWhile_dropWhile_id)
  qed
  have hd: "drop zeros bs = [] \<or> hd (drop zeros bs) \<noteq> 0"
    unfolding zeros_def dropWhile_eq_drop[symmetric] using hd_dropWhile[of "\<lambda>b. b = 0" bs] by blast
  have s: "le58 ds = be256 (drop zeros bs)" "canonical58 ds" using bs58_digits_spec unfolding ds_def by blast+
  have enc: "bs58_encode bs = replicate zeros (CHR ''1'') @ ?cs"
    by (cases "bs = []") (simp_all add: bs58_encode_def zeros_def ds_def Let_def bs58_digits_def)
  have "takeWhile (\<lambda>c. c = CHR ''1'') ?cs = []"
    using s(2) by (cases ds rule: rev_cases) (auto simp: canonical58_def bs58_alphabet(2) unat_eq_0)
  moreover have "takeWhile (\<lambda>c. c = CHR ''1'') (bs58_encode bs) = replicate zeros (CHR ''1'') @ takeWhile (\<lambda>c. c = CHR ''1'') ?cs"
    unfolding enc by (rule takeWhile_append2) simp
  ultimately have "length (takeWhile (\<lambda>c. c = CHR ''1'') (bs58_encode bs)) = zeros" by simp
  then have "bs58_decode (bs58_encode bs) = replicate zeros 0 @ be_of_nat (le58 ds)"
    using decode_digits s(2) by (simp add: bs58_decode_def enc canonical58_def)
  also have "\<dots> = replicate zeros 0 @ drop zeros bs" unfolding s(1) be_of_nat_be256[OF hd] by (rule refl)
  finally show ?thesis unfolding bs[symmetric] .
qed

end
