(* ===== verification/Rpc.thy ===== *)
theory Rpc
  imports Base58 Mempool Executor Machines
begin

text \<open>
  The JSON-RPC handler (\<^verbatim>\<open>crates/rpc/src/handler.rs\<close>) and one connection of the server
  (\<^verbatim>\<open>crates/rpc/src/server.rs\<close>). The JSON and hexadecimal parsers of the linked crates are
  parameters. The accounts the handler reads are those of its executor, which shares them.
\<close>

subsection \<open>Requests and responses\<close>

datatype json =
    JNull
  | JBool bool
  | JNum int
  | JStr string
  | JArr "json list"
  | JObj "(string \<times> json) list"

record rpc_request =
  rq_jsonrpc :: string
  rq_method :: string
  rq_params :: "json option"
  rq_id :: "json option"

record rpc_error =
  err_code :: int
  err_message :: string
  err_data :: "json option"

record rpc_response =
  rs_jsonrpc :: string
  rs_result :: "json option"
  rs_error :: "rpc_error option"
  rs_id :: "json option"

definition method_not_found :: "string \<Rightarrow> rpc_error" where
  "method_not_found m = \<lparr>err_code = - 32601, err_message = ''Method not found: '' @ m, err_data = None\<rparr>"

definition invalid_params :: "string \<Rightarrow> rpc_error" where
  "invalid_params msg = \<lparr>err_code = - 32602, err_message = msg, err_data = None\<rparr>"

definition internal_error :: "string \<Rightarrow> rpc_error" where
  "internal_error msg = \<lparr>err_code = - 32603, err_message = msg, err_data = None\<rparr>"

definition rpc_success :: "json option \<Rightarrow> json \<Rightarrow> rpc_response" where
  "rpc_success i v = \<lparr>rs_jsonrpc = ''2.0'', rs_result = Some v, rs_error = None, rs_id = i\<rparr>"

definition rpc_failure :: "json option \<Rightarrow> rpc_error \<Rightarrow> rpc_response" where
  "rpc_failure i e = \<lparr>rs_jsonrpc = ''2.0'', rs_result = None, rs_error = Some e, rs_id = i\<rparr>"

record rpc_ext = db_ext +
  tx_from_value :: "json \<Rightarrow> string + transaction"
  hex_decode :: "string \<Rightarrow> bytes option"
  request_from_json :: "bytes \<Rightarrow> string + rpc_request"
  response_to_json :: "rpc_response \<Rightarrow> bytes"

subsection \<open>The handler\<close>

record rpc_handler =
  rh_executor :: executor
  rh_slot :: u64
  rh_identity :: pubkey
  rh_mempool :: "mempool option"
  rh_transactions :: "(string \<times> json) list"

abbreviation rh_accounts :: "rpc_handler \<Rightarrow> accounts_db" where
  "rh_accounts h \<equiv> ex_db (rh_executor h)"

definition rpc_build :: "accounts_db \<Rightarrow> pubkey \<Rightarrow> mempool option \<Rightarrow> rpc_handler" where
  "rpc_build accounts identity mp =
     \<lparr>rh_executor = executor_new accounts, rh_slot = 0, rh_identity = identity, rh_mempool = mp, rh_transactions = []\<rparr>"

definition rpc_new :: "accounts_db \<Rightarrow> pubkey \<Rightarrow> rpc_handler" where
  "rpc_new accounts identity = rpc_build accounts identity None"

definition with_mempool :: "accounts_db \<Rightarrow> pubkey \<Rightarrow> mempool \<Rightarrow> rpc_handler" where
  "with_mempool accounts identity mp = rpc_build accounts identity (Some mp)"

definition jword :: "u64 \<Rightarrow> json" where
  "jword w = JNum (uint w)"

definition get_health :: "rpc_request \<Rightarrow> rpc_response" where
  "get_health req = rpc_success (rq_id req) (JStr ''ok'')"

definition get_version :: "rpc_request \<Rightarrow> rpc_response" where
  "get_version req = rpc_success (rq_id req)
     (JObj [(''solana-core'', JStr ''0.1.0-custom''), (''feature-set'', JStr ''custom-validator'')])"

definition get_identity :: "rpc_request \<Rightarrow> rpc_handler \<Rightarrow> rpc_response" where
  "get_identity req h = rpc_success (rq_id req) (JObj [(''identity'', JStr (hex_encode (bytes32 (rh_identity h))))])"

definition get_slot :: "rpc_request \<Rightarrow> rpc_handler \<Rightarrow> rpc_response" where
  "get_slot req h = rpc_success (rq_id req) (jword (rh_slot h))"

definition get_cluster_nodes :: "rpc_request \<Rightarrow> rpc_handler \<Rightarrow> rpc_response" where
  "get_cluster_nodes req h = rpc_success (rq_id req)
     (JArr [JObj [(''pubkey'', JStr (hex_encode (bytes32 (rh_identity h)))), (''gossip'', JStr ''127.0.0.1:8000''),
        (''tpu'', JStr ''127.0.0.1:8001''), (''rpc'', JStr ''127.0.0.1:8002''), (''version'', JStr ''0.1.0-custom''),
        (''featureSet'', JNum 0), (''shredVersion'', JNum 0)]])"

text \<open>The first element of an array of parameters, and its text.\<close>

definition first_param :: "rpc_request \<Rightarrow> json option" where
  "first_param req = (case rq_params req of Some (JArr (v # _)) \<Rightarrow> Some v | _ \<Rightarrow> None)"

definition first_str :: "rpc_request \<Rightarrow> string option" where
  "first_str req = (case first_param req of Some (JStr s) \<Rightarrow> Some s | _ \<Rightarrow> None)"

definition pubkey_param :: "('z) rpc_ext_scheme \<Rightarrow> rpc_request \<Rightarrow> rpc_error + pubkey" where
  "pubkey_param cx req =
     (case first_str req of
        None \<Rightarrow> Inl (invalid_params ''Missing pubkey parameter'')
      | Some s \<Rightarrow>
          (case hex_decode cx s of
             Some bs \<Rightarrow> if length bs = 32 then Inr (of_bytes32 bs) else Inl (invalid_params ''Invalid pubkey'')
           | None \<Rightarrow> Inl (invalid_params ''Invalid pubkey'')))"

definition get_account_info :: "('z) rpc_ext_scheme \<Rightarrow> rpc_request \<Rightarrow> rpc_handler \<Rightarrow> rpc_response" where
  "get_account_info cx req h =
     (case pubkey_param cx req of
        Inl e \<Rightarrow> rpc_failure (rq_id req) e
      | Inr key \<Rightarrow>
          (case load cx (rh_accounts h) key of
             Some a \<Rightarrow> rpc_success (rq_id req)
               (JObj [(''lamports'', jword (lamports a)), (''owner'', JStr (hex_encode (bytes32 (owner a)))),
                      (''executable'', JBool (executable a)), (''rentEpoch'', jword (rent_epoch a))])
           | None \<Rightarrow> rpc_success (rq_id req) JNull))"

definition get_balance :: "('z) rpc_ext_scheme \<Rightarrow> rpc_request \<Rightarrow> rpc_handler \<Rightarrow> rpc_response" where
  "get_balance cx req h =
     (case pubkey_param cx req of
        Inl e \<Rightarrow> rpc_failure (rq_id req) e
      | Inr key \<Rightarrow>
          rpc_success (rq_id req)
            (JObj [(''lamports'', jword (case load cx (rh_accounts h) key of Some a \<Rightarrow> lamports a | None \<Rightarrow> 0))]))"

definition get_account_count :: "rpc_request \<Rightarrow> rpc_handler \<Rightarrow> rpc_response" where
  "get_account_count req h = rpc_success (rq_id req) (jword (account_count (rh_accounts h)))"

definition pending_status :: "transaction \<Rightarrow> json" where
  "pending_status tx = JObj [(''slot'', JNull), (''status'', JStr ''pending''), (''err'', JNull),
     (''computeUnitsConsumed'', JNum 0), (''fee'', jword (tx_fee tx)), (''logs'', JArr [])]"

definition executed_status :: "u64 \<Rightarrow> transaction_result \<Rightarrow> json" where
  "executed_status slot r = JObj [(''slot'', jword slot), (''status'', JStr (if tr_success r then ''finalized'' else ''failed'')),
     (''err'', case tr_error r of Some e \<Rightarrow> JStr (show_transaction_error e) | None \<Rightarrow> JNull),
     (''computeUnitsConsumed'', jword (tr_compute_units r)), (''fee'', jword (fee_paid r)), (''logs'', JArr (map JStr (tr_logs r)))]"

definition record_status :: "string \<Rightarrow> json \<Rightarrow> rpc_handler \<Rightarrow> rpc_handler" where
  "record_status signature status h = h\<lparr>rh_transactions := AList.update signature status (rh_transactions h)\<rparr>"

definition send_transaction :: "('z) rpc_ext_scheme \<Rightarrow> u64 \<Rightarrow> rpc_request \<Rightarrow> rpc_handler \<Rightarrow> rpc_response \<times> rpc_handler" where
  "send_transaction cx now req h =
     (case first_param req of
        None \<Rightarrow> (rpc_failure (rq_id req) (invalid_params ''Missing transaction parameter''), h)
      | Some v \<Rightarrow>
          (case tx_from_value cx v of
             Inl e \<Rightarrow> (rpc_failure (rq_id req) (invalid_params (''Invalid transaction: '' @ e)), h)
           | Inr tx \<Rightarrow>
               let signature = bs58_encode (tx_signature tx) in
               (case rh_mempool h of
                  Some mp \<Rightarrow>
                    (case mempool_insert cx tx now mp of
                       (Inr _, mp) \<Rightarrow>
                         (rpc_success (rq_id req) (JStr signature),
                          record_status signature (pending_status tx) (h\<lparr>rh_mempool := Some mp\<rparr>))
                     | (Inl e, mp) \<Rightarrow>
                         (rpc_failure (rq_id req) (invalid_params (show_mempool_error e)), h\<lparr>rh_mempool := Some mp\<rparr>))
                | None \<Rightarrow>
                    (case execute_transaction cx tx (rh_executor h) of
                       (result, ex) \<Rightarrow>
                         (rpc_success (rq_id req) (JStr signature),
                          record_status signature (executed_status (rh_slot h) result) (h\<lparr>rh_executor := ex\<rparr>))))))"

text \<open>Indexing a JSON value by a name: null where there is no such member.\<close>

definition json_member :: "string \<Rightarrow> json \<Rightarrow> json" where
  "json_member k v = (case v of JObj ms \<Rightarrow> (case map_of ms k of Some m \<Rightarrow> m | None \<Rightarrow> JNull) | _ \<Rightarrow> JNull)"

definition get_transaction :: "rpc_request \<Rightarrow> rpc_handler \<Rightarrow> rpc_response" where
  "get_transaction req h =
     (case first_str req of
        None \<Rightarrow> rpc_failure (rq_id req) (invalid_params ''Missing signature parameter'')
      | Some sig \<Rightarrow>
          (case map_of (rh_transactions h) sig of
             Some status \<Rightarrow> rpc_success (rq_id req)
               (JObj [(''slot'', json_member ''slot'' status), (''transaction'', JObj [(''signature'', JStr sig)]), (''meta'', status)])
           | None \<Rightarrow> rpc_success (rq_id req) JNull))"

definition get_block_height :: "rpc_request \<Rightarrow> rpc_handler \<Rightarrow> rpc_response" where
  "get_block_height req h = rpc_success (rq_id req) (jword (rh_slot h))"

definition get_epoch_info :: "rpc_request \<Rightarrow> rpc_handler \<Rightarrow> rpc_response" where
  "get_epoch_info req h = rpc_success (rq_id req)
     (JObj [(''slot'', jword (rh_slot h)), (''epoch'', jword (rh_slot h div 432000)), (''slotIndex'', jword (rh_slot h mod 432000)),
        (''slotsInEpoch'', JNum 432000), (''absoluteSlot'', jword (rh_slot h)), (''blockHeight'', jword (rh_slot h)),
        (''transactionCount'', JNum 0)])"

definition update_slot :: "u64 \<Rightarrow> rpc_handler \<Rightarrow> rpc_handler" where
  "update_slot slot h = h\<lparr>rh_slot := slot\<rparr>"

definition rpc_handle :: "('z) rpc_ext_scheme \<Rightarrow> u64 \<Rightarrow> rpc_request \<Rightarrow> rpc_handler \<Rightarrow> rpc_response \<times> rpc_handler" where
  "rpc_handle cx now req h =
     (let m = rq_method req in
      if m = ''getHealth'' then (get_health req, h)
      else if m = ''getVersion'' then (get_version req, h)
      else if m = ''getIdentity'' then (get_identity req h, h)
      else if m = ''getSlot'' then (get_slot req h, h)
      else if m = ''getClusterNodes'' then (get_cluster_nodes req h, h)
      else if m = ''getAccountInfo'' then (get_account_info cx req h, h)
      else if m = ''getBalance'' then (get_balance cx req h, h)
      else if m = ''getAccountCount'' then (get_account_count req h, h)
      else if m = ''sendTransaction'' then send_transaction cx now req h
      else if m = ''getTransaction'' then (get_transaction req h, h)
      else if m = ''getBlockHeight'' then (get_block_height req h, h)
      else if m = ''getEpochInfo'' then (get_epoch_info req h, h)
      else (rpc_failure (rq_id req) (method_not_found m), h))"

subsection \<open>One connection\<close>

text \<open>The position after the first empty line; without one, zero if the text opens a brace.\<close>

fun after_blank_line :: "nat \<Rightarrow> bytes \<Rightarrow> nat option" where
  "after_blank_line i data =
     (if length data < 4 then None
      else if take 4 data = [13, 10, 13, 10] then Some (i + 4)
      else after_blank_line (i + 1) (tl data))"

declare after_blank_line.simps [simp del]

definition find_json_body :: "bytes \<Rightarrow> nat option" where
  "find_json_body data =
     (case after_blank_line 0 data of
        Some i \<Rightarrow> Some i
      | None \<Rightarrow> if data \<noteq> [] \<and> data ! 0 = 123 then Some 0 else None)"

definition http_ok :: "bytes \<Rightarrow> bytes" where
  "http_ok json =
     ascii (''HTTP/1.1 200 OK'' @ [CHR 13, CHR 10] @ ''Content-Type: application/json'' @ [CHR 13, CHR 10] @
       ''Content-Length: '' @ show_nat (length json) @ [CHR 13, CHR 10, CHR 13, CHR 10]) @ json"

definition http_bad_request :: bytes where
  "http_bad_request = ascii (''HTTP/1.1 400 Bad Request'' @ [CHR 13, CHR 10, CHR 13, CHR 10])"

text \<open>What the task of one connection writes, given what its single read returned.\<close>

definition serve_connection :: "('z) rpc_ext_scheme \<Rightarrow> u64 \<Rightarrow> bytes \<Rightarrow> rpc_handler \<Rightarrow> bytes \<times> rpc_handler" where
  "serve_connection cx now body h =
     (if body = [] then ([], h)
      else
        (case find_json_body body of
           None \<Rightarrow> (http_bad_request, h)
         | Some json_start \<Rightarrow>
             (case request_from_json cx (drop json_start body) of
                Inr req \<Rightarrow> (case rpc_handle cx now req h of (resp, h) \<Rightarrow> (http_ok (response_to_json cx resp), h))
              | Inl e \<Rightarrow> (http_ok (response_to_json cx (rpc_failure None (invalid_params (''Invalid JSON: '' @ e)))), h))))"

subsection \<open>Responses\<close>

text \<open>A well-formed answer to a request: it echoes the id and carries a result or an error with a code of the protocol, not both.\<close>

definition answers :: "rpc_request \<Rightarrow> rpc_response \<Rightarrow> bool" where
  "answers req r \<longleftrightarrow> rs_jsonrpc r = ''2.0'' \<and> rs_id r = rq_id req \<and>
     (case (rs_result r, rs_error r) of
        (Some _, None) \<Rightarrow> True
      | (None, Some e) \<Rightarrow> err_code e \<in> {- 32601, - 32602}
      | _ \<Rightarrow> False)"

lemma answers_simps [simp]:
  "answers req (rpc_success (rq_id req) v)" "answers req (rpc_failure (rq_id req) (invalid_params m))"
  "answers req (rpc_failure (rq_id req) (method_not_found m))"
  by (simp_all add: answers_def rpc_success_def rpc_failure_def invalid_params_def method_not_found_def)

lemma answers_pubkey_param: "pubkey_param cx req = Inl e \<Longrightarrow> answers req (rpc_failure (rq_id req) e)"
  by (auto simp: pubkey_param_def split: option.splits if_splits)

lemmas rpc_method_defs = get_health_def get_version_def get_identity_def get_slot_def get_cluster_nodes_def get_account_info_def
  get_balance_def get_account_count_def get_transaction_def get_block_height_def get_epoch_info_def

text \<open>The three outcomes of sending a transaction: refused, parked in the pool, executed.\<close>

lemma send_transaction_cases:
  obtains (refused) m where "send_transaction cx now req h = (rpc_failure (rq_id req) (invalid_params m), h)"
  | (rejected) mp e mp' where "rh_mempool h = Some mp"
      "send_transaction cx now req h = (rpc_failure (rq_id req) (invalid_params (show_mempool_error e)), h\<lparr>rh_mempool := Some mp'\<rparr>)"
  | (parked) v tx mp hash mp' where "first_param req = Some v" "tx_from_value cx v = Inr tx" "rh_mempool h = Some mp"
      "mempool_insert cx tx now mp = (Inr hash, mp')"
      "send_transaction cx now req h = (rpc_success (rq_id req) (JStr (bs58_encode (tx_signature tx))),
         record_status (bs58_encode (tx_signature tx)) (pending_status tx) (h\<lparr>rh_mempool := Some mp'\<rparr>))"
  | (executed) v tx result ex where "first_param req = Some v" "tx_from_value cx v = Inr tx" "rh_mempool h = None"
      "execute_transaction cx tx (rh_executor h) = (result, ex)"
      "send_transaction cx now req h = (rpc_success (rq_id req) (JStr (bs58_encode (tx_signature tx))),
         record_status (bs58_encode (tx_signature tx)) (executed_status (rh_slot h) result) (h\<lparr>rh_executor := ex\<rparr>))"
proof (cases "first_param req")
  case None
  then show ?thesis using refused by (simp add: send_transaction_def)
next
  case (Some v)
  show ?thesis
  proof (cases "tx_from_value cx v")
    case (Inl e)
    then show ?thesis using refused Some by (simp add: send_transaction_def)
  next
    case (Inr tx)
    show ?thesis
    proof (cases "rh_mempool h")
      case None
      obtain result ex where "execute_transaction cx tx (rh_executor h) = (result, ex)" by fastforce
      then show ?thesis using executed[OF Some Inr None] by (simp add: send_transaction_def Some Inr None Let_def)
    next
      case mp: (Some mp)
      obtain r mp' where i: "mempool_insert cx tx now mp = (r, mp')" by fastforce
      show ?thesis
      proof (cases r)
        case (Inl e)
        then show ?thesis using rejected[OF mp] i by (simp add: send_transaction_def Some \<open>tx_from_value cx v = Inr tx\<close> mp Let_def)
      next
        case (Inr hash)
        then show ?thesis using parked[OF Some \<open>tx_from_value cx v = Inr tx\<close> mp] i
          by (simp add: send_transaction_def Some \<open>tx_from_value cx v = Inr tx\<close> mp Let_def)
      qed
    qed
  qed
qed

lemma send_transaction_frame:
  assumes "send_transaction cx now req h = (r, h')"
  shows "answers req r" "rh_slot h' = rh_slot h" "rh_identity h' = rh_identity h" "(rh_mempool h' = None) = (rh_mempool h = None)"
    "rh_mempool h \<noteq> None \<Longrightarrow> rh_executor h' = rh_executor h"
    "rs_error r \<noteq> None \<Longrightarrow> rh_executor h' = rh_executor h \<and> rh_transactions h' = rh_transactions h"
  using assms by (cases rule: send_transaction_cases[of cx now req h];
      simp add: record_status_def rpc_success_def rpc_failure_def; fastforce simp: answers_def invalid_params_def)+

lemma rpc_handle_send: "rq_method req = ''sendTransaction'' \<Longrightarrow> rpc_handle cx now req h = send_transaction cx now req h"
  by (simp add: rpc_handle_def)

lemma rpc_handle_query:
  assumes "rq_method req \<noteq> ''sendTransaction''"
  shows "snd (rpc_handle cx now req h) = h" "answers req (fst (rpc_handle cx now req h))"
proof -
  show "snd (rpc_handle cx now req h) = h" using assms unfolding rpc_handle_def Let_def by (simp only: if_distrib[of snd] snd_conv if_cancel if_False)
  have a: "answers req (get_account_info cx req h)" "answers req (get_balance cx req h)" "answers req (get_transaction req h)"
    by (auto simp: get_account_info_def get_balance_def get_transaction_def answers_pubkey_param split: sum.split option.split)
  show "answers req (fst (rpc_handle cx now req h))"
    using assms a unfolding rpc_handle_def Let_def
    by (simp add: if_distrib[of fst] if_distrib[of "answers req"] rpc_method_defs(1-5,8,10,11))
qed

text \<open>
  C38 Every request is answered with its own id and either a result or an error with a code of the
  protocol; every method but sendTransaction leaves the handler as it was; an error leaves the
  accounts and the recorded statuses as they were; and a handler with a pool never touches the
  accounts.
\<close>

theorem rpc_requests_contained:
  assumes "rpc_handle cx now req h = (r, h')"
  shows "answers req r \<and>
    (rq_method req \<noteq> ''sendTransaction'' \<longrightarrow> h' = h) \<and>
    (rs_error r \<noteq> None \<longrightarrow> rh_executor h' = rh_executor h \<and> rh_transactions h' = rh_transactions h) \<and>
    (rh_mempool h \<noteq> None \<longrightarrow> rh_executor h' = rh_executor h)"
proof -
  have q: "h' = h \<and> answers req r" if "rq_method req \<noteq> ''sendTransaction''"
    using rpc_handle_query[OF that, of cx now h] assms by simp
  have s: "send_transaction cx now req h = (r, h')" if "rq_method req = ''sendTransaction''"
    using rpc_handle_send[OF that] assms by metis
  have c1: "answers req r" using q send_transaction_frame(1)[OF s] by blast
  have c2: "h' = h" if "rq_method req \<noteq> ''sendTransaction''" using q that by blast
  have c3: "rh_executor h' = rh_executor h \<and> rh_transactions h' = rh_transactions h" if "rs_error r \<noteq> None"
    using q send_transaction_frame(6)[OF s that] by blast
  have c4: "rh_executor h' = rh_executor h" if "rh_mempool h \<noteq> None"
    using q send_transaction_frame(5)[OF s that] by blast
  show ?thesis using c1 c2 c3 c4 by blast
qed

subsection \<open>Statuses\<close>

lemma mempool_insert_contains:
  assumes "mempool_insert cx tx now mp = (Inr hash, mp')"
  shows "hash = tx_hash cx tx \<and> mempool_contains hash mp'"
proof -
  have park: "park (tx_hash cx tx) tx now mp0 = (Inr hash, mp') \<Longrightarrow> hash = tx_hash cx tx \<and> mempool_contains hash mp'" for mp0
    by (auto simp: park_def Let_def mempool_contains_def update_conv)
  show ?thesis using assms park unfolding mempool_insert_def Let_def
    by (auto simp: reject_def split: if_splits option.splits prod.splits)
qed

lemma record_status_mempool [simp]: "rh_mempool (record_status sig st h) = rh_mempool h"
  by (simp add: record_status_def)

definition tx_status :: "('z) rpc_ext_scheme \<Rightarrow> transaction \<Rightarrow> rpc_handler \<Rightarrow> json" where
  "tx_status cx tx h =
     (case rh_mempool h of
        Some _ \<Rightarrow> pending_status tx
      | None \<Rightarrow> executed_status (rh_slot h) (fst (execute_transaction cx tx (rh_executor h))))"

text \<open>
  C37 The text sendTransaction answers with decodes to the transaction's signature, and asking
  getTransaction for it gives the recorded status: pending with the transaction in the pool
  where there is one, and otherwise the outcome of executing it.
\<close>

theorem rpc_send_then_get:
  assumes "rpc_handle cx now req h = (r, h')" and "rq_method req = ''sendTransaction''" and "rs_result r = Some v"
    and get: "rq_method g = ''getTransaction''" "rq_params g = Some (JArr [v])"
  shows "\<exists>w tx. first_param req = Some w \<and> tx_from_value cx w = Inr tx \<and>
    (\<exists>s. v = JStr s \<and> bs58_decode s = tx_signature tx) \<and>
    (\<forall>mp. rh_mempool h' = Some mp \<longrightarrow> mempool_contains (tx_hash cx tx) mp) \<and>
    rpc_handle cx now' g h' = (rpc_success (rq_id g) (JObj [(''slot'', json_member ''slot'' (tx_status cx tx h)),
      (''transaction'', JObj [(''signature'', v)]), (''meta'', tx_status cx tx h)]), h')"
proof -
  have s: "send_transaction cx now req h = (r, h')" using rpc_handle_send[OF assms(2)] assms(1) by metis
  have got: "rpc_handle cx now' g (record_status sig st k) = (rpc_success (rq_id g) (JObj [(''slot'', json_member ''slot'' st),
      (''transaction'', JObj [(''signature'', JStr sig)]), (''meta'', st)]), record_status sig st k)" if "v = JStr sig" for sig st k
    using get that by (simp add: rpc_handle_def get_transaction_def first_str_def first_param_def record_status_def update_conv)
  show ?thesis
  proof (cases rule: send_transaction_cases[of cx now req h])
    case (parked w tx mp hash mp')
    then have "v = JStr (bs58_encode (tx_signature tx))" "h' = record_status (bs58_encode (tx_signature tx)) (pending_status tx) (h\<lparr>rh_mempool := Some mp'\<rparr>)"
      using s assms(3) by (simp_all add: rpc_success_def)
    then show ?thesis using parked(1-3) got[OF \<open>v = JStr (bs58_encode (tx_signature tx))\<close>] mempool_insert_contains[OF parked(4)] bs58_decode_encode
      by (auto simp: tx_status_def)
  next
    case (executed w tx result ex)
    then have "v = JStr (bs58_encode (tx_signature tx))"
      "h' = record_status (bs58_encode (tx_signature tx)) (executed_status (rh_slot h) result) (h\<lparr>rh_executor := ex\<rparr>)"
      using s assms(3) by (simp_all add: rpc_success_def)
    then show ?thesis using executed(1-4) got[OF \<open>v = JStr (bs58_encode (tx_signature tx))\<close>] bs58_decode_encode
      by (auto simp: tx_status_def)
  qed (use s assms(3) in \<open>simp_all add: rpc_failure_def\<close>)
qed

subsection \<open>A status that never changes\<close>

text \<open>
  What happens to a handler: requests, the slots the validator announces, and the work of others
  on the shared accounts and the shared pool.
\<close>

datatype rpc_op =
    Rpc_Request u64 rpc_request
  | Rpc_Slot u64
  | Rpc_Accounts executor
  | Rpc_Pool mempool

fun rpc_step :: "('z) rpc_ext_scheme \<Rightarrow> rpc_op \<Rightarrow> rpc_handler \<Rightarrow> rpc_handler" where
  "rpc_step cx (Rpc_Request now req) h = snd (rpc_handle cx now req h)"
| "rpc_step cx (Rpc_Slot slot) h = update_slot slot h"
| "rpc_step cx (Rpc_Accounts ex) h = h\<lparr>rh_executor := ex\<rparr>"
| "rpc_step cx (Rpc_Pool mp) h = h\<lparr>rh_mempool := map_option (\<lambda>_. mp) (rh_mempool h)\<rparr>"

definition all_pending :: "rpc_handler \<Rightarrow> bool" where
  "all_pending h \<longleftrightarrow> rh_mempool h \<noteq> None \<and> (\<forall>sig st. map_of (rh_transactions h) sig = Some st \<longrightarrow> json_member ''status'' st = JStr ''pending'')"

lemma rpc_step_pending: "all_pending h \<Longrightarrow> all_pending (rpc_step cx op h)"
proof (cases op)
  case (Rpc_Request now req)
  assume h: "all_pending h"
  show ?thesis
  proof (cases "rq_method req = ''sendTransaction''")
    case True
    then show ?thesis using h Rpc_Request
      by (cases rule: send_transaction_cases[of cx now req h])
        (auto simp: rpc_handle_send all_pending_def record_status_def update_conv pending_status_def json_member_def)
  next
    case False
    then show ?thesis using h Rpc_Request by (simp add: rpc_handle_query)
  qed
qed (auto simp: all_pending_def update_slot_def)

interpretation rpc_node: traced_machine "rpc_step cx" "\<lambda>_ h. all_pending h" for cx
  by unfold_locales (rule rpc_step_pending)

text \<open>
  With a pool, the status of a transaction stays pending for ever: nothing the validator does
  when it packs and executes the transaction reaches the recorded status.
\<close>

lemma status_pending_forever:
  assumes "map_of (rh_transactions (fold (rpc_step cx) ops (with_mempool db identity mp))) sig = Some st"
  shows "json_member ''status'' st = JStr ''pending''"
  using rpc_node.inv_run[of "with_mempool db identity mp" cx ops] assms
  by (simp add: all_pending_def with_mempool_def rpc_build_def)

subsection \<open>Instances\<close>

definition demo_rpc :: rpc_ext where
  "demo_rpc = db_ext.extend demo_db (rpc_ext.fields (\<lambda>_. Inr ((transaction_new 5 [] 0)\<lparr>tx_signature := [0, 61]\<rparr>)) (\<lambda>_. None) (\<lambda>_. Inl []) (\<lambda>_. []))"

definition demo_send :: rpc_request where
  "demo_send = \<lparr>rq_jsonrpc = ''2.0'', rq_method = ''sendTransaction'', rq_params = Some (JArr [JNull]), rq_id = Some (JNum 7)\<rparr>"

definition demo_get :: rpc_request where
  "demo_get = \<lparr>rq_jsonrpc = ''2.0'', rq_method = ''getTransaction'', rq_params = Some (JArr [JStr ''124'']), rq_id = Some (JNum 8)\<rparr>"

definition demo_tx :: transaction where
  "demo_tx = (transaction_new 5 [] 0)\<lparr>tx_signature := [0, 61]\<rparr>"

lemma demo_send_runs:
  "rpc_handle demo_rpc 0 demo_send (rpc_new db_new 3) =
     (rpc_success (Some (JNum 7)) (JStr ''124''), record_status ''124'' (tx_status demo_rpc demo_tx (rpc_new db_new 3)) (rpc_new db_new 3))"
proof -
  have "bs58_encode [0, 61] = ''124''" by code_simp
  moreover have "tx_from_value demo_rpc = (\<lambda>_. Inr demo_tx)" by (simp add: demo_rpc_def db_ext.defs rpc_ext.defs demo_tx_def)
  moreover have "execute_transaction demo_rpc demo_tx (executor_new db_new) = (tr_failure_new NoInstructions 0, executor_new db_new)"
    by (simp add: execute_transaction_def validate_def demo_tx_def transaction_new_def)
  ultimately show ?thesis
    by (simp add: rpc_handle_send demo_send_def send_transaction_def first_param_def rpc_new_def rpc_build_def tx_status_def demo_tx_def
        record_status_def Let_def)
qed

theorem rpc_requests_contained_witness:
  "answers demo_send (fst (rpc_handle demo_rpc 0 demo_send (rpc_new db_new 3))) \<and>
   snd (rpc_handle demo_rpc 0 demo_get (with_mempool db_new 3 default_pool)) = with_mempool db_new 3 default_pool"
  using rpc_requests_contained[OF prod.collapse[symmetric], where cx = demo_rpc and now = 0 and req = demo_send and h = "rpc_new db_new 3"]
    rpc_requests_contained[OF prod.collapse[symmetric], where cx = demo_rpc and now = 0 and req = demo_get and h = "with_mempool db_new 3 default_pool"]
  by (simp add: demo_get_def)

theorem rpc_send_then_get_witness:
  "fst (rpc_handle demo_rpc 1 demo_get (snd (rpc_handle demo_rpc 0 demo_send (rpc_new db_new 3)))) =
     rpc_success (Some (JNum 8)) (JObj [(''slot'', json_member ''slot'' (tx_status demo_rpc demo_tx (rpc_new db_new 3))),
      (''transaction'', JObj [(''signature'', JStr ''124'')]), (''meta'', tx_status demo_rpc demo_tx (rpc_new db_new 3))])"
proof -
  have "tx_from_value demo_rpc = (\<lambda>_. Inr demo_tx)" by (simp add: demo_rpc_def db_ext.defs rpc_ext.defs demo_tx_def)
  moreover note rpc_send_then_get[OF demo_send_runs, where g = demo_get and v = "JStr ''124''" and now' = 1]
  ultimately show ?thesis unfolding demo_send_runs by (auto simp: demo_send_def demo_get_def rpc_success_def)
qed

end
