(* ===== verification/Validator.thy ===== *)
theory Validator
  imports Batches Mempool PoH Blockstore Leader Tower Machines
begin

text \<open>
  The validator (\<^verbatim>\<open>validator/src/main.rs\<close> and \<^verbatim>\<open>genesis.rs\<close>): genesis accounts, the state, the slot
  clock, block production and the interleaving of the node's tasks. The accounts are those of
  the executor, which shares them. The order in which the workers of a batch get through, the
  clock and the codecs are parameters; the first extension record is the accounts database's,
  the second the ledger's.
\<close>

subsection \<open>Genesis\<close>

record genesis_account =
  ga_pubkey :: pubkey
  ga_lamports :: u64

record genesis_validator =
  gv_identity :: pubkey
  gv_stake :: u64
  gv_name :: string

record genesis_config =
  cluster :: string
  genesis_accounts :: "genesis_account list"
  genesis_validators :: "genesis_validator list"

definition genesis_single :: "pubkey \<Rightarrow> genesis_config" where
  "genesis_single identity =
     \<lparr>cluster = ''trustnode-devnet'',
      genesis_accounts = [\<lparr>ga_pubkey = fill32 1, ga_lamports = 0\<rparr>, \<lparr>ga_pubkey = fill32 2, ga_lamports = 0\<rparr>,
        \<lparr>ga_pubkey = fill32 3, ga_lamports = 1000000000000\<rparr>],
      genesis_validators = [\<lparr>gv_identity = identity, gv_stake = 10000000, gv_name = ''self''\<rparr>]\<rparr>"

definition apply_account :: "('z) db_ext_scheme \<Rightarrow> genesis_account \<Rightarrow> accounts_db \<Rightarrow> accounts_db" where
  "apply_account cx a db =
     (if db_exists db (ga_pubkey a) then db
      else store cx (ga_pubkey a) (new_system_account (ga_pubkey a) (ga_lamports a)) db)"

definition apply_genesis :: "('z) db_ext_scheme \<Rightarrow> genesis_config \<Rightarrow> accounts_db \<Rightarrow> accounts_db" where
  "apply_genesis cx cfg db = fold (apply_account cx) (genesis_accounts cfg) db"

definition leader_stakes :: "genesis_config \<Rightarrow> validator_stake list" where
  "leader_stakes cfg =
     map (\<lambda>v. \<lparr>vst_validator = gv_identity v, vst_lamports = gv_stake v, vst_name = gv_name v\<rparr>) (genesis_validators cfg)"

subsection \<open>State\<close>

definition HASHES_PER_TICK :: u64 where
  "HASHES_PER_TICK = 6000"

definition TICKS_PER_SLOT :: u64 where
  "TICKS_PER_SLOT = 1"

definition MAX_TXS_PER_BLOCK :: nat where
  "MAX_TXS_PER_BLOCK = 128"

record validator_state =
  va_poh :: poh_hasher
  va_executor :: executor
  va_mempool :: mempool
  va_tower :: tower
  va_leader_schedule :: leader_schedule
  va_current_slot :: u64
  va_tick_height :: u64
  va_block_height :: u64
  va_identity :: pubkey
  va_last_produced_slot :: "u64 option"
  va_ledger :: blockstore

definition resume_point :: "('z) ledger_ext_scheme \<Rightarrow> blockstore \<Rightarrow> u64 \<times> u64 \<times> hash32" where
  "resume_point lx ledger =
     (case bs_last ledger of
        Some r \<Rightarrow> (br_slot r + 1, br_height r + 1, poh_hash r)
      | None \<Rightarrow> (0, 0, poh_from_seed lx ''genesis''))"

definition validator_state_new ::
    "('z) ledger_ext_scheme \<Rightarrow> pubkey \<Rightarrow> bytes \<Rightarrow> accounts_db \<Rightarrow> mempool \<Rightarrow> validator_stake list \<Rightarrow> validator_state outcome" where
  "validator_state_new lx identity ledger_file accounts mp validators =
     (let validators = (if validators = []
                        then [\<lparr>vst_validator = identity, vst_lamports = 10000000, vst_name = ''self''\<rparr>] else validators)
      in case leader_schedule_new validators 4 432000 of
           Panicked \<Rightarrow> Panicked
         | Returned ls \<Rightarrow>
             let ledger = bs_open lx ledger_file
             in case resume_point lx ledger of
                  (slot, ht, seed) \<Rightarrow>
                    Returned \<lparr>va_poh = poh_hasher_new seed slot, va_executor = executor_new accounts, va_mempool = mp,
                      va_tower = tower_new 0, va_leader_schedule = ls, va_current_slot = slot, va_tick_height = 0,
                      va_block_height = ht, va_identity = identity, va_last_produced_slot = None, va_ledger = ledger\<rparr>)"

subsection \<open>The slot clock\<close>

definition advance_slot :: "validator_state \<Rightarrow> validator_state" where
  "advance_slot s =
     (let s = s\<lparr>va_current_slot := va_current_slot s + 1\<rparr>
      in s\<lparr>va_poh := hasher_new_slot (va_current_slot s) (va_poh s)\<rparr>)"

definition process_tick :: "('z) ledger_ext_scheme \<Rightarrow> validator_state \<Rightarrow> validator_state" where
  "process_tick lx s =
     (let s = s\<lparr>va_poh := snd (hasher_hash_n lx HASHES_PER_TICK (va_poh s)), va_tick_height := va_tick_height s + 1\<rparr>
      in if TICKS_PER_SLOT \<le> va_tick_height s then advance_slot (s\<lparr>va_tick_height := 0\<rparr>) else s)"

definition va_is_leader :: "validator_state \<Rightarrow> bool outcome" where
  "va_is_leader s = is_leader (va_identity s) (va_current_slot s) (va_leader_schedule s)"

definition process_transaction :: "('z) db_ext_scheme \<Rightarrow> transaction \<Rightarrow> validator_state \<Rightarrow> transaction_result \<times> validator_state" where
  "process_transaction cx tx s = (case execute_transaction cx tx (va_executor s) of (r, ex) \<Rightarrow> (r, s\<lparr>va_executor := ex\<rparr>))"

subsection \<open>Block production\<close>

function run_batches ::
    "('z) db_ext_scheme \<Rightarrow> (execution_batch \<Rightarrow> nat list) \<Rightarrow> scheduler \<Rightarrow> u64 \<Rightarrow> u64 \<Rightarrow> executor \<Rightarrow> u64 \<times> u64 \<times> executor" where
  "run_batches cx order sched entries succeeded ex =
     (case next_batch sched of
        (None, sched) \<Rightarrow> (entries, succeeded, ex)
      | (Some batch, sched) \<Rightarrow>
          (case execute_batch cx (order batch) batch ex of
             (results, ex) \<Rightarrow>
               run_batches cx order sched (entries + 1) (succeeded + of_nat (length (filter tr_success results))) ex))"
  by pat_completeness auto
termination
  by (relation "measure (\<lambda>(cx, order, sched, entries, succeeded, ex). length (batches sched))")
    (auto simp: next_batch_def split: list.splits)

declare run_batches.simps [simp del]

definition produce_block ::
    "('y) db_ext_scheme \<Rightarrow> ('z) ledger_ext_scheme \<Rightarrow> u64 \<Rightarrow> (execution_batch \<Rightarrow> nat list) \<Rightarrow> validator_state \<Rightarrow>
     (u64 \<times> bytes) option \<times> validator_state" where
  "produce_block cx lx now order s =
     (let poh = hasher_current (va_poh s); slot = va_current_slot s; ht = va_block_height s
      in if va_last_produced_slot s = Some slot then (None, s)
         else
           (case drain MAX_TXS_PER_BLOCK (va_mempool s) of
              (txs, mp) \<Rightarrow>
                let sched = schedule (enqueue_batch txs default_solana)
                in case run_batches cx order sched 0 0 (va_executor s) of
                     (entries, succeeded, ex) \<Rightarrow>
                       let root = compute_state_root cx (ex_db ex)
                       in case bs_append lx now slot ht entries poh root txs (va_ledger s) of
                            (r, ledger) \<Rightarrow>
                              let result = (case r of
                                    Inr record \<Rightarrow> map_option (\<lambda>bs. (br_slot record, bs)) (record_to_json lx record)
                                  | Inl err \<Rightarrow> None)
                              in (result,
                                  s\<lparr>va_mempool := mp, va_executor := ex, va_ledger := ledger,
                                    va_block_height := va_block_height s + 1, va_last_produced_slot := Some slot\<rparr>)))"

subsection \<open>The node\<close>

text \<open>
  The tasks of the node share the state behind one lock: the clock ticks, the RPC parks
  transactions, and the producer first checks, under the lock, whether it leads the current slot,
  and then, taking the lock again, produces. The process may be restarted at any point; its state
  then comes from the ledger file, the accounts log and the genesis. What production hands on for
  propagation is collected.
\<close>

record node =
  nd_state :: validator_state
  nd_ready :: bool
  nd_emitted :: "(u64 \<times> bytes) list"

datatype node_op =
    N_Tick
  | N_Submit u64 transaction
  | N_Check
  | N_Produce u64 "execution_batch \<Rightarrow> nat list"
  | N_Restart

definition restart_state :: "('y) db_ext_scheme \<Rightarrow> ('z) ledger_ext_scheme \<Rightarrow> genesis_config \<Rightarrow> validator_state \<Rightarrow> validator_state outcome" where
  "restart_state cx lx cfg s =
     validator_state_new lx (va_identity s) (bs_file (va_ledger s))
       (apply_genesis cx cfg (db_open cx (persist (ex_db (va_executor s))))) default_pool (leader_stakes cfg)"

fun node_step :: "('y) db_ext_scheme \<Rightarrow> ('z) ledger_ext_scheme \<Rightarrow> genesis_config \<Rightarrow> node_op \<Rightarrow> node \<Rightarrow> node" where
  "node_step cx lx cfg N_Tick n = n\<lparr>nd_state := process_tick lx (nd_state n)\<rparr>"
| "node_step cx lx cfg (N_Submit now tx) n =
     n\<lparr>nd_state := (nd_state n)\<lparr>va_mempool := snd (mempool_insert cx tx now (va_mempool (nd_state n)))\<rparr>\<rparr>"
| "node_step cx lx cfg N_Check n = n\<lparr>nd_ready := (va_is_leader (nd_state n) = Returned True)\<rparr>"
| "node_step cx lx cfg (N_Produce now order) n =
     (if nd_ready n
      then (case produce_block cx lx now order (nd_state n) of
              (result, s) \<Rightarrow> n\<lparr>nd_state := s, nd_ready := False, nd_emitted := nd_emitted n @ (case result of Some b \<Rightarrow> [b] | None \<Rightarrow> [])\<rparr>)
      else n)"
| "node_step cx lx cfg N_Restart n =
     (case restart_state cx lx cfg (nd_state n) of
        Returned s \<Rightarrow> n\<lparr>nd_state := s, nd_ready := False\<rparr>
      | Panicked \<Rightarrow> n)"

text \<open>A node started on an empty directory.\<close>

definition node_boot :: "('y) db_ext_scheme \<Rightarrow> ('z) ledger_ext_scheme \<Rightarrow> genesis_config \<Rightarrow> pubkey \<Rightarrow> node outcome" where
  "node_boot cx lx cfg identity =
     map_outcome (\<lambda>s. \<lparr>nd_state = s, nd_ready = False, nd_emitted = []\<rparr>)
       (validator_state_new lx identity [] (apply_genesis cx cfg (db_open cx None)) default_pool (leader_stakes cfg))"

subsection \<open>The ledger of a node\<close>

text \<open>
  The invariant, for runs shorter than the range of the slots and as long as every block fits a
  frame: the file opens to the ledger, what was emitted is what the ledger holds, and slots and
  heights grow along it and stay below the clock and the height counter, or at the clock when the
  current slot has been produced.
\<close>

definition emitted_fit :: "node \<Rightarrow> bool" where
  "emitted_fit n \<longleftrightarrow> list_all (\<lambda>(_, bs). length bs \<le> unat MAX_FRAME_PAYLOAD) (nd_emitted n)"

definition emits :: "('z) ledger_ext_scheme \<Rightarrow> u64 \<times> bytes \<Rightarrow> block_record \<Rightarrow> bool" where
  "emits lx e r \<longleftrightarrow> fst e = br_slot r \<and> record_to_json lx r = Some (snd e)"

definition below_clock :: "validator_state \<Rightarrow> block_record \<Rightarrow> bool" where
  "below_clock s r \<longleftrightarrow> (br_slot r < va_current_slot s \<or> br_slot r = va_current_slot s \<and> va_last_produced_slot s = Some (va_current_slot s)) \<and>
     br_height r < va_block_height s"

definition ledger_inv :: "('z) ledger_ext_scheme \<Rightarrow> nat \<Rightarrow> node \<Rightarrow> bool" where
  "ledger_inv lx k n \<longleftrightarrow>
     (let s = nd_state n; rs = bs_records (va_ledger s)
      in bs_open lx (bs_file (va_ledger s)) = va_ledger s \<and> list_all2 (emits lx) (nd_emitted n) rs \<and>
         sorted_wrt (<) (map br_slot rs) \<and> sorted_wrt (<) (map br_height rs) \<and>
         list_all (below_clock s) rs \<and> unat (va_current_slot s) \<le> k \<and> unat (va_block_height s) \<le> k)"

lemma inc_word: "unat (w :: u64) < 2 ^ 64 - 1 \<Longrightarrow> unat (w + 1) = unat w + 1 \<and> w < w + 1"
proof -
  assume "unat w < 2 ^ 64 - 1"
  then have "unat (w + 1) = unat w + 1" by (simp add: unat_word_ariths)
  then show ?thesis by (simp add: word_less_nat_alt)
qed

lemma process_tick_sel:
  "va_current_slot (process_tick lx s) = (if TICKS_PER_SLOT \<le> va_tick_height s + 1 then va_current_slot s + 1 else va_current_slot s)"
  "va_ledger (process_tick lx s) = va_ledger s" "va_block_height (process_tick lx s) = va_block_height s"
  "va_last_produced_slot (process_tick lx s) = va_last_produced_slot s"
  by (simp_all add: process_tick_def advance_slot_def Let_def)

lemma ledger_inv_tick:
  assumes "ledger_inv lx k n" "k < 2 ^ 64 - 1"
  shows "ledger_inv lx (Suc k) (n\<lparr>nd_state := process_tick lx (nd_state n)\<rparr>)"
proof -
  let ?s = "nd_state n"
  have b: "unat (va_current_slot ?s) \<le> k" using assms(1) by (simp add: ledger_inv_def Let_def)
  then have inc: "unat (va_current_slot ?s + 1) = unat (va_current_slot ?s) + 1" "va_current_slot ?s < va_current_slot ?s + 1"
    using inc_word[of "va_current_slot ?s"] assms(2) by simp_all
  have "below_clock (process_tick lx ?s) r" if "below_clock ?s r" for r
    using that inc(2) by (auto simp: below_clock_def process_tick_sel)
  then show ?thesis using assms(1) b inc(1) by (auto simp: ledger_inv_def Let_def process_tick_sel list_all_iff)
qed

lemma block_record_new_sel:
  "br_slot (block_record_new lx now parent slot ht poh entries sroot txs) = slot"
  "br_height (block_record_new lx now parent slot ht poh entries sroot txs) = ht"
  "br_parent_hash (block_record_new lx now parent slot ht poh entries sroot txs) = parent"
  "verify_hash lx (block_record_new lx now parent slot ht poh entries sroot txs)"
  by (simp_all add: block_record_new_def Let_def verify_hash_def record_message_def br_compute_hash_def)

lemma bs_append_cases:
  assumes "write_all lx = (\<lambda>_ _. None)"
  defines "r \<equiv> \<lambda>now slot ht entries poh sroot txs bs. block_record_new lx now (expected_parent (bs_records bs)) slot ht poh entries sroot txs"
  obtains (unencoded) e where "record_to_json lx (r now slot ht entries poh sroot txs bs) = None" "bs_append lx now slot ht entries poh sroot txs bs = (Inl e, bs)"
  | (appended) p bs' where "record_to_json lx (r now slot ht entries poh sroot txs bs) = Some p"
      "append_record lx (r now slot ht entries poh sroot txs bs) bs = (Inr (), bs')"
      "bs_append lx now slot ht entries poh sroot txs bs = (Inr (r now slot ht entries poh sroot txs bs), bs')"
      "bs_records bs' = bs_records bs @ [r now slot ht entries poh sroot txs bs]"
proof (cases "record_to_json lx (r now slot ht entries poh sroot txs bs)")
  case None
  then show ?thesis using unencoded by (simp add: bs_append_def append_record_def Let_def block_record_new_sel r_def)
next
  case (Some p)
  then show ?thesis using appended assms(1) by (simp add: bs_append_def append_record_def Let_def block_record_new_sel r_def)
qed

text \<open>What producing a block does to the ledger and the counters.\<close>

lemma produce_block_cases:
  assumes "write_all lx = (\<lambda>_ _. None)" "produce_block cx lx now order s = (result, s')"
  obtains (again) "va_last_produced_slot s = Some (va_current_slot s)" "result = None" "s' = s"
  | (unencoded) "result = None" "va_ledger s' = va_ledger s" "va_block_height s' = va_block_height s + 1" "va_current_slot s' = va_current_slot s"
      "va_last_produced_slot s \<noteq> Some (va_current_slot s)" "va_last_produced_slot s' = Some (va_current_slot s)"
  | (produced) r p where "result = Some (va_current_slot s, p)" "record_to_json lx r = Some p" "append_record lx r (va_ledger s) = (Inr (), va_ledger s')"
      "bs_records (va_ledger s') = bs_records (va_ledger s) @ [r]" "br_slot r = va_current_slot s" "br_height r = va_block_height s"
      "va_block_height s' = va_block_height s + 1" "va_current_slot s' = va_current_slot s"
      "va_last_produced_slot s \<noteq> Some (va_current_slot s)" "va_last_produced_slot s' = Some (va_current_slot s)"
proof (cases "va_last_produced_slot s = Some (va_current_slot s)")
  case True
  then show ?thesis using again assms(2) by (simp add: produce_block_def Let_def)
next
  case False
  obtain txs mp where d: "drain MAX_TXS_PER_BLOCK (va_mempool s) = (txs, mp)" by fastforce
  obtain entries succeeded ex where e: "run_batches cx order (schedule (enqueue_batch txs default_solana)) 0 0 (va_executor s) = (entries, succeeded, ex)"
    using prod_cases3 by blast
  let ?args = "hasher_current (va_poh s)" and ?root = "compute_state_root cx (ex_db ex)"
  show ?thesis
  proof (cases rule: bs_append_cases[OF assms(1), where now = now and slot = "va_current_slot s" and ht = "va_block_height s" and entries = entries
        and poh = ?args and sroot = ?root and txs = txs and bs = "va_ledger s"])
    case (1 e)
    then show ?thesis using that(2) assms(2) False d e by (auto simp: produce_block_def Let_def)
  next
    case (2 p bs')
    then show ?thesis using that(3) assms(2) False d e by (auto simp: produce_block_def Let_def block_record_new_sel)
  qed
qed

lemma ledger_inv_produce:
  assumes ok: "ledger_json_ok lx" "write_all lx = (\<lambda>_ _. None)" and inv: "ledger_inv lx k n" and k: "k < 2 ^ 64 - 1"
    and run: "produce_block cx lx now order (nd_state n) = (result, s')"
    and fit: "\<And>sl bs. result = Some (sl, bs) \<Longrightarrow> length bs \<le> unat MAX_FRAME_PAYLOAD"
  shows "ledger_inv lx (Suc k) (n\<lparr>nd_state := s', nd_ready := False, nd_emitted := nd_emitted n @ (case result of Some b \<Rightarrow> [b] | None \<Rightarrow> [])\<rparr>)"
proof -
  let ?s = "nd_state n"
  have b: "unat (va_block_height ?s) \<le> k" using inv by (simp add: ledger_inv_def Let_def)
  then have inc: "unat (va_block_height ?s + 1) = unat (va_block_height ?s) + 1" "va_block_height ?s < va_block_height ?s + 1"
    using inc_word[of "va_block_height ?s"] k by simp_all
  have below: "list_all (below_clock ?s) (bs_records (va_ledger ?s))" using inv by (simp add: ledger_inv_def Let_def)
  show ?thesis using ok(2) run
  proof (cases rule: produce_block_cases)
    case again
    then show ?thesis using inv by (simp add: ledger_inv_def Let_def)
  next
    case unencoded
    have "list_all (below_clock s') (bs_records (va_ledger ?s))"
      using below unencoded(3-6) inc(2) by (auto simp: list_all_iff below_clock_def)
    then show ?thesis using inv unencoded(1-4) inc(1) b by (simp add: ledger_inv_def Let_def)
  next
    case (produced r p)
    have strict: "br_slot q < br_slot r \<and> br_height q < br_height r" if "q \<in> set (bs_records (va_ledger ?s))" for q
      using below that produced(5,6,9) by (auto simp: list_all_iff below_clock_def)
    have "bs_open lx (bs_file (va_ledger ?s)) = va_ledger ?s" using inv by (simp add: ledger_inv_def Let_def)
    from ok(1) this produced(3,2) fit[OF produced(1)] have open': "bs_open lx (bs_file (va_ledger s')) = va_ledger s'"
      by (rule append_record_frames)
    have "list_all (below_clock s') (bs_records (va_ledger s'))"
      using below produced(4-10) inc(2) by (auto simp: list_all_iff below_clock_def)
    moreover have "emits lx (va_current_slot ?s, p) r" using produced(2,5) by (simp add: emits_def)
    ultimately show ?thesis using inv open' strict produced(1,4,7,8) inc(1) b
      by (simp add: ledger_inv_def Let_def sorted_wrt_append list_all2_appendI)
  qed
qed

lemma validator_state_new_returns:
  "\<exists>s. validator_state_new lx identity ledger_file accounts mp validators = Returned s \<and> va_ledger s = bs_open lx ledger_file \<and>
     va_current_slot s = fst (resume_point lx (bs_open lx ledger_file)) \<and> va_block_height s = fst (snd (resume_point lx (bs_open lx ledger_file))) \<and>
     va_last_produced_slot s = None"
proof -
  define vs where "vs = (if validators = [] then [\<lparr>vst_validator = identity, vst_lamports = 10000000, vst_name = ''self''\<rparr>] else validators)"
  have "vs \<noteq> []" by (simp add: vs_def)
  then obtain ls where "leader_schedule_new vs 4 432000 = Returned ls" by (simp add: leader_schedule_new_def)
  then show ?thesis unfolding validator_state_new_def Let_def vs_def[symmetric] by (simp split: prod.split)
qed

lemma ledger_inv_restart:
  assumes inv: "ledger_inv lx k n" and k: "k < 2 ^ 64 - 1" and new: "restart_state cx lx cfg (nd_state n) = Returned s'"
  shows "ledger_inv lx (Suc k) (n\<lparr>nd_state := s', nd_ready := False\<rparr>)"
proof -
  let ?s = "nd_state n" and ?rs = "bs_records (va_ledger (nd_state n))"
  have opn: "bs_open lx (bs_file (va_ledger ?s)) = va_ledger ?s" using inv by (simp add: ledger_inv_def Let_def)
  have s': "va_ledger s' = va_ledger ?s" "va_current_slot s' = fst (resume_point lx (va_ledger ?s))"
      "va_block_height s' = fst (snd (resume_point lx (va_ledger ?s)))"
    using validator_state_new_returns[of lx "va_identity ?s" "bs_file (va_ledger ?s)"
        "apply_genesis cx cfg (db_open cx (persist (ex_db (va_executor ?s))))" default_pool "leader_stakes cfg"] new
    unfolding restart_state_def opn by auto
  show ?thesis
  proof (cases "?rs = []")
    case True
    then have "va_current_slot s' = 0" "va_block_height s' = 0" using s' by (simp_all add: resume_point_def bs_last_def)
    then show ?thesis using inv True s'(1) by (simp add: ledger_inv_def Let_def)
  next
    case False
    let ?l = "last ?rs"
    have new': "va_current_slot s' = br_slot ?l + 1" "va_block_height s' = br_height ?l + 1"
      using s' False by (simp_all add: resume_point_def bs_last_def)
    have "below_clock ?s ?l" using inv False by (simp add: ledger_inv_def Let_def list_all_iff)
    then have le: "unat (br_slot ?l) \<le> k" "unat (br_height ?l) \<le> k"
      using inv by (auto simp: ledger_inv_def Let_def below_clock_def word_less_nat_alt)
    then have inc: "unat (br_slot ?l + 1) = unat (br_slot ?l) + 1" "br_slot ?l < br_slot ?l + 1"
        "unat (br_height ?l + 1) = unat (br_height ?l) + 1" "br_height ?l < br_height ?l + 1"
      using inc_word[of "br_slot ?l"] inc_word[of "br_height ?l"] k by simp_all
    have "br_slot r \<le> br_slot ?l \<and> br_height r \<le> br_height ?l" if "r \<in> set ?rs" for r
    proof -
      have split: "?rs = butlast ?rs @ [?l]" using False by simp
      have "sorted_wrt (<) (map br_slot (butlast ?rs @ [?l]))" "sorted_wrt (<) (map br_height (butlast ?rs @ [?l]))"
        using inv False by (simp_all add: ledger_inv_def Let_def)
      moreover have "r \<in> set (butlast ?rs) \<or> r = ?l" using that split by (metis UnE empty_iff insert_iff list.set(1,2) set_append)
      ultimately show ?thesis by (auto simp: sorted_wrt_append)
    qed
    then have "br_slot r < va_current_slot s' \<and> br_height r < va_block_height s'" if "r \<in> set ?rs" for r
      using inc(2,4) new' that by (metis order.strict_trans1)
    then have "list_all (below_clock s') ?rs" by (simp add: list_all_iff below_clock_def)
    then show ?thesis using inv s'(1) new' inc(1,3) le by (simp add: ledger_inv_def Let_def)
  qed
qed

lemma ledger_inv_step:
  assumes ok: "ledger_json_ok lx" "write_all lx = (\<lambda>_ _. None)" and inv: "ledger_inv lx k n" and k: "k < 2 ^ 64 - 1"
    and fit: "emitted_fit (node_step cx lx cfg op n)"
  shows "ledger_inv lx (Suc k) (node_step cx lx cfg op n)"
proof (cases op)
  case N_Tick
  then show ?thesis using ledger_inv_tick[OF inv k] by simp
next
  case (N_Submit now tx)
  then show ?thesis using inv by (auto simp: ledger_inv_def Let_def list_all_iff below_clock_def)
next
  case N_Check
  then show ?thesis using inv by (simp add: ledger_inv_def Let_def)
next
  case (N_Produce now order)
  obtain result s' where p: "produce_block cx lx now order (nd_state n) = (result, s')" by fastforce
  show ?thesis
  proof (cases "nd_ready n")
    case True
    then have st: "node_step cx lx cfg op n = n\<lparr>nd_state := s', nd_ready := False, nd_emitted := nd_emitted n @ (case result of Some b \<Rightarrow> [b] | None \<Rightarrow> [])\<rparr>"
      using N_Produce p by simp
    then have "length bs \<le> unat MAX_FRAME_PAYLOAD" if "result = Some (sl, bs)" for sl bs
      using fit that by (simp add: emitted_fit_def)
    then show ?thesis unfolding st by (rule ledger_inv_produce[OF ok inv k p])
  qed (use N_Produce inv in \<open>simp add: ledger_inv_def Let_def\<close>)
next
  case N_Restart
  obtain s' where "restart_state cx lx cfg (nd_state n) = Returned s'"
    using validator_state_new_returns unfolding restart_state_def by blast
  then show ?thesis using N_Restart ledger_inv_restart[OF inv k] by simp
qed

lemma emitted_fit_step: "emitted_fit (node_step cx lx cfg op n) \<Longrightarrow> emitted_fit n"
  by (cases op) (auto simp: emitted_fit_def split: if_splits prod.splits outcome.splits)

definition node_inv :: "('z) ledger_ext_scheme \<Rightarrow> node_op list \<Rightarrow> node \<Rightarrow> bool" where
  "node_inv lx ops n \<longleftrightarrow>
     (ledger_json_ok lx \<and> write_all lx = (\<lambda>_ _. None) \<and> length ops < 2 ^ 64 \<and> emitted_fit n \<longrightarrow> ledger_inv lx (length ops) n)"

interpretation node_machine: traced_machine "node_step cx lx cfg" "node_inv lx" for cx lx cfg
  using ledger_inv_step emitted_fit_step unfolding node_inv_def by unfold_locales (auto simp: less_Suc_eq)

lemma node_boot_inv:
  assumes "node_boot cx lx cfg identity = Returned n"
  shows "node_inv lx [] n"
proof -
  obtain s where s: "validator_state_new lx identity [] (apply_genesis cx cfg (db_open cx None)) default_pool (leader_stakes cfg) = Returned s"
      "va_ledger s = bs_open lx []" "va_current_slot s = 0" "va_block_height s = 0"
    using validator_state_new_returns[of lx identity "[]"] by (fastforce simp: resume_point_def bs_last_def bs_open_empty)
  then have "n = \<lparr>nd_state = s, nd_ready = False, nd_emitted = []\<rparr>" using assms by (simp add: node_boot_def)
  then show ?thesis using s by (simp add: node_inv_def ledger_inv_def bs_open_empty)
qed

text \<open>
  C2 A validator started on an empty directory, through any interleaving of clock ticks,
  submissions, leadership checks, block productions and restarts, hands on at most one block per
  slot: the slots of the blocks it emits grow, their heights grow, each names the hash of the one
  before as its parent, the ledger holds exactly the emitted blocks, and the ledger file opens to
  that ledger, as long as the disk does not fail, every block fits a frame and the run is shorter
  than the range of the slots.
\<close>

theorem one_block_per_slot:
  assumes "ledger_json_ok lx" "write_all lx = (\<lambda>_ _. None)" "node_boot cx lx cfg identity = Returned n0"
    and "n = fold (node_step cx lx cfg) ops n0" "length ops < 2 ^ 64"
    and "list_all (\<lambda>(_, bs). length bs \<le> unat MAX_FRAME_PAYLOAD) (nd_emitted n)"
  shows "sorted_wrt (<) (map fst (nd_emitted n)) \<and>
    sorted_wrt (<) (map br_height (bs_records (va_ledger (nd_state n)))) \<and>
    chained lx [] (bs_records (va_ledger (nd_state n))) \<and>
    list_all2 (\<lambda>(slot, bs) r. slot = br_slot r \<and> record_to_json lx r = Some bs) (nd_emitted n) (bs_records (va_ledger (nd_state n))) \<and>
    bs_open lx (bs_file (va_ledger (nd_state n))) = va_ledger (nd_state n)"
proof -
  let ?rs = "bs_records (va_ledger (nd_state n))"
  have "node_inv lx ops n" unfolding assms(4) by (rule node_machine.inv_run[OF node_boot_inv[OF assms(3)]])
  then have inv: "ledger_inv lx (length ops) n" using assms by (simp add: node_inv_def emitted_fit_def)
  then have opn: "bs_open lx (bs_file (va_ledger (nd_state n))) = va_ledger (nd_state n)" by (simp add: ledger_inv_def Let_def)
  have c1: "sorted_wrt (<) (map br_height ?rs)" using inv by (simp add: ledger_inv_def Let_def)
  have c2: "chained lx [] ?rs" using bs_open_cases[of lx "bs_file (va_ledger (nd_state n))"] opn by (metis blockstore.select_convs(2))
  have em: "list_all2 (emits lx) (nd_emitted n) ?rs" using inv by (simp add: ledger_inv_def Let_def)
  then have c3: "list_all2 (\<lambda>(slot, bs) r. slot = br_slot r \<and> record_to_json lx r = Some bs) (nd_emitted n) ?rs"
    by (rule list_all2_mono) (auto simp: emits_def)
  have "map fst (nd_emitted n) = map br_slot ?rs" using em
    by (auto intro!: nth_equalityI simp: list_all2_conv_all_nth emits_def)
  then have c4: "sorted_wrt (<) (map fst (nd_emitted n))" using inv by (simp add: ledger_inv_def Let_def)
  show ?thesis using opn c1 c2 c3 c4 by blast
qed

subsection \<open>Replication\<close>

text \<open>Executors that hold the same accounts, wherever their storage has put them.\<close>

definition same_accounts :: "('z) db_ext_scheme \<Rightarrow> executor \<Rightarrow> executor \<Rightarrow> bool" where
  "same_accounts cx ex ex' \<longleftrightarrow> db_inv cx (ex_db ex) \<and> db_inv cx (ex_db ex') \<and> load cx (ex_db ex) = load cx (ex_db ex')"

text \<open>A batch whose transactions declare their writes and leave each other's accounts alone, and an order of its workers.\<close>

definition batch_independent :: "execution_batch \<Rightarrow> bool" where
  "batch_independent b \<longleftrightarrow> list_all declares_writes (transactions b) \<and> Batches.independent (transactions b)"

definition batch_order :: "execution_batch \<Rightarrow> nat list \<Rightarrow> bool" where
  "batch_order b order \<longleftrightarrow> mset order = mset [0..<length (transactions b)]"

lemma execute_batch_agree:
  assumes same: "same_accounts cx ex ex'" and b: "batch_independent b" "batch_order b order" "batch_order b order'"
  shows "fst (execute_batch cx order b ex) = fst (execute_batch cx order' b ex')"
    "same_accounts cx (snd (execute_batch cx order b ex)) (snd (execute_batch cx order' b ex'))"
proof -
  let ?txs = "transactions b"
  have inv: "db_inv cx (ex_db ex)" "db_inv cx (ex_db ex')" and ld: "load cx (ex_db ex) = load cx (ex_db ex')"
    using same by (simp_all add: same_accounts_def)
  have decl: "list_all declares_writes ?txs" "Batches.independent ?txs" using b(1) by (simp_all add: batch_independent_def)
  note c = execute_batch_closed[OF inv(1) decl b(2)[unfolded batch_order_def]]
  note c' = execute_batch_closed[OF inv(2) decl b(3)[unfolded batch_order_def]]
  have tx: "fst (execute_transaction cx tx ex) = fst (execute_transaction cx tx ex') \<and>
      (\<forall>k\<in>tx_writes tx. load cx (ex_db (snd (execute_transaction cx tx ex))) k = load cx (ex_db (snd (execute_transaction cx tx ex'))) k)"
    if "tx \<in> set ?txs" for tx
    using kv_local_agree[OF execute_transaction_local, of tx cx ex ex'] inv ld decl(1) that by (simp add: list_all_iff)
  then show "fst (execute_batch cx order b ex) = fst (execute_batch cx order' b ex')" using c c' by simp
  have "load cx (ex_db (snd (execute_batch cx order b ex))) k = load cx (ex_db (snd (execute_batch cx order' b ex'))) k" for k
  proof (cases "\<exists>tx \<in> set ?txs. k \<in> tx_writes tx")
    case True
    then show ?thesis using c c' tx by metis
  next
    case False
    then show ?thesis using c c' ld by metis
  qed
  moreover have "db_inv cx (ex_db (snd (execute_batch cx order b ex)))" "db_inv cx (ex_db (snd (execute_batch cx order' b ex')))"
    unfolding execute_batch_sel using inv by (simp_all add: execute_in_order_inv)
  ultimately show "same_accounts cx (snd (execute_batch cx order b ex)) (snd (execute_batch cx order' b ex'))"
    by (auto simp: same_accounts_def)
qed

lemma run_batches_agree:
  assumes "list_all (\<lambda>b. batch_independent b \<and> batch_order b (order b) \<and> batch_order b (order' b)) (batches sched)" "same_accounts cx ex ex'"
  shows "\<exists>n m. fst (run_batches cx order sched entries succeeded ex) = n \<and> fst (run_batches cx order' sched entries succeeded ex') = n \<and>
    fst (snd (run_batches cx order sched entries succeeded ex)) = m \<and> fst (snd (run_batches cx order' sched entries succeeded ex')) = m \<and>
    n = entries + of_nat (length (batches sched)) \<and>
    same_accounts cx (snd (snd (run_batches cx order sched entries succeeded ex))) (snd (snd (run_batches cx order' sched entries succeeded ex')))"
  using assms
proof (induction "batches sched" arbitrary: sched entries succeeded ex ex')
  case Nil
  then show ?case by (simp add: run_batches.simps[of cx _ sched] next_batch_def)
next
  case (Cons b bs)
  let ?sched = "sched\<lparr>batches := bs\<rparr>"
  have nb: "next_batch sched = (Some b, ?sched)" using Cons.hyps(2)[symmetric] by (simp add: next_batch_def)
  have b: "batch_independent b" "batch_order b (order b)" "batch_order b (order' b)"
    "list_all (\<lambda>b. batch_independent b \<and> batch_order b (order b) \<and> batch_order b (order' b)) (batches ?sched)"
    using Cons.prems(1) unfolding Cons.hyps(2)[symmetric] by simp_all
  obtain rs ex1 where e: "execute_batch cx (order b) b ex = (rs, ex1)" by fastforce
  obtain rs' ex1' where e': "execute_batch cx (order' b) b ex' = (rs', ex1')" by fastforce
  have ag: "rs = rs'" "same_accounts cx ex1 ex1'"
    using execute_batch_agree[OF Cons.prems(2) b(1-3)] e e' by simp_all
  have step: "run_batches cx order sched entries succeeded ex = run_batches cx order ?sched (entries + 1) (succeeded + of_nat (length (filter tr_success rs))) ex1"
    "run_batches cx order' sched entries succeeded ex' = run_batches cx order' ?sched (entries + 1) (succeeded + of_nat (length (filter tr_success rs))) ex1'"
    using nb e e' ag(1) by (simp_all add: run_batches.simps[of cx _ sched])
  have "bs = batches ?sched" by simp
  from Cons.hyps(1)[OF this b(4) ag(2), of "entries + 1" "succeeded + of_nat (length (filter tr_success rs))"] show ?case
    unfolding step Cons.hyps(2)[symmetric] by (simp add: algebra_simps)
qed

text \<open>What goes into a block: the transactions drained, the batches they are scheduled into, and the state they lead to.\<close>

definition block_txs :: "validator_state \<Rightarrow> transaction list" where
  "block_txs s = fst (drain MAX_TXS_PER_BLOCK (va_mempool s))"

definition block_batches :: "validator_state \<Rightarrow> execution_batch list" where
  "block_batches s = batches (schedule (enqueue_batch (block_txs s) default_solana))"

definition block_run :: "('z) db_ext_scheme \<Rightarrow> (execution_batch \<Rightarrow> nat list) \<Rightarrow> validator_state \<Rightarrow> u64 \<times> u64 \<times> executor" where
  "block_run cx order s = run_batches cx order (schedule (enqueue_batch (block_txs s) default_solana)) 0 0 (va_executor s)"

definition block_record_of ::
    "('y) db_ext_scheme \<Rightarrow> ('z) ledger_ext_scheme \<Rightarrow> u64 \<Rightarrow> (execution_batch \<Rightarrow> nat list) \<Rightarrow> validator_state \<Rightarrow> block_record" where
  "block_record_of cx lx now order s =
     block_record_new lx now (expected_parent (bs_records (va_ledger s))) (va_current_slot s) (va_block_height s)
       (hasher_current (va_poh s)) (fst (block_run cx order s)) (compute_state_root cx (ex_db (snd (snd (block_run cx order s))))) (block_txs s)"

lemma produce_block_effect:
  assumes "va_last_produced_slot s \<noteq> Some (va_current_slot s)"
  shows "va_executor (snd (produce_block cx lx now order s)) = snd (snd (block_run cx order s))"
    "va_mempool (snd (produce_block cx lx now order s)) = snd (drain MAX_TXS_PER_BLOCK (va_mempool s))"
    "va_block_height (snd (produce_block cx lx now order s)) = va_block_height s + 1"
    "bs_records (va_ledger (snd (produce_block cx lx now order s))) = bs_records (va_ledger s) \<or>
     bs_records (va_ledger (snd (produce_block cx lx now order s))) = bs_records (va_ledger s) @ [block_record_of cx lx now order s]"
proof -
  obtain txs mp where d: "drain MAX_TXS_PER_BLOCK (va_mempool s) = (txs, mp)" by fastforce
  obtain entries succeeded ex where e: "run_batches cx order (schedule (enqueue_batch txs default_solana)) 0 0 (va_executor s) = (entries, succeeded, ex)"
    using prod_cases3 by blast
  have txs: "block_txs s = txs" "block_run cx order s = (entries, succeeded, ex)" using d e by (simp_all add: block_txs_def block_run_def)
  let ?r = "block_record_of cx lx now order s"
  obtain r ledger where a: "bs_append lx now (va_current_slot s) (va_block_height s) entries (hasher_current (va_poh s)) (compute_state_root cx (ex_db ex)) txs (va_ledger s) = (r, ledger)"
    by fastforce
  have p: "snd (produce_block cx lx now order s) = s\<lparr>va_mempool := mp, va_executor := ex, va_ledger := ledger,
      va_block_height := va_block_height s + 1, va_last_produced_slot := Some (va_current_slot s)\<rparr>"
    using assms d e a by (simp add: produce_block_def Let_def)
  show "va_executor (snd (produce_block cx lx now order s)) = snd (snd (block_run cx order s))"
    "va_mempool (snd (produce_block cx lx now order s)) = snd (drain MAX_TXS_PER_BLOCK (va_mempool s))"
    "va_block_height (snd (produce_block cx lx now order s)) = va_block_height s + 1"
    unfolding p txs by (simp_all add: d)
  have "?r = block_record_new lx now (expected_parent (bs_records (va_ledger s))) (va_current_slot s) (va_block_height s)
      (hasher_current (va_poh s)) entries (compute_state_root cx (ex_db ex)) txs"
    unfolding block_record_of_def txs by simp
  then have "bs_records ledger = bs_records (va_ledger s) \<or> bs_records ledger = bs_records (va_ledger s) @ [?r]"
    using a by (auto simp: bs_append_def append_record_def Let_def split: if_splits option.splits prod.splits sum.splits)
  then show "bs_records (va_ledger (snd (produce_block cx lx now order s))) = bs_records (va_ledger s) \<or>
     bs_records (va_ledger (snd (produce_block cx lx now order s))) = bs_records (va_ledger s) @ [?r]"
    unfolding p by simp
qed

lemma enqueue_batch_sel: "pending (enqueue_batch txs s) = pending s @ txs" "batches (enqueue_batch txs s) = batches s"
  by (induction txs arbitrary: s) (simp_all add: enqueue_batch_def enqueue_def)

lemma block_batches_independent: "well_declared (block_txs s) \<Longrightarrow> list_all batch_independent (block_batches s)"
  using schedule_independent[of "enqueue_batch (block_txs s) default_solana"]
  by (simp add: enqueue_batch_sel default_solana_def scheduler_new_def block_batches_def list_all_iff batch_independent_def)

text \<open>Two validators at the same point: the same pending transactions, clock, height and head, and the same accounts.\<close>

definition same_position :: "('z) db_ext_scheme \<Rightarrow> validator_state \<Rightarrow> validator_state \<Rightarrow> bool" where
  "same_position cx s t \<longleftrightarrow> va_mempool s = va_mempool t \<and> va_current_slot s = va_current_slot t \<and>
     hasher_current (va_poh s) = hasher_current (va_poh t) \<and> va_block_height s = va_block_height t \<and>
     expected_parent (bs_records (va_ledger s)) = expected_parent (bs_records (va_ledger t)) \<and>
     va_last_produced_slot s = va_last_produced_slot t \<and> same_accounts cx (va_executor s) (va_executor t)"

lemma same_accounts_root: "same_accounts cx ex ex' \<Longrightarrow> compute_state_root cx (ex_db ex) = compute_state_root cx (ex_db ex')"
  by (simp add: same_accounts_def compute_state_root_map)

lemma block_record_of_agree:
  assumes "same_position cx s t"
    and "list_all (\<lambda>b. batch_independent b \<and> batch_order b (order b) \<and> batch_order b (order' b)) (block_batches s)"
  shows "(block_record_of cx lx now order s)\<lparr>timestamp_ms := 0\<rparr> = (block_record_of cx lx now' order' t)\<lparr>timestamp_ms := 0\<rparr>"
    "same_accounts cx (snd (snd (block_run cx order s))) (snd (snd (block_run cx order' t)))"
    "entry_count (block_record_of cx lx now order s) = of_nat (length (block_batches s))"
proof -
  have txs: "block_txs s = block_txs t" using assms(1) by (simp add: block_txs_def same_position_def)
  have same: "same_accounts cx (va_executor s) (va_executor t)" using assms(1) by (simp add: same_position_def)
  obtain n where n: "fst (block_run cx order s) = n" "fst (block_run cx order' t) = n" "n = of_nat (length (block_batches s))"
      "same_accounts cx (snd (snd (block_run cx order s))) (snd (snd (block_run cx order' t)))"
    using run_batches_agree[OF assms(2)[unfolded block_batches_def] same, of 0 0] unfolding block_run_def txs[symmetric] block_batches_def by auto
  show "same_accounts cx (snd (snd (block_run cx order s))) (snd (snd (block_run cx order' t)))" by (rule n(4))
  show "entry_count (block_record_of cx lx now order s) = of_nat (length (block_batches s))"
    using n(1,3) by (simp add: block_record_of_def block_record_new_def Let_def)
  show "(block_record_of cx lx now order s)\<lparr>timestamp_ms := 0\<rparr> = (block_record_of cx lx now' order' t)\<lparr>timestamp_ms := 0\<rparr>"
    using assms(1) n(1,2) txs same_accounts_root[OF n(4)]
    by (simp add: block_record_of_def block_record_new_def Let_def same_position_def)
qed


subsection \<open>Instances\<close>

definition demo_pending :: mempool where
  "demo_pending = default_pool\<lparr>pool := \<lparr>by_hash = [(1, 0), (2, 1)],
     by_seq = [(0, \<lparr>me_hash = 1, me_tx = demo_transfer 5 7, me_fee = 5000, received_at = 0\<rparr>),
               (1, \<lparr>me_hash = 2, me_tx = demo_transfer 6 8, me_fee = 5000, received_at = 0\<rparr>)], next_seq = 2\<rparr>\<rparr>"

definition demo_validator :: validator_state where
  "demo_validator = \<lparr>va_poh = poh_hasher_new 1 4, va_executor = demo_funded, va_mempool = demo_pending, va_tower = tower_new 0,
     va_leader_schedule = demo_schedule, va_current_slot = 4, va_tick_height = 0, va_block_height = 2, va_identity = 2,
     va_last_produced_slot = Some 3, va_ledger = \<lparr>bs_file = [], bs_records = []\<rparr>\<rparr>"

definition demo_twin :: validator_state where
  "demo_twin = demo_validator\<lparr>va_executor := demo_funded\<lparr>total_executed := 9\<rparr>, va_identity := 3\<rparr>"

lemma demo_block_txs: "block_txs demo_validator = [demo_transfer 5 7, demo_transfer 6 8]"
  by (simp add: block_txs_def demo_validator_def demo_pending_def default_pool_def mempool_new_def drain_def MAX_TXS_PER_BLOCK_def
      drain_order_def remove_seq_def omap_remove_def)

lemma demo_block_batches:
  "block_batches demo_validator = [demo_batch]"
  unfolding block_batches_def demo_block_txs
  by (simp add: schedule_def schedule_loop.simps enqueue_batch_def enqueue_def default_solana_def scheduler_new_def build_batch_def Let_def
      schedule_step_def bb_place_def bb_defer_def list_ex_iff demo_batch_def)

lemma demo_well_declared: "well_declared (block_txs demo_validator)"
  by (simp add: demo_block_txs well_declared_def demo_transfer_declares transfer_ix_def fill32_1_large)

lemma demo_block_run: "snd (snd (block_run demo_db order demo_validator)) = snd (execute_batch demo_db (order demo_batch) demo_batch demo_funded)"
proof -
  let ?s = "schedule (enqueue_batch (block_txs demo_validator) default_solana)"
  have b: "batches ?s = [demo_batch]" using demo_block_batches by (simp add: block_batches_def)
  have "va_executor demo_validator = demo_funded" by (simp add: demo_validator_def)
  then show ?thesis
    by (simp add: block_run_def run_batches.simps[of _ _ ?s] run_batches.simps[of _ _ "?s\<lparr>batches := []\<rparr>"] next_batch_def b split_beta)
qed


subsection \<open>Genesis accounts\<close>

lemma db_exists_store: "db_exists (store cx k a db) j \<longleftrightarrow> j = k \<or> db_exists db j"
  by (auto simp: db_exists_def store_def Let_def update_conv)

lemma apply_account_exists: "db_exists (apply_account cx a db) j \<longleftrightarrow> j = ga_pubkey a \<or> db_exists db j"
  by (auto simp: apply_account_def db_exists_store)

lemma apply_accounts_exists: "db_exists (fold (apply_account cx) as db) j \<longleftrightarrow> j \<in> ga_pubkey ` set as \<or> db_exists db j"
  by (induction as arbitrary: db) (auto simp: apply_account_exists)

lemma apply_accounts_id: "(\<And>a. a \<in> set as \<Longrightarrow> db_exists db (ga_pubkey a)) \<Longrightarrow> fold (apply_account cx) as db = db"
  by (induction as) (simp_all add: apply_account_def)

lemma apply_accounts_load:
  "db_inv cx db \<Longrightarrow> db_inv cx (fold (apply_account cx) as db) \<and>
   (db_exists db j \<longrightarrow> load cx (fold (apply_account cx) as db) j = load cx db j)"
proof (induction as arbitrary: db)
  case (Cons a as)
  have "db_inv cx (apply_account cx a db)" using Cons.prems by (simp add: apply_account_def db_inv_store)
  moreover have "load cx (apply_account cx a db) j = load cx db j" if "db_exists db j"
    using that Cons.prems by (auto simp: apply_account_def load_store)
  ultimately show ?case using Cons.IH[of "apply_account cx a db"] by (simp add: apply_account_exists)
qed simp

lemma apply_accounts_new:
  "db_inv cx db \<Longrightarrow> distinct (map ga_pubkey as) \<Longrightarrow> a \<in> set as \<Longrightarrow> \<not> db_exists db (ga_pubkey a) \<Longrightarrow>
   load cx (fold (apply_account cx) as db) (ga_pubkey a) = Some (new_system_account (ga_pubkey a) (ga_lamports a))"
proof (induction as arbitrary: db)
  case (Cons c as)
  have inv: "db_inv cx (apply_account cx c db)" using Cons.prems(1) by (simp add: apply_account_def db_inv_store)
  show ?case
  proof (cases "a = c")
    case True
    then have "load cx (apply_account cx c db) (ga_pubkey a) = Some (new_system_account (ga_pubkey a) (ga_lamports a))"
      using Cons.prems(1,4) by (simp add: apply_account_def load_store)
    moreover have "db_exists (apply_account cx c db) (ga_pubkey a)" using True by (simp add: apply_account_exists)
    ultimately show ?thesis using apply_accounts_load[OF inv] by simp
  next
    case False
    then have mem: "a \<in> set as" using Cons.prems(3) by simp
    from imageI[OF mem, of ga_pubkey] have "ga_pubkey a \<noteq> ga_pubkey c" using Cons.prems(2) by auto
    with mem have "a \<in> set as" "\<not> db_exists (apply_account cx c db) (ga_pubkey a)" using Cons.prems(4) by (simp_all add: apply_account_exists)
    then show ?thesis using Cons.IH[OF inv] Cons.prems(2) by simp
  qed
qed simp

text \<open>
  C39 Applying the genesis creates the accounts that are missing, with their funds, and touches no
  other; applying it again changes nothing; and a restart, which reads the accounts log and
  applies the genesis, finds the accounts as they were before it.
\<close>

theorem genesis_applied_once:
  assumes "json_ok cx" "file_ok cx" "live cx db" "distinct (map ga_pubkey (genesis_accounts cfg))"
  shows "apply_genesis cx cfg (apply_genesis cx cfg db) = apply_genesis cx cfg db \<and>
    (a \<in> set (genesis_accounts cfg) \<longrightarrow> load cx db (ga_pubkey a) = None \<longrightarrow>
      load cx (apply_genesis cx cfg db) (ga_pubkey a) = Some (new_system_account (ga_pubkey a) (ga_lamports a))) \<and>
    (load cx db k = Some x \<longrightarrow> load cx (apply_genesis cx cfg db) k = Some x) \<and>
    (list_all (\<lambda>a. load cx db (ga_pubkey a) \<noteq> None) (genesis_accounts cfg) \<longrightarrow>
      load cx (apply_genesis cx cfg (db_open cx (persist db))) = load cx db)"
proof -
  obtain ops where ops: "logged cx db ops" using live_logged[OF assms(1-3)] by blast
  then have inv: "db_inv cx db" by (simp add: logged_def)
  have re: "logged cx (db_open cx (persist db)) ops" using logged_reopen[OF assms(1) ops] .
  then have same: "load cx (db_open cx (persist db)) = load cx db" and inv': "db_inv cx (db_open cx (persist db))"
    using ops by (simp_all add: logged_def)
  have c1: "apply_genesis cx cfg (apply_genesis cx cfg db) = apply_genesis cx cfg db"
    unfolding apply_genesis_def by (rule apply_accounts_id) (simp add: apply_accounts_exists)
  have c2: "load cx (apply_genesis cx cfg db) (ga_pubkey a) = Some (new_system_account (ga_pubkey a) (ga_lamports a))"
    if "a \<in> set (genesis_accounts cfg)" "load cx db (ga_pubkey a) = None"
    unfolding apply_genesis_def using apply_accounts_new[OF inv assms(4) that(1)] that(2) by (simp add: db_exists_load[OF inv])
  have c3: "load cx (apply_genesis cx cfg db) k = Some x" if "load cx db k = Some x"
    unfolding apply_genesis_def using apply_accounts_load[OF inv] that by (simp add: db_exists_load[OF inv])
  have c4: "load cx (apply_genesis cx cfg (db_open cx (persist db))) = load cx db"
    if "list_all (\<lambda>a. load cx db (ga_pubkey a) \<noteq> None) (genesis_accounts cfg)"
  proof -
    have "apply_genesis cx cfg (db_open cx (persist db)) = db_open cx (persist db)"
      unfolding apply_genesis_def using that same by (intro apply_accounts_id) (simp add: db_exists_load[OF inv'] list_all_iff)
    then show ?thesis using same by simp
  qed
  show ?thesis using c1 c2 c3 c4 by blast
qed

theorem genesis_applied_once_witness:
  "let cfg = \<lparr>cluster = [], genesis_accounts = [\<lparr>ga_pubkey = 1, ga_lamports = 5\<rparr>], genesis_validators = []\<rparr>; db = db_open demo_db None in
   load demo_db (apply_genesis demo_db cfg db) 1 = Some (new_system_account 1 5) \<and>
   apply_genesis demo_db cfg (apply_genesis demo_db cfg db) = apply_genesis demo_db cfg db"
proof -
  let ?cfg = "\<lparr>cluster = [], genesis_accounts = [\<lparr>ga_pubkey = 1, ga_lamports = 5\<rparr>], genesis_validators = []\<rparr>"
  have "live demo_db (db_open demo_db None)" by (intro live.intros)
  note f = genesis_applied_once[OF demo_db_ok this, where cfg = ?cfg]
  have "load demo_db (db_open demo_db None) 1 = None" by (simp add: db_open_def load_def db_new_def)
  then show ?thesis using f[where a = "\<lparr>ga_pubkey = 1, ga_lamports = 5\<rparr>" and k = 1 and x = "new_system_account 1 5"] by (simp add: Let_def)
qed

subsection \<open>A produced block\<close>

lemma single_leader:
  assumes "leader_schedule_new [v] a b = Returned ls" "0 < b" "b < 2 ^ 50"
  shows "is_leader (vst_validator v) slot ls = Returned True"
proof -
  have s: "scheduled [v] b ls" using leader_schedule_new_scheduled[OF assms(1)] .
  have "unat b < 2 ^ 50" "0 < unat b" using assms(2,3) by (simp_all add: word_less_nat_alt)
  then have "length (ls_schedule ls) = unat b" "ls_schedule ls \<noteq> []"
    using scheduled_length[OF s] unsigned_less[of "vst_lamports v", where 'a = nat] by auto
  then show ?thesis using scheduled_leader[OF s, of slot] by (auto simp: is_leader_def)
qed

definition demo_genesis :: genesis_config where
  "demo_genesis = \<lparr>cluster = [], genesis_accounts = [], genesis_validators = []\<rparr>"

definition demo_first_block :: block_record where
  "demo_first_block = block_record_new demo_crypto 5 GENESIS_PARENT 0 0 (poh_from_seed demo_crypto ''genesis'') 0
     (compute_state_root demo_db (db_open demo_db None)) []"

definition demo_node_ledger :: ledger_ext where
  "demo_node_ledger = crypto.extend demo_crypto
     (ledger_ext.fields (\<lambda>r. if r = demo_first_block then Some [9] else None) (\<lambda>_. Some demo_first_block) (\<lambda>_ _. None))"

lemma demo_node_ledger_simps [simp]:
  "record_to_json demo_node_ledger = (\<lambda>r. if r = demo_first_block then Some [9] else None)"
  "record_from_json demo_node_ledger = (\<lambda>_. Some demo_first_block)" "write_all demo_node_ledger = (\<lambda>_ _. None)"
  "sha256 demo_node_ledger = sha256 demo_crypto"
  by (simp_all add: demo_node_ledger_def crypto.defs ledger_ext.defs)

lemma demo_first_block_new:
  "block_record_new demo_node_ledger 5 GENESIS_PARENT 0 0 (poh_from_seed demo_node_ledger ''genesis'') 0
     (compute_state_root demo_db (db_open demo_db None)) [] = demo_first_block"
  by (simp add: demo_first_block_def block_record_new_def Let_def br_compute_hash_def br_message_def poh_from_seed_def)

lemma demo_node_boot:
  "\<exists>n0. node_boot demo_db demo_node_ledger demo_genesis 3 = Returned n0 \<and>
     nd_emitted (fold (node_step demo_db demo_node_ledger demo_genesis) [N_Check, N_Produce 5 (\<lambda>_. []), N_Tick] n0) = [(0, [9])]"
proof -
  define v where "v = \<lparr>vst_validator = (3 :: pubkey), vst_lamports = (10000000 :: u64), vst_name = ''self''\<rparr>"
  obtain ls where ls: "leader_schedule_new [v] 4 432000 = Returned ls" by (simp add: leader_schedule_new_def)
  define s where "s = \<lparr>va_poh = poh_hasher_new (poh_from_seed demo_node_ledger ''genesis'') 0, va_executor = executor_new (db_open demo_db None),
    va_mempool = default_pool, va_tower = tower_new 0, va_leader_schedule = ls, va_current_slot = 0, va_tick_height = 0, va_block_height = 0,
    va_identity = 3, va_last_produced_slot = None, va_ledger = \<lparr>bs_file = [], bs_records = []\<rparr>\<rparr>"
  have boot: "node_boot demo_db demo_node_ledger demo_genesis 3 = Returned \<lparr>nd_state = s, nd_ready = False, nd_emitted = []\<rparr>"
    using ls by (simp add: node_boot_def validator_state_new_def Let_def demo_genesis_def leader_stakes_def v_def bs_open_empty resume_point_def
        bs_last_def apply_genesis_def s_def)
  have "(0 :: u64) < 432000" "(432000 :: u64) < 2 ^ 50" by simp_all
  from single_leader[OF ls this, of 0] have lead: "va_is_leader s = Returned True" by (simp add: va_is_leader_def s_def v_def)
  have txs: "drain MAX_TXS_PER_BLOCK (va_mempool s) = ([], default_pool)"
    by (simp add: s_def drain_def default_pool_def mempool_new_def inner_new_def)
  have sched: "run_batches demo_db (\<lambda>_. []) (schedule (enqueue_batch [] default_solana)) 0 0 (va_executor s) = (0, 0, va_executor s)"
    by (simp add: run_batches.simps next_batch_def schedule_def schedule_loop.simps enqueue_batch_def default_solana_def scheduler_new_def)
  have "fst (produce_block demo_db demo_node_ledger 5 (\<lambda>_. []) s) = Some (0, [9])"
    using txs sched demo_first_block_new
    by (simp add: produce_block_def Let_def bs_append_def append_record_def block_record_new_sel(3,4) s_def poh_hasher_new_def expected_parent_def
        executor_new_def) (simp add: demo_first_block_def block_record_new_sel)
  then show ?thesis using boot lead by (simp add: split_beta)
qed

theorem one_block_per_slot_witness:
  "\<exists>n :: node. nd_emitted n = [(0, [9])] \<and> sorted_wrt (<) (map fst (nd_emitted n)) \<and>
     chained demo_node_ledger [] (bs_records (va_ledger (nd_state n))) \<and>
     bs_open demo_node_ledger (bs_file (va_ledger (nd_state n))) = va_ledger (nd_state n)"
proof -
  let ?ops = "[N_Check, N_Produce 5 (\<lambda>_. []), N_Tick]"
  obtain n0 where n0: "node_boot demo_db demo_node_ledger demo_genesis 3 = Returned n0"
      "nd_emitted (fold (node_step demo_db demo_node_ledger demo_genesis) ?ops n0) = [(0, [9])]"
    using demo_node_boot by blast
  have ok: "ledger_json_ok demo_node_ledger" by (simp add: ledger_json_ok_def)
  have "length ?ops < 2 ^ 64"
    "list_all (\<lambda>(_, bs). length bs \<le> unat MAX_FRAME_PAYLOAD) (nd_emitted (fold (node_step demo_db demo_node_ledger demo_genesis) ?ops n0))"
    unfolding n0(2) by (simp_all add: MAX_FRAME_PAYLOAD_def)
  note f = one_block_per_slot[OF ok demo_node_ledger_simps(3) n0(1) refl this]
  show ?thesis using n0(2) f by blast
qed

subsection \<open>Where production falls short\<close>

text \<open>
  The check of leadership and the production take the lock one after the other: a tick in between
  moves the clock into another leader's slot, and the block is produced for that slot.
\<close>

lemma out_of_turn_block:
  assumes "va_is_leader (nd_state n) = Returned True" "va_is_leader (process_tick lx (nd_state n)) = Returned False"
    and "produce_block cx lx now order (process_tick lx (nd_state n)) = (Some b, s')"
  shows "nd_emitted (fold (node_step cx lx cfg) [N_Check, N_Tick, N_Produce now order] n) = nd_emitted n @ [b]"
  using assms by simp

text \<open>
  When the ledger refuses the block, its transactions are gone from the pool, their effects stay
  in the accounts, and the height is raised all the same.
\<close>

lemma refused_block_keeps_effects:
  assumes "va_last_produced_slot s \<noteq> Some (va_current_slot s)"
    and "bs_append lx now (va_current_slot s) (va_block_height s) (fst (block_run cx order s)) (hasher_current (va_poh s))
      (compute_state_root cx (ex_db (snd (snd (block_run cx order s))))) (block_txs s) (va_ledger s) = (Inl e, ledger)"
  shows "produce_block cx lx now order s = (None, s\<lparr>va_mempool := snd (drain MAX_TXS_PER_BLOCK (va_mempool s)),
    va_executor := snd (snd (block_run cx order s)), va_ledger := ledger, va_block_height := va_block_height s + 1,
    va_last_produced_slot := Some (va_current_slot s)\<rparr>)"
  using assms by (simp add: produce_block_def Let_def block_run_def block_txs_def split_beta)

end
