(* ===== verification/Network.thy ===== *)
theory Network
  imports Net Gossip Turbine Validator
begin

text \<open>
  The wiring of the sockets (\<^verbatim>\<open>validator/src/network.rs\<close>) and the parsing of peers and identities on
  the command line (\<^verbatim>\<open>validator/src/main.rs\<close>). Each background task is the function that one turn
  of its loop computes: the new state of the protocol it drives, and the datagrams it sends. The
  parsers of the linked crates, the file system and the random seed are parameters.
\<close>

subsection \<open>Addresses\<close>

datatype ip_addr = V4 "u8 list" | V6 "u16 list"

record net_addr =
  na_ip :: ip_addr
  na_port :: u16

definition to_socket_addr :: "socket_addr \<Rightarrow> net_addr" where
  "to_socket_addr a = \<lparr>na_ip = V4 (sa_ip a), na_port = sa_port a\<rparr>"

definition to_gossip_addr :: "net_addr \<Rightarrow> socket_addr" where
  "to_gossip_addr a =
     (case na_ip a of
        V4 octets \<Rightarrow> \<lparr>sa_ip = octets, sa_port = na_port a\<rparr>
      | V6 _ \<Rightarrow> \<lparr>sa_ip = [0, 0, 0, 0], sa_port = na_port a\<rparr>)"

definition is_unspecified :: "ip_addr \<Rightarrow> bool" where
  "is_unspecified ip = (case ip of V4 octets \<Rightarrow> octets = [0, 0, 0, 0] | V6 segments \<Rightarrow> segments = replicate 8 0)"

subsection \<open>Start\<close>

definition self_contact :: "u64 \<Rightarrow> pubkey \<Rightarrow> net_addr \<Rightarrow> net_addr \<Rightarrow> u16 \<Rightarrow> contact_info" where
  "self_contact now identity gossip_addr tpu_addr rpc_port =
     \<lparr>ci_pubkey = identity, ci_gossip = to_gossip_addr gossip_addr, ci_tpu = to_gossip_addr tpu_addr,
      ci_rpc = \<lparr>sa_ip = [127, 0, 0, 1], sa_port = rpc_port\<rparr>, ci_tvu = to_gossip_addr tpu_addr, ci_stake = 1,
      ci_version = ''0.1.0'', ci_wallclock = now\<rparr>"

definition seeded_crds :: "contact_info \<Rightarrow> contact_info list \<Rightarrow> crds" where
  "seeded_crds me peers = fold insert_contact peers (insert_contact me (set_self_info me default_store))"

record network =
  nw_protocol :: gossip_protocol
  nw_propagator :: propagator

definition network_start ::
    "('z) gossip_ext_scheme \<Rightarrow> u64 \<Rightarrow> pubkey \<Rightarrow> hash32 \<Rightarrow> net_addr \<Rightarrow> net_addr \<Rightarrow> u16 \<Rightarrow> contact_info list \<Rightarrow> network outcome" where
  "network_start cx now identity signing_key gossip_addr tpu_addr rpc_port peers =
     (let me = self_contact now identity gossip_addr tpu_addr rpc_port
      in case build_tree [(identity, 1)] 1 of
           Panicked \<Rightarrow> Panicked
         | Returned nb \<Rightarrow>
             Returned \<lparr>nw_protocol = gossip_new cx signing_key (seeded_crds me peers),
                       nw_propagator = with_signer signing_key (propagator_new identity nb)\<rparr>)"

subsection \<open>Tasks\<close>

definition ping_peers :: "('z) gossip_ext_scheme \<Rightarrow> u64 \<Rightarrow> (contact_info \<times> u64) list \<Rightarrow> gossip_protocol \<Rightarrow> gossip_protocol" where
  "ping_peers cx now peer_nonces p = fold (\<lambda>(peer, nonce). send_ping cx now nonce peer) peer_nonces p"

definition gossip_receive :: "('z) gossip_ext_scheme \<Rightarrow> shuffle \<Rightarrow> u64 \<Rightarrow> ('io net_error + net_message \<times> 'peer) \<Rightarrow> gossip_protocol \<Rightarrow> gossip_protocol" where
  "gossip_receive cx shuffle now got p =
     (case got of
        Inr (Net_Gossip msg, _) \<Rightarrow> handle_message cx shuffle now msg p
      | Inr (Net_Shred _, _) \<Rightarrow> p
      | Inl _ \<Rightarrow> p)"

text \<open>The datagrams sent for one message of the channel.\<close>

definition gossip_fan_out :: "net_ext \<Rightarrow> pubkey \<Rightarrow> gossip_message \<Rightarrow> crds \<Rightarrow> (bytes \<times> net_addr) list" where
  "gossip_fan_out nx identity msg c =
     (case net_encode nx (Net_Gossip msg) :: unit net_error + bytes of
        Inl _ \<Rightarrow> []
      | Inr bs \<Rightarrow>
          List.map_filter (\<lambda>contact.
            let addr = to_socket_addr (ci_gossip contact)
            in if ci_pubkey contact = identity then None
               else if is_unspecified (na_ip addr) then None
               else Some (bs, addr)) (contacts c))"

definition tpu_receive :: "('z) crypto_scheme \<Rightarrow> u64 \<Rightarrow> ('io net_error + net_message \<times> 'peer) \<Rightarrow> propagator \<Rightarrow> propagator" where
  "tpu_receive cx now got p =
     (case got of
        Inr (Net_Shred s, _) \<Rightarrow> snd (receive_shred cx now s (fill32 0) p)
      | Inr (Net_Gossip _, _) \<Rightarrow> p
      | Inl _ \<Rightarrow> p)"

text \<open>The shreds sent for one message of the channel, and where to.\<close>

definition tpu_send :: "bytes \<times> shred list \<Rightarrow> crds \<Rightarrow> (net_message \<times> net_addr) list" where
  "tpu_send m c =
     (if length (fst m) \<noteq> 32 then []
      else case find (\<lambda>contact. ci_pubkey contact = of_bytes32 (fst m)) (contacts c) of
             None \<Rightarrow> []
           | Some contact \<Rightarrow> map (\<lambda>s. (Net_Shred s, to_socket_addr (ci_tpu contact))) (snd m))"

subsection \<open>The slot clock and the producer\<close>

text \<open>
  The loops of \<^verbatim>\<open>main\<close> that share the propagator: every tick drops the shreds of slots long past,
  and a produced block is handed to Turbine.
\<close>

definition SHRED_RETENTION_SLOTS :: u64 where
  "SHRED_RETENTION_SLOTS = 128"

definition poh_turn :: "('z) ledger_ext_scheme \<Rightarrow> validator_state \<times> propagator \<Rightarrow> validator_state \<times> propagator" where
  "poh_turn lx sp =
     (let s = process_tick lx (fst sp); slot = va_current_slot s
      in (s, if slot mod 64 = 0 then snd (prune_slots_below (slot - min slot SHRED_RETENTION_SLOTS) (snd sp)) else snd sp))"

definition mining_turn ::
    "('y) db_ext_scheme \<Rightarrow> ('z) ledger_ext_scheme \<Rightarrow> u64 \<Rightarrow> (execution_batch \<Rightarrow> nat list) \<Rightarrow> validator_state \<times> propagator \<Rightarrow>
     (validator_state \<times> propagator) outcome" where
  "mining_turn cx lx now order sp =
     (case va_is_leader (fst sp) of
        Panicked \<Rightarrow> Panicked
      | Returned should_produce \<Rightarrow>
          (if \<not> should_produce then Returned sp
           else case produce_block cx lx now order (fst sp) of
                  (None, s) \<Rightarrow> Returned (s, snd sp)
                | (Some (slot, block), s) \<Rightarrow> map_outcome (Pair s) (propagate_block cx block slot (snd sp))))"

subsection \<open>The command line\<close>

record cli_ext =
  cli_hex_decode :: "string \<Rightarrow> string + bytes"
  cli_parse_addr :: "string \<Rightarrow> string + net_addr"
  cli_read_file :: "string \<Rightarrow> (string + string) option" \<comment> \<open>none where the path is no file\<close>
  cli_json_bytes :: "string \<Rightarrow> string + bytes"

definition split_once :: "char \<Rightarrow> string \<Rightarrow> (string \<times> string) option" where
  "split_once c s = (if c \<in> set s then Some (takeWhile (\<lambda>x. x \<noteq> c) s, tl (dropWhile (\<lambda>x. x \<noteq> c) s)) else None)"

definition first32 :: "bytes \<Rightarrow> hash32 option" where
  "first32 bs = (if 32 \<le> length bs then Some (of_bytes32 (take 32 bs)) else None)"

definition parse_peer :: "cli_ext \<Rightarrow> string \<Rightarrow> string + contact_info" where
  "parse_peer px spec =
     (let peer = ''peer '' @ [CHR 0x27] @ spec @ [CHR 0x27] in
      case split_once (CHR ''@'') spec of
        None \<Rightarrow> Inl (peer @ '' must look like <pubkey_hex>@<ip:port>'')
      | Some (key_hex, addr_str) \<Rightarrow>
          (case cli_hex_decode px key_hex of
             Inl e \<Rightarrow> Inl (peer @ '' has bad pubkey hex: '' @ e)
           | Inr key_bytes \<Rightarrow>
               (case first32 key_bytes of
                  None \<Rightarrow> Inl (peer @ '' pubkey must be 32 bytes'')
                | Some pk \<Rightarrow>
                    (case cli_parse_addr px addr_str of
                       Inl e \<Rightarrow> Inl (peer @ '' has bad address: '' @ e)
                     | Inr addr \<Rightarrow>
                         (case na_ip addr of
                            V6 _ \<Rightarrow> Inl (peer @ '' must use an IPv4 address'')
                          | V4 ip \<Rightarrow>
                              Inr \<lparr>ci_pubkey = pk, ci_gossip = \<lparr>sa_ip = ip, sa_port = na_port addr\<rparr>,
                                   ci_tpu = \<lparr>sa_ip = ip, sa_port = na_port addr\<rparr>, ci_rpc = \<lparr>sa_ip = ip, sa_port = 0\<rparr>,
                                   ci_tvu = \<lparr>sa_ip = ip, sa_port = na_port addr\<rparr>, ci_stake = 0, ci_version = ''peer'',
                                   ci_wallclock = 0\<rparr>)))))"

definition load_identity :: "cli_ext \<Rightarrow> hash32 \<Rightarrow> string \<Rightarrow> string + hash32" where
  "load_identity px random_seed spec =
     (if spec = [] then Inr random_seed
      else case cli_read_file px spec of
        Some (Inl e) \<Rightarrow> Inl (''failed to read identity file '' @ spec @ '': '' @ e)
      | Some (Inr contents) \<Rightarrow>
          (case cli_json_bytes px contents of
             Inl e \<Rightarrow> Inl (''identity file '' @ spec @ '' is not a JSON byte array: '' @ e)
           | Inr bs \<Rightarrow>
               (case first32 bs of
                  None \<Rightarrow> Inl (''identity file '' @ spec @ '' must hold at least 32 bytes'')
                | Some seed \<Rightarrow> Inr seed))
      | None \<Rightarrow>
          (case cli_hex_decode px spec of
             Inl e \<Rightarrow> Inl (''--identity is neither a readable file nor valid hex: '' @ e)
           | Inr bs \<Rightarrow>
               (case first32 bs of
                  None \<Rightarrow> Inl (''--identity hex must be at least 32 bytes'')
                | Some seed \<Rightarrow> Inr seed)))"

subsection \<open>From node to node\<close>

lemma gossip_fan_out_iff:
  "(bs, addr) \<in> set (gossip_fan_out nx identity msg c) \<longleftrightarrow>
     net_encode nx (Net_Gossip msg) = (Inr bs :: unit net_error + bytes) \<and>
     (\<exists>contact \<in> set (contacts c). ci_pubkey contact \<noteq> identity \<and> addr = to_socket_addr (ci_gossip contact) \<and> \<not> is_unspecified (na_ip addr))"
proof -
  have f: "(\<lambda>contact. let addr = to_socket_addr (ci_gossip contact)
            in if ci_pubkey contact = identity then None else if is_unspecified (na_ip addr) then None else Some (bs', addr)) =
      (\<lambda>contact. if ci_pubkey contact \<noteq> identity \<and> \<not> is_unspecified (na_ip (to_socket_addr (ci_gossip contact)))
            then Some (bs', to_socket_addr (ci_gossip contact)) else None)" for bs' :: bytes
    by (auto simp: fun_eq_iff Let_def)
  show ?thesis unfolding gossip_fan_out_def f by (auto simp: List.map_filter_def split: sum.split)
qed

text \<open>What a node puts on the wire for a message is what the other end hands to its protocol.\<close>

lemma gossip_delivered:
  fixes events :: "(unit + bytes \<times> 'peer) list"
  assumes "net_json_ok nx" "(bs, addr) \<in> set (gossip_fan_out nx identity msg c)"
  shows "recv nx (Inr (bs, peer) # events) = Some (Inr (Net_Gossip msg, peer), events)"
    "gossip_receive cx shuffle now (Inr (Net_Gossip msg, peer) :: unit net_error + net_message \<times> 'peer) p = handle_message cx shuffle now msg p"
proof -
  have e: "net_encode nx (Net_Gossip msg) = (Inr bs :: unit net_error + bytes)" using assms(2) by (simp add: gossip_fan_out_iff)
  show "recv nx (Inr (bs, peer) # events) = Some (Inr (Net_Gossip msg, peer), events)"
    using net_decode_encode[OF assms(1) e] by simp
qed (simp add: gossip_receive_def)

text \<open>
  A node that binds the wildcard address advertises the wildcard address, and a node that has
  learnt it sends nothing there.
\<close>

lemma wildcard_contact_unreachable:
  assumes "na_ip gossip_addr = V4 [0, 0, 0, 0]" "contacts c = [self_contact now identity gossip_addr tpu_addr rpc_port]"
  shows "gossip_fan_out nx other msg c = []"
proof -
  have "(bs, addr) \<notin> set (gossip_fan_out nx other msg c)" for bs addr
    using assms by (simp add: gossip_fan_out_iff self_contact_def to_gossip_addr_def to_socket_addr_def is_unspecified_def)
  then show ?thesis by (metis list.set_intros(1) neq_Nil_conv surj_pair)
qed

text \<open>The Turbine tree holds the node alone, so that a produced block is sent to nobody.\<close>

lemma lone_tree_sends_nothing:
  assumes "network_start cx now identity key gossip_addr tpu_addr rpc_port peers = Returned nw"
    and "propagate_block cx block slot (nw_propagator nw) = Returned p"
  shows "tp_sent p = []"
proof -
  let ?node = "\<lparr>tn_validator = identity, tn_stake = 1, tn_depth = 0, tn_index = 0, tn_parent = None, tn_children = []\<rparr>"
  have "build_tree [(identity, 1)] 1 = Returned \<lparr>nb_root = ?node, nb_nodes = [?node], nb_depth = 0\<rparr>"
    by (simp add: build_tree_def sort_by_stake_def Let_def)
  then have nw: "nw_propagator nw = with_signer key (propagator_new identity \<lparr>nb_root = ?node, nb_nodes = [?node], nb_depth = 0\<rparr>)"
    using assms(1) by (auto simp: network_start_def)
  then show ?thesis using assms(2)
    by (auto simp: propagate_block_def nb_neighbors_def with_signer_def propagator_new_def Let_def split: outcome.splits)
qed

text \<open>The clock never drops a shred of the last 128 slots.\<close>

lemma poh_turn_keeps_recent:
  assumes "unat (va_current_slot (fst (poh_turn lx sp))) \<le> unat sl + 128"
  shows "slot_shreds sl (snd (poh_turn lx sp)) = slot_shreds sl (snd sp)"
proof -
  let ?slot = "va_current_slot (process_tick lx (fst sp))"
  have "unat ?slot \<le> unat sl + 128" using assms by (simp add: poh_turn_def Let_def)
  then have "\<not> sl < ?slot - min ?slot SHRED_RETENTION_SLOTS"
    by (auto simp: SHRED_RETENTION_SLOTS_def min_def word_less_nat_alt word_le_nat_alt unat_sub)
  then show ?thesis by (simp add: poh_turn_def Let_def prune_slots_below_buffer)
qed

text \<open>A key longer than 32 bytes is cut to 32, though the error text asks for exactly 32.\<close>

lemma long_key_accepted: "32 \<le> length bs \<Longrightarrow> first32 bs = Some (of_bytes32 (take 32 bs))"
  by (simp add: first32_def)

lemma parse_peer_spec:
  assumes "CHR ''@'' \<notin> set key_hex" "cli_hex_decode px key_hex = Inr (bytes32 pk)" "cli_parse_addr px addr_str = Inr \<lparr>na_ip = V4 ip, na_port = port\<rparr>"
  shows "\<exists>ci. parse_peer px (key_hex @ CHR ''@'' # addr_str) = Inr ci \<and> ci_pubkey ci = pk \<and> ci_gossip ci = \<lparr>sa_ip = ip, sa_port = port\<rparr>"
proof -
  have "takeWhile (\<lambda>x. x \<noteq> CHR ''@'') (key_hex @ CHR ''@'' # addr_str) = key_hex"
    "dropWhile (\<lambda>x. x \<noteq> CHR ''@'') (key_hex @ CHR ''@'' # addr_str) = CHR ''@'' # addr_str"
    using assms(1) by (induction key_hex) auto
  then have "split_once (CHR ''@'') (key_hex @ CHR ''@'' # addr_str) = Some (key_hex, addr_str)" by (simp add: split_once_def)
  then show ?thesis using assms(2,3) by (simp add: parse_peer_def Let_def first32_def)
qed

end
