(* ===== verification/Spec2Isabelle.thy ===== *)
theory Spec2Isabelle
  imports AccountsLog Batches Locks Mempool PoH Blockstore Tower Leader ForkChoice Turbine Gossip Net Rpc Validator Network
begin

text \<open>
  TrustNode is a small validator for a Solana-like chain, a workspace of Rust crates under
  \<^verbatim>\<open>src/crates\<close> and a binary under \<^verbatim>\<open>src/validator\<close>. This development models the crates as
  executable HOL functions over explicit states and proves what each promises, alone and in
  the composition the binary makes of them.

  \<^bold>\<open>How the parts work together.\<close> A client sends a transaction to the RPC handler (\<^verbatim>\<open>crates/rpc\<close>),
  which parks it in the pool (\<^verbatim>\<open>crates/mempool\<close>). The slot clock hashes on (\<^verbatim>\<open>crates/poh\<close>); when
  the leader schedule (\<^verbatim>\<open>crates/consensus\<close>) names the node, the producer
  (\<^verbatim>\<open>validator/src/main.rs\<close>) drains the pool, packs the transactions into conflict-free batches and
  executes them (\<^verbatim>\<open>crates/tx-processor\<close>, calling the native programs of
  \<^verbatim>\<open>crates/program-executor\<close> on the accounts database \<^verbatim>\<open>crates/accounts\<close>), appends the block with
  the new state root to the ledger (\<^verbatim>\<open>crates/blockstore\<close>), and hands it to Turbine
  (\<^verbatim>\<open>crates/turbine\<close>), which cuts it into erasure-coded, signed shreds. Votes are counted by the
  tower (\<^verbatim>\<open>crates/consensus\<close>); contact information and votes spread by gossip (\<^verbatim>\<open>crates/gossip\<close>);
  shreds and gossip travel in the datagrams of \<^verbatim>\<open>crates/net\<close>.

  \<^bold>\<open>Conventions.\<close> A struct is a \<^theory_text>\<open>record\<close>, an enum a \<^theory_text>\<open>datatype\<close>, an operation a function that
  returns its result with the new state. \<^verbatim>\<open>u8\<close> to \<^verbatim>\<open>u64\<close> are words of their width, so that
  arithmetic wraps as in a release build; \<^verbatim>\<open>usize\<close> is \<^typ>\<open>nat\<close>; \<^verbatim>\<open>[u8; 32]\<close> is a 256-bit word.
  \<^verbatim>\<open>Result\<close> is a sum with the error on the left, a panic the value \<^const>\<open>Panicked\<close> of
  \<^typ>\<open>'a outcome\<close>. Hash maps are association lists, whose order stands for the unspecified
  iteration order; ordered maps are sorted lists with distinct keys (\<^verbatim>\<open>OrderedMap\<close>). An unbounded
  channel is the list of what was sent. Log lines are left out unless they are stored.

  Code outside the repository is a parameter: the records \<^typ>\<open>crypto\<close> (SHA-256 and Ed25519),
  \<^typ>\<open>db_ext\<close>, \<^typ>\<open>ledger_ext\<close>, \<^typ>\<open>gossip_ext\<close>, \<^typ>\<open>net_ext\<close>, \<^typ>\<open>rpc_ext\<close> and \<^typ>\<open>cli_ext\<close> hold
  the functions of \<^verbatim>\<open>sha2\<close>, \<^verbatim>\<open>ed25519-dalek\<close>, \<^verbatim>\<open>serde_json\<close>, \<^verbatim>\<open>hex\<close> and the file system that the
  sources call. What a theorem needs of them is a named hypothesis such as
  \<^const>\<open>ed25519_correct\<close> or \<^const>\<open>ledger_json_ok\<close>, and every such theorem is followed by a concrete
  instance. SHA-256 is never assumed to be injective: a binding theorem is stated for hash
  functions without a collision among the inputs that are hashed (\<^const>\<open>collision_free\<close>). The
  clock, random choices and the order in which worker threads get through are arguments.

  \<^bold>\<open>Foundations.\<close> \<^verbatim>\<open>Prelude\<close>: words, bytes, little-endian codes, formatting, and the interfaces of
  prefix codes, which make the injectivity of each signed message a composition of the
  codes of its fields. \<^verbatim>\<open>Crypto\<close>: the hash and signature parameters. \<^verbatim>\<open>KV_Store\<close>: the interface the
  transaction layers use of the accounts database, interpreted in \<^verbatim>\<open>AccountsDB\<close> on the database
  itself. \<^verbatim>\<open>Machines\<close>: components driven by sequences of operations, interpreted for the pool, the recorder,
  the fork tree, the gossip node, the RPC handler and the validator.

  \<^bold>\<open>Accounts\<close> (\<^verbatim>\<open>crates/accounts/src\<close>). \<^verbatim>\<open>Account\<close> models \<^verbatim>\<open>account.rs\<close>; \<^verbatim>\<open>Merkle\<close> models
  \<^verbatim>\<open>merkle.rs\<close>, where proofs are shown complete and binding; \<^verbatim>\<open>AccountsDB\<close> and \<^verbatim>\<open>AccountsLog\<close> model
  \<^verbatim>\<open>store.rs\<close>: the append-only buffer with its index refines a finite map, the log restores it on
  reopening, a torn log replays to a prefix, and the state root is a function of the map.

  \<^bold>\<open>Programs\<close> (\<^verbatim>\<open>crates/program-executor/src\<close>). \<^verbatim>\<open>Instruction\<close> models \<^verbatim>\<open>lib.rs\<close> and
  \<^verbatim>\<open>instruction.rs\<close> with exact codecs; \<^verbatim>\<open>SystemProgram\<close> and \<^verbatim>\<open>TokenProgram\<close> model the two native
  programs on every branch and show authorisation, conservation of lamports, and that a mint's
  supply is the sum of its token accounts; \<^verbatim>\<open>Processor\<close> models \<^verbatim>\<open>processor.rs\<close>: a failed
  instruction changes nothing and only resolved accounts change.

  \<^bold>\<open>Transactions\<close> (\<^verbatim>\<open>crates/tx-processor/src\<close>). \<^verbatim>\<open>Transaction\<close> (\<^verbatim>\<open>transaction.rs\<close>): the hash
  commits to the message. \<^verbatim>\<open>Scheduler\<close> (\<^verbatim>\<open>scheduler.rs\<close>): batches are conflict-free and lose
  nothing. \<^verbatim>\<open>Executor\<close> (\<^verbatim>\<open>executor.rs\<close>) with \<^verbatim>\<open>Batches\<close>: a failed transaction keeps its fee
  only, a transaction burns exactly its fee, the order of an independent batch is
  irrelevant. \<^verbatim>\<open>Locks\<close>: workers taking account locks as a step relation, with mutual exclusion,
  progress and termination. \<^verbatim>\<open>Mempool\<close> (\<^verbatim>\<open>crates/mempool/src/lib.rs\<close>): the two indexes of the pool
  agree, and draining is by fee and admission.

  \<^bold>\<open>Clock and ledger.\<close> \<^verbatim>\<open>PoH\<close> (\<^verbatim>\<open>crates/poh/src\<close>): what the recorder emits is a chain both verifiers
  accept, and its last hash determines it. \<^verbatim>\<open>Blockstore\<close> (\<^verbatim>\<open>crates/blockstore/src\<close>): an opened
  ledger is a valid chain, appended blocks are durable, the head commits to the chain.

  \<^bold>\<open>Consensus\<close> (\<^verbatim>\<open>crates/consensus/src\<close>). \<^verbatim>\<open>Votes\<close> (\<^verbatim>\<open>vote.rs\<close>) and \<^verbatim>\<open>Tower\<close> (\<^verbatim>\<open>tower.rs\<close>): two
  blocks of one slot are never both confirmed, and processing votes ends. \<^verbatim>\<open>Leader\<close> (\<^verbatim>\<open>leader.rs\<close>): the
  schedule is total and fair, with the double-precision arithmetic written out. \<^verbatim>\<open>ForkChoice\<close>
  (\<^verbatim>\<open>fork_choice.rs\<close>): the best head.

  \<^bold>\<open>Turbine\<close> (\<^verbatim>\<open>crates/turbine/src\<close>). \<^verbatim>\<open>GF256\<close>, \<^verbatim>\<open>GaussJordan\<close>, \<^verbatim>\<open>ReedSolomon\<close> and \<^verbatim>\<open>Erasure\<close> model
  \<^verbatim>\<open>erasure.rs\<close> from the logarithm tables to the decoder: the table arithmetic is that of a field,
  the matrix inversion inverts, and any sufficiently many shreds give the block back.
  \<^verbatim>\<open>Shreds\<close> models \<^verbatim>\<open>shred.rs\<close>, \<^verbatim>\<open>Neighborhoods\<close> the propagation tree, \<^verbatim>\<open>Turbine\<close> the propagator, where
  a receiver reassembles a block from mixed traffic.

  \<^bold>\<open>Network.\<close> \<^verbatim>\<open>Crds\<close> and \<^verbatim>\<open>Gossip\<close> (\<^verbatim>\<open>crates/gossip/src\<close>): everything stored was delivered by a
  correctly signed message, and a pull round brings a node level with its peer. \<^verbatim>\<open>Net\<close>
  (\<^verbatim>\<open>crates/net/src/lib.rs\<close>): a sent message is received. \<^verbatim>\<open>Network\<close>
  (\<^verbatim>\<open>validator/src/network.rs\<close>): each background task as the function one turn of its loop computes.

  \<^bold>\<open>RPC and validator.\<close> \<^verbatim>\<open>Base58\<close> and \<^verbatim>\<open>Rpc\<close> (\<^verbatim>\<open>crates/rpc/src\<close>): every method and one connection of
  the server. \<^verbatim>\<open>Validator\<close> (\<^verbatim>\<open>validator/src/main.rs\<close> and \<^verbatim>\<open>genesis.rs\<close>): genesis, the slot clock and
  block production, with the tasks interleaved and the process restarted at any point; a node
  produces one block per slot, and nodes in the same position produce the same block.

  \<^bold>\<open>Termination.\<close> Functions are total except three loops that follow parent links and may run for
  ever on cyclic data: \<^const>\<open>chain_weight\<close>, \<^const>\<open>walk_chain\<close> and \<^const>\<open>walk_up\<close> are partial functions
  whose value \<^const>\<open>None\<close> is not returning. That they return is proved for the states that
  arise (votes on older parents, older parents of fork blocks, built trees); a fork block that
  is its own parent is shown not to return. No fuel is used in the model.

  \<^bold>\<open>Bounds.\<close> Hypotheses such as fewer than \<open>2 ^ 64\<close> operations, blocks below the 16 MiB of a ledger
  frame and stakes whose sum fits a word exclude wrap-around that the code does not check; where
  the code goes wrong beyond them, a lemma next to the theorem shows how.

  \<^bold>\<open>Not modelled.\<close> Sockets, timers, task spawning, argument parsing, logging and the benchmark of
  the binary: they hold no protocol state. The parsers and printers of JSON, hexadecimal text and
  socket addresses belong to linked crates and are parameters. I/O errors of opening files, and
  the accept loop of the RPC server. Locks are modelled where they matter: account locks in
  \<^verbatim>\<open>Locks\<close>, the state lock of the validator in the interleavings of \<^verbatim>\<open>Validator\<close>; elsewhere an
  operation is atomic, as the lock it holds makes it.
\<close>

end
